(* ===== verification/Prelude.thy ===== *)
theory Prelude
  imports Main "HOL-Library.AList" "HOL-Library.Multiset"
begin

text \<open>
  Shared vocabulary of the development.

  \<^item> A Go map whose iteration order is irrelevant is a partial function or an
    association list with distinct keys (\<open>gmap\<close>); the operations on the latter are
    those of \<open>HOL-Library.AList\<close>.
  \<^item> A Go function that returns an error or panics is a function into a sum type, the
    failure on the left (\<open>result\<close>); \<open>rbind\<close> is the early return on failure that the
    sources spell \<^verbatim>\<open>if err != nil { return err }\<close>.
  \<^item> A loop that searches a slice for an element and remembers the index is
    \<open>index_of\<close>; the idiom \<^verbatim>\<open>append(xs[:i], xs[i+1:]...)\<close> is \<open>remove_at\<close>.
\<close>

named_theorems result_simps \<open>equations for sequencing results\<close>
named_theorems inv_intros \<open>preservation of component invariants\<close>

type_synonym ('k, 'v) gmap = "('k \<times> 'v) list"
type_synonym ('e, 'a) result = "'e + 'a"

section \<open>Results\<close>

definition rbind :: "('e, 'a) result \<Rightarrow> ('a \<Rightarrow> ('e, 'b) result) \<Rightarrow> ('e, 'b) result" where
  "rbind r f = (case r of Inl e \<Rightarrow> Inl e | Inr x \<Rightarrow> f x)"

definition is_ok :: "('e, 'a) result \<Rightarrow> bool" where
  "is_ok r = (case r of Inl _ \<Rightarrow> False | Inr _ \<Rightarrow> True)"

lemma rbind_Inl [simp, result_simps]: "rbind (Inl e) f = Inl e"
  by (simp add: rbind_def)

lemma rbind_Inr [simp, result_simps]: "rbind (Inr x) f = f x"
  by (simp add: rbind_def)

lemma rbind_eq_Inr_iff [result_simps]:
  "rbind r f = Inr y \<longleftrightarrow> (\<exists>x. r = Inr x \<and> f x = Inr y)"
  by (cases r) auto

lemma rbind_eq_Inl_iff [result_simps]:
  "rbind r f = Inl e \<longleftrightarrow> r = Inl e \<or> (\<exists>x. r = Inr x \<and> f x = Inl e)"
  by (cases r) auto

lemma is_ok_simps [simp]: "is_ok (Inr x)" "\<not> is_ok (Inl e)"
  by (simp_all add: is_ok_def)

lemma is_ok_iff: "is_ok r \<longleftrightarrow> (\<exists>x. r = Inr x)"
  by (cases r) auto

section \<open>Searching and deleting in slices\<close>

fun index_of :: "'a \<Rightarrow> 'a list \<Rightarrow> nat option" where
  "index_of x [] = None"
| "index_of x (y # ys) = (if y = x then Some 0 else map_option Suc (index_of x ys))"

definition remove_at :: "nat \<Rightarrow> 'a list \<Rightarrow> 'a list" where
  "remove_at i xs = take i xs @ drop (Suc i) xs"

lemma index_of_eq_None_iff [simp]: "index_of x xs = None \<longleftrightarrow> x \<notin> set xs"
  by (induction xs) auto

lemma index_of_notin [simp]: "x \<notin> set xs \<Longrightarrow> index_of x xs = None"
  by simp

lemma index_of_SomeD:
  "index_of x xs = Some i \<Longrightarrow> i < length xs \<and> xs ! i = x \<and> x \<notin> set (take i xs)"
  by (induction xs arbitrary: i) (auto split: if_splits)

lemma remove_at_index_of:
  "index_of x xs = Some i \<Longrightarrow> remove_at i xs = remove1 x xs"
  by (induction xs arbitrary: i) (auto simp: remove_at_def split: if_splits)

section \<open>Lists\<close>

lemma distinct_map_of_SomeI:
  "distinct (map fst kvs) \<Longrightarrow> (k, v) \<in> set kvs \<Longrightarrow> map_of kvs k = Some v"
  by (rule map_of_is_SomeI)

section \<open>Go maps as association lists\<close>

text \<open>The index expression on a Go map: the stored value, or the zero value \<open>d\<close>.\<close>

definition gm_get :: "'v \<Rightarrow> ('k, 'v) gmap \<Rightarrow> 'k \<Rightarrow> 'v" where
  "gm_get d m k = (case map_of m k of None \<Rightarrow> d | Some v \<Rightarrow> v)"

lemma gm_get_update [simp]:
  "gm_get d (AList.update k v m) k' = (if k' = k then v else gm_get d m k')"
  by (simp add: gm_get_def update_conv)

lemma gm_get_delete [simp]:
  "gm_get d (AList.delete k m) k' = (if k' = k then d else gm_get d m k')"
  by (simp add: gm_get_def delete_conv)

lemma gm_get_Nil [simp]: "gm_get d [] k = d"
  by (simp add: gm_get_def)

lemma map_of_update [simp]: "map_of (AList.update k v m) = (map_of m)(k \<mapsto> v)"
  by (rule update_conv')

lemma map_of_delete [simp]: "map_of (AList.delete k m) = (map_of m)(k := None)"
  by (rule delete_conv')

lemma keys_update: "fst ` set (AList.update k v m) = insert k (fst ` set m)"
  by (induction m) auto

section \<open>Splitting and joining at a separator\<close>

text \<open>\<^verbatim>\<open>strings.Split\<close> with a one-byte separator, and \<^verbatim>\<open>strings.Join\<close> with it.\<close>

fun split_on :: "'a \<Rightarrow> 'a list \<Rightarrow> 'a list list" where
  "split_on s [] = [[]]"
| "split_on s (c # cs) =
     (if c = s then [] # split_on s cs
      else case split_on s cs of [] \<Rightarrow> [[c]] | p # ps \<Rightarrow> (c # p) # ps)"

fun join_with :: "'a \<Rightarrow> 'a list list \<Rightarrow> 'a list" where
  "join_with s [] = []"
| "join_with s [p] = p"
| "join_with s (p # q # ps) = p @ s # join_with s (q # ps)"

lemma split_on_not_Nil [simp]: "split_on s xs \<noteq> []"
  by (induction xs) (auto split: list.splits)

lemma join_split_on [simp]: "join_with s (split_on s xs) = xs"
proof (induction xs)
  case Nil
  then show ?case by simp
next
  case (Cons c cs)
  obtain p ps where p: "split_on s cs = p # ps" by (cases "split_on s cs") auto
  with Cons show ?case by (cases ps) auto
qed

lemma split_on_no_sep: "p \<in> set (split_on s xs) \<Longrightarrow> s \<notin> set p"
  by (induction xs arbitrary: p) (auto split: if_splits list.splits)

lemma split_on_id: "s \<notin> set p \<Longrightarrow> split_on s p = [p]"
  by (induction p) auto

lemma split_on_append_sep: "s \<notin> set p \<Longrightarrow> split_on s (p @ s # xs) = p # split_on s xs"
  by (induction p) auto

lemma split_on_join:
  "ps \<noteq> [] \<Longrightarrow> \<forall>p\<in>set ps. s \<notin> set p \<Longrightarrow> split_on s (join_with s ps) = ps"
  by (induction s ps rule: join_with.induct) (auto simp: split_on_id split_on_append_sep)

lemma split_on_append:
  "split_on s (xs @ ys) = butlast (split_on s xs) @ split_on s (last (split_on s xs) @ ys)"
proof (induction xs)
  case Nil
  then show ?case by simp
next
  case (Cons c cs)
  obtain p ps where p: "split_on s cs = p # ps" by (cases "split_on s cs") auto
  show ?case
  proof (cases "c = s")
    case True
    with Cons p show ?thesis by simp
  next
    case False
    then show ?thesis
      using Cons p by (cases ps) (auto split: list.splits)
  qed
qed

section \<open>Histories of bounded length\<close>

definition lastn :: "nat \<Rightarrow> 'a list \<Rightarrow> 'a list" where
  "lastn n xs = drop (length xs - n) xs"

lemma length_lastn [simp]: "length (lastn n xs) = min n (length xs)"
  by (simp add: lastn_def)

lemma lastn_id: "length xs \<le> n \<Longrightarrow> lastn n xs = xs"
  by (simp add: lastn_def)

lemma lastn_lastn_append: "lastn n (lastn n xs @ ys) = lastn n (xs @ ys)"
  by (cases "length xs \<le> n") (auto simp: lastn_def drop_append add.commute)

text \<open>
  A store that keeps the last \<open>cap\<close> items pushed into it: the contract of the ring buffer of
  \<^verbatim>\<open>osbase/logbuffer\<close> and of the per-DN entry lists of \<^verbatim>\<open>osbase/logtree\<close>.
\<close>

locale bounded_log =
  fixes push :: "'x \<Rightarrow> 'b \<Rightarrow> 'b"
    and view :: "'b \<Rightarrow> 'x list"
    and cap :: "'b \<Rightarrow> nat"
    and inv :: "'b \<Rightarrow> bool"
  assumes inv_push: "inv b \<Longrightarrow> inv (push x b)"
    and cap_push: "inv b \<Longrightarrow> cap (push x b) = cap b"
    and view_push: "inv b \<Longrightarrow> view (push x b) = lastn (cap b) (view b @ [x])"
    and view_le: "inv b \<Longrightarrow> length (view b) \<le> cap b"
begin

lemma push_all:
  "inv b \<Longrightarrow> inv (fold push xs b) \<and> cap (fold push xs b) = cap b
    \<and> view (fold push xs b) = lastn (cap b) (view b @ xs)"
proof (induction xs arbitrary: b)
  case Nil
  then show ?case using view_le [of b] by (simp add: lastn_id)
next
  case (Cons x xs)
  from Cons.IH [OF inv_push [OF Cons.prems]] Cons.prems show ?case
    by (simp add: cap_push view_push lastn_lastn_append)
qed

lemma push_all_fits:
  "inv b \<Longrightarrow> length (view b) + length xs \<le> cap b \<Longrightarrow> view (fold push xs b) = view b @ xs"
  using push_all [of b xs] by (simp add: lastn_id)

end

section \<open>Words\<close>

text \<open>\<^verbatim>\<open>strings.Fields\<close> for ASCII text, and the cut of \<^verbatim>\<open>strings.Cut\<close> at a single byte.\<close>

definition is_ascii_space :: "char \<Rightarrow> bool" where
  "is_ascii_space c \<longleftrightarrow> c \<in> {CHR 0x09, CHR 0x0A, CHR 0x0B, CHR 0x0C, CHR 0x0D, CHR '' ''}"

function go_fields :: "string \<Rightarrow> string list" where
  "go_fields s =
     (let s1 = dropWhile is_ascii_space s in
      if s1 = [] then []
      else takeWhile (\<lambda>c. \<not> is_ascii_space c) s1 # go_fields (dropWhile (\<lambda>c. \<not> is_ascii_space c) s1))"
  by pat_completeness auto
termination
proof (relation "measure length", simp)
  fix s s1 :: string
  assume s1: "s1 = dropWhile is_ascii_space s" "s1 \<noteq> []"
  then have "\<not> is_ascii_space (hd s1)"
    by (simp add: hd_dropWhile)
  then have "length (dropWhile (\<lambda>c. \<not> is_ascii_space c) s1) < length s1"
    using s1(2) by (cases s1) (simp_all add: length_dropWhile_le le_imp_less_Suc)
  also have "\<dots> \<le> length s"
    unfolding s1(1) by (rule length_dropWhile_le)
  finally show "(dropWhile (\<lambda>c. \<not> is_ascii_space c) s1, s) \<in> measure length"
    by simp
qed

declare go_fields.simps [simp del]

lemma go_fields_code [code]:
  "go_fields s =
     (let s1 = dropWhile is_ascii_space s in
      if s1 = [] then []
      else takeWhile (\<lambda>c. \<not> is_ascii_space c) s1 # go_fields (dropWhile (\<lambda>c. \<not> is_ascii_space c) s1))"
  by (rule go_fields.simps)

definition go_cut :: "'a \<Rightarrow> 'a list \<Rightarrow> ('a list \<times> 'a list) option" where
  "go_cut sep s =
     (if sep \<in> set s then Some (takeWhile (\<lambda>c. c \<noteq> sep) s, tl (dropWhile (\<lambda>c. c \<noteq> sep) s)) else None)"

lemma go_cut_append [simp]: "sep \<notin> set a \<Longrightarrow> go_cut sep (a @ sep # b) = Some (a, b)"
  by (induction a) (auto simp: go_cut_def)

end
