(* ===== verification/OrderedMap.thy ===== *)
theory OrderedMap
  imports Prelude
begin

text \<open>
  The generic ordered map of \<^verbatim>\<open>go/types/mapsets/orderedmap.go\<close> and its round-robin
  iterator. The map keeps a sorted slice of keys beside a Go map of values; a nil Go map
  is \<open>None\<close>. Go's zero value of the value type, which an index expression yields for a
  missing key, is the argument \<open>zero\<close>. The invariant \<open>om_inv\<close> says that the slice and the
  map are in sync; the interface locale \<open>ordered_map\<close> states what clients rely on.
\<close>

section \<open>The data structure\<close>

record ('k, 'v) omap =
  om_keys :: "'k list"
  om_values :: "('k \<rightharpoonup> 'v) option"

datatype om_error = OutOfSync

definition om_empty :: "('k, 'v) omap" where
  "om_empty = \<lparr>om_keys = [], om_values = None\<rparr>"

definition om_sort :: "('k::linorder, 'v) omap \<Rightarrow> ('k, 'v) omap" where
  "om_sort s = s\<lparr>om_keys := sort (om_keys s)\<rparr>"

text \<open>The Go map after \<^verbatim>\<open>if s.values == nil { s.values = make(...) }\<close>.\<close>

definition om_made :: "('k, 'v) omap \<Rightarrow> ('k \<rightharpoonup> 'v)" where
  "om_made s = (case om_values s of None \<Rightarrow> Map.empty | Some m \<Rightarrow> m)"

definition om_Insert :: "'k::linorder \<Rightarrow> 'v \<Rightarrow> ('k, 'v) omap \<Rightarrow> ('k, 'v) omap" where
  "om_Insert k v s =
     (let m = om_made s;
          s1 = s\<lparr>om_values := Some m\<rparr>;
          s2 = (if m k = None then om_sort (s1\<lparr>om_keys := om_keys s1 @ [k]\<rparr>) else s1)
      in s2\<lparr>om_values := Some (m(k \<mapsto> v))\<rparr>)"

definition om_Get :: "'k \<Rightarrow> ('k, 'v) omap \<Rightarrow> 'v option" where
  "om_Get k s = (case om_values s of None \<Rightarrow> None | Some m \<Rightarrow> m k)"

definition om_Keys :: "('k, 'v) omap \<Rightarrow> 'k list" where
  "om_Keys s = (case om_values s of None \<Rightarrow> [] | Some _ \<Rightarrow> om_keys s)"

text \<open>The Go index expression \<^verbatim>\<open>s.values[k]\<close>.\<close>

definition om_index :: "'v \<Rightarrow> ('k, 'v) omap \<Rightarrow> 'k \<Rightarrow> 'v" where
  "om_index zero s k = (case om_Get k s of None \<Rightarrow> zero | Some v \<Rightarrow> v)"

definition om_Values :: "'v \<Rightarrow> ('k, 'v) omap \<Rightarrow> ('k \<times> 'v) list" where
  "om_Values zero s = map (\<lambda>k. (k, om_index zero s k)) (om_keys s)"

definition om_Delete :: "'k \<Rightarrow> ('k, 'v) omap \<Rightarrow> (om_error, ('k, 'v) omap) result" where
  "om_Delete k s =
     (case om_values s of
        None \<Rightarrow> Inr s
      | Some m \<Rightarrow>
          (if m k = None then Inr s
           else case index_of k (om_keys s) of
                  None \<Rightarrow> Inl OutOfSync
                | Some i \<Rightarrow> Inr (s\<lparr>om_keys := remove_at i (om_keys s), om_values := Some (m(k := None))\<rparr>)))"

definition om_Clear :: "('k, 'v) omap \<Rightarrow> ('k, 'v) omap" where
  "om_Clear s = s\<lparr>om_keys := [], om_values := None\<rparr>"

definition om_Count :: "('k, 'v) omap \<Rightarrow> nat" where
  "om_Count s = length (om_keys s)"

text \<open>\<open>Clone\<close> fills fresh keys and values in one loop over the old keys.\<close>

definition om_Clone :: "'v \<Rightarrow> ('k, 'v) omap \<Rightarrow> ('k, 'v) omap" where
  "om_Clone zero s =
     (case om_values s of
        None \<Rightarrow> om_empty
      | Some _ \<Rightarrow>
          (let (ks, m) = fold (\<lambda>k (ks, m). (ks @ [k], m(k \<mapsto> om_index zero s k))) (om_keys s) ([], Map.empty)
           in \<lparr>om_keys = ks, om_values = Some m\<rparr>))"

definition om_Replace :: "'v \<Rightarrow> ('k, 'v) omap \<Rightarrow> ('k, 'v) omap \<Rightarrow> ('k, 'v) omap" where
  "om_Replace zero oth s =
     (let s1 = s\<lparr>om_values := Some (om_made s)\<rparr>;
          cloned = om_Clone zero oth
      in s1\<lparr>om_keys := om_keys cloned, om_values := om_values cloned\<rparr>)"

section \<open>The cycle iterator\<close>

text \<open>The iterator holds a pointer to its map; the model passes the map it points to.\<close>

record cycle_iterator =
  ci_ix :: nat

definition om_Cycle :: cycle_iterator where
  "om_Cycle = \<lparr>ci_ix = 0\<rparr>"

definition ci_Reset :: "cycle_iterator \<Rightarrow> cycle_iterator" where
  "ci_Reset c = c\<lparr>ci_ix := 0\<rparr>"

definition ci_Next :: "'v \<Rightarrow> ('k, 'v) omap \<Rightarrow> cycle_iterator \<Rightarrow> ('k \<times> 'v) option \<times> cycle_iterator" where
  "ci_Next zero s c =
     (if length (om_keys s) = 0 then (None, c)
      else let ix = (if ci_ix c \<ge> length (om_keys s) then 0 else ci_ix c);
               key = om_keys s ! ix
           in (Some (key, om_index zero s key), c\<lparr>ci_ix := Suc ix\<rparr>))"

fun ci_run :: "'v \<Rightarrow> ('k, 'v) omap \<Rightarrow> nat \<Rightarrow> cycle_iterator \<Rightarrow> ('k \<times> 'v) option list \<times> cycle_iterator" where
  "ci_run zero s 0 c = ([], c)"
| "ci_run zero s (Suc n) c =
     (let (r, c1) = ci_Next zero s c; (rs, c2) = ci_run zero s n c1 in (r # rs, c2))"

section \<open>Invariant and abstraction\<close>

definition om_abs :: "('k, 'v) omap \<Rightarrow> ('k \<rightharpoonup> 'v)" where
  "om_abs s = (\<lambda>k. om_Get k s)"

definition om_inv :: "('k::linorder, 'v) omap \<Rightarrow> bool" where
  "om_inv s \<longleftrightarrow> sorted (om_keys s) \<and> distinct (om_keys s) \<and> set (om_keys s) = dom (om_made s)"

lemma om_made_eq_abs: "om_made s = om_abs s"
  by (auto simp: om_made_def om_abs_def om_Get_def fun_eq_iff split: option.split)

lemma om_keys_eq: "om_inv s \<Longrightarrow> om_keys s = sorted_list_of_set (dom (om_abs s))"
  by (metis om_inv_def om_made_eq_abs sorted_list_of_set_unique finite_set sorted_list_of_set.idem_if_sorted_distinct)


lemma om_abs_empty [simp]: "om_abs om_empty = Map.empty"
  by (simp add: om_abs_def om_empty_def om_Get_def fun_eq_iff)

lemma om_inv_empty [inv_intros]: "om_inv om_empty"
  by (simp add: om_inv_def om_made_eq_abs) (simp add: om_empty_def)

lemma om_keys_Nil_if_nil: "om_inv s \<Longrightarrow> om_values s = None \<Longrightarrow> om_keys s = []"
  by (simp add: om_inv_def om_made_def)

lemma om_Keys_eq_keys: "om_inv s \<Longrightarrow> om_Keys s = om_keys s"
  by (simp add: om_Keys_def om_keys_Nil_if_nil split: option.split)

lemma om_abs_Insert: "om_abs (om_Insert k v s) = (om_abs s)(k \<mapsto> v)"
  by (auto simp: om_Insert_def om_sort_def om_made_eq_abs Let_def om_abs_def om_Get_def fun_eq_iff)

lemma om_keys_Insert:
  "om_keys (om_Insert k v s) = (if om_abs s k = None then sort (om_keys s @ [k]) else om_keys s)"
  by (simp add: om_Insert_def om_sort_def om_made_eq_abs Let_def)

lemma om_inv_Insert [inv_intros]: "om_inv s \<Longrightarrow> om_inv (om_Insert k v s)"
  by (auto simp: om_inv_def om_made_eq_abs om_abs_Insert om_keys_Insert domIff)

lemma om_Delete_ok:
  assumes "om_inv s"
  shows "\<exists>s'. om_Delete k s = Inr s' \<and> om_inv s' \<and> om_abs s' = (om_abs s)(k := None)"
proof (cases "om_abs s k")
  case None
  then have "om_Delete k s = Inr s"
    by (auto simp: om_Delete_def om_abs_def om_Get_def split: option.splits)
  with None assms show ?thesis by auto
next
  case (Some v)
  then obtain m where m: "om_values s = Some m" "m k = Some v"
    by (auto simp: om_abs_def om_Get_def split: option.splits)
  with assms have "k \<in> set (om_keys s)"
    by (auto simp: om_inv_def om_made_def)
  then obtain i where i: "index_of k (om_keys s) = Some i"
    by fastforce
  let ?s' = "s\<lparr>om_keys := remove1 k (om_keys s), om_values := Some (m(k := None))\<rparr>"
  have "om_Delete k s = Inr ?s'"
    using m i by (simp add: om_Delete_def remove_at_index_of)
  moreover have "om_inv ?s'"
    using assms m by (auto simp: om_inv_def om_made_def sorted_remove1)
  moreover have "om_abs ?s' = (om_abs s)(k := None)"
    using m by (auto simp: om_abs_def om_Get_def fun_eq_iff)
  ultimately show ?thesis by blast
qed

lemma om_abs_Clear [simp]: "om_abs (om_Clear s) = Map.empty"
  by (simp add: om_abs_def om_Clear_def om_Get_def fun_eq_iff)

lemma om_inv_Clear [inv_intros]: "om_inv (om_Clear s)"
  by (simp add: om_inv_def om_made_eq_abs) (simp add: om_Clear_def)

lemma om_clone_fold:
  "fold (\<lambda>k (ks, m). (ks @ [k], m(k \<mapsto> f k))) xs (ks0, m0)
     = (ks0 @ xs, \<lambda>k. if k \<in> set xs then Some (f k) else m0 k)"
  by (induction xs arbitrary: ks0 m0) (auto simp: fun_eq_iff)

lemma om_Clone_keys: "om_inv s \<Longrightarrow> om_keys (om_Clone zero s) = om_keys s"
  by (simp add: om_Clone_def om_clone_fold om_empty_def om_keys_Nil_if_nil split: option.split)

lemma om_Clone_abs: "om_inv s \<Longrightarrow> om_abs (om_Clone zero s) = om_abs s"
  by (auto simp: om_Clone_def om_clone_fold om_inv_def om_made_def om_index_def om_Get_def om_abs_def
      om_empty_def fun_eq_iff split: option.splits)

lemma om_inv_Clone [inv_intros]: "om_inv s \<Longrightarrow> om_inv (om_Clone zero s)"
  by (simp add: om_inv_def om_made_eq_abs om_Clone_abs [unfolded om_inv_def om_made_eq_abs]
      om_Clone_keys [unfolded om_inv_def om_made_eq_abs])

lemma om_Replace_eq: "om_keys (om_Replace zero oth s) = om_keys (om_Clone zero oth)"
  "om_values (om_Replace zero oth s) = om_values (om_Clone zero oth)"
  by (simp_all add: om_Replace_def Let_def)

lemma om_abs_Replace: "om_inv oth \<Longrightarrow> om_abs (om_Replace zero oth s) = om_abs oth"
  using om_Clone_abs [of oth zero] by (simp add: om_abs_def om_Get_def om_Replace_eq)

lemma om_inv_Replace [inv_intros]: "om_inv oth \<Longrightarrow> om_inv (om_Replace zero oth s)"
  using om_inv_Clone [of oth zero] by (simp add: om_inv_def om_made_def om_Replace_eq)

lemma om_Values_eq:
  "om_inv s \<Longrightarrow> om_Values zero s = map (\<lambda>k. (k, the (om_abs s k))) (sorted_list_of_set (dom (om_abs s)))"
  unfolding om_Values_def om_keys_eq [symmetric]
  by (rule map_cong) (auto simp: om_inv_def om_made_eq_abs om_index_def om_abs_def)

lemma om_Values_set: "om_inv s \<Longrightarrow> set (om_Values zero s) = {(k, v). om_abs s k = Some v}"
  by (auto simp: om_Values_def om_index_def om_inv_def om_made_eq_abs om_abs_def split: option.splits)

section \<open>The interface\<close>

text \<open>
  What the users of an ordered map rely on (the load balancer's backend set, the metrics
  discovery): it is a finite map whose key listing is the sorted domain, and deleting never
  fails.
\<close>

locale ordered_map =
  fixes empty :: "'m"
    and insert :: "'k::linorder \<Rightarrow> 'v \<Rightarrow> 'm \<Rightarrow> 'm"
    and delete :: "'k \<Rightarrow> 'm \<Rightarrow> ('e, 'm) result"
    and get :: "'m \<Rightarrow> 'k \<Rightarrow> 'v option"
    and keys :: "'m \<Rightarrow> 'k list"
    and inv :: "'m \<Rightarrow> bool"
  assumes get_empty: "get empty = Map.empty"
    and inv_empty: "inv empty"
    and get_insert: "inv m \<Longrightarrow> get (insert k v m) = (get m)(k \<mapsto> v)"
    and inv_insert: "inv m \<Longrightarrow> inv (insert k v m)"
    and delete_ok: "inv m \<Longrightarrow> \<exists>m'. delete k m = Inr m' \<and> inv m' \<and> get m' = (get m)(k := None)"
    and finite_get: "inv m \<Longrightarrow> finite (dom (get m))"
    and keys_sorted: "inv m \<Longrightarrow> keys m = sorted_list_of_set (dom (get m))"
begin

definition insert_all :: "('k \<times> 'v) list \<Rightarrow> 'm \<Rightarrow> 'm" where
  "insert_all kvs m = fold (\<lambda>(k, v). insert k v) kvs m"

fun delete_all :: "'k list \<Rightarrow> 'm \<Rightarrow> ('e, 'm) result" where
  "delete_all [] m = Inr m"
| "delete_all (k # ks) m = rbind (delete k m) (delete_all ks)"

lemma insert_all_inv_get:
  "inv m \<Longrightarrow> inv (insert_all kvs m) \<and> get (insert_all kvs m) = get m ++ map_of (rev kvs)"
  by (induction kvs arbitrary: m)
    (auto simp: insert_all_def inv_insert get_insert map_add_def fun_eq_iff split: option.splits)

lemma delete_all_ok:
  "inv m \<Longrightarrow> \<exists>m'. delete_all ks m = Inr m' \<and> inv m' \<and> get m' = (get m) |` (- set ks)"
proof (induction ks arbitrary: m)
  case Nil
  then show ?case by simp
next
  case (Cons k ks)
  from delete_ok [OF Cons.prems] obtain m1
    where m1: "delete k m = Inr m1" "inv m1" "get m1 = (get m)(k := None)" by blast
  from Cons.IH [OF m1(2)] obtain m2
    where m2: "delete_all ks m1 = Inr m2" "inv m2" "get m2 = (get m1) |` (- set ks)" by blast
  have "get m2 = (get m) |` (- set (k # ks))"
    using m1(3) m2(3) by (auto simp: fun_eq_iff restrict_map_def)
  with m1 m2 show ?case by simp
qed

lemma keys_canonical: "inv m \<Longrightarrow> inv m' \<Longrightarrow> get m = get m' \<Longrightarrow> keys m = keys m'"
  by (simp add: keys_sorted)

lemma keys_after_build:
  "keys (insert_all kvs empty) = sorted_list_of_set (fst ` set kvs)"
proof -
  have "inv (insert_all kvs empty)" "get (insert_all kvs empty) = map_of (rev kvs)"
    using insert_all_inv_get [OF inv_empty, of kvs] by (simp_all add: get_empty)
  then show ?thesis by (simp add: keys_sorted dom_map_of_conv_image_fst)
qed

end

interpretation om: ordered_map om_empty om_Insert om_Delete om_abs om_Keys om_inv
proof
  show "\<And>m k. om_inv m \<Longrightarrow> \<exists>m'. om_Delete k m = Inr m' \<and> om_inv m' \<and> om_abs m' = (om_abs m)(k := None)"
    by (rule om_Delete_ok)
  show "\<And>m. om_inv m \<Longrightarrow> finite (dom (om_abs m))"
    by (metis om_inv_def om_made_eq_abs finite_set)
qed (simp_all add: om_inv_empty om_inv_Insert om_abs_Insert om_Keys_eq_keys om_keys_eq)

section \<open>Round robin\<close>

definition ci_start :: "('k, 'v) omap \<Rightarrow> cycle_iterator \<Rightarrow> nat" where
  "ci_start s c = (if ci_ix c \<ge> om_Count s then 0 else ci_ix c)"

lemma ci_run_aux:
  assumes "j < length ks" "ks = om_keys s" "n \<le> length ks" "ci_start s c = j"
  shows "fst (ci_run zero s n c) = map (\<lambda>i. Some (om_Values zero s ! ((j + i) mod length ks))) [0..<n]"
  using assms
proof (induction n arbitrary: j c)
  case 0
  then show ?case by simp
next
  case (Suc n)
  let ?c1 = "c\<lparr>ci_ix := Suc j\<rparr>"
  let ?j1 = "Suc j mod length ks"
  have start: "ci_start s ?c1 = ?j1"
    using Suc.prems by (cases "Suc j = length ks") (auto simp: ci_start_def om_Count_def)
  have step: "ci_Next zero s c = (Some (om_Values zero s ! j), ?c1)"
    using Suc.prems by (auto simp: ci_Next_def ci_start_def om_Count_def om_Values_def Let_def)
  have IH: "fst (ci_run zero s n ?c1) = map (\<lambda>i. Some (om_Values zero s ! ((?j1 + i) mod length ks))) [0..<n]"
    using Suc.prems start by (intro Suc.IH) (auto intro!: mod_less_divisor dest: Suc_le_lessD)
  have shift: "(?j1 + i) mod length ks = (j + Suc i) mod length ks" for i
    by (simp add: mod_add_left_eq)
  have "fst (ci_run zero s (Suc n) c) = Some (om_Values zero s ! j) # fst (ci_run zero s n ?c1)"
    by (simp add: step split: prod.split)
  also have "\<dots> = map (\<lambda>i. Some (om_Values zero s ! ((j + i) mod length ks))) [0..<Suc n]"
    unfolding IH shift using Suc.prems(1) by (simp add: upt_conv_Cons map_Suc_upt [symmetric] del: upt_Suc)
  finally show ?case .
qed

lemma rotate_conv_map:
  "j < length xs \<Longrightarrow> rotate j xs = map (\<lambda>i. xs ! ((j + i) mod length xs)) [0..<length xs]"
  by (rule nth_equalityI) (auto simp: nth_rotate)

lemma ci_start_less: "om_keys s \<noteq> [] \<Longrightarrow> ci_start s c < length (om_keys s)"
  by (simp add: ci_start_def om_Count_def)

section \<open>Properties\<close>

text \<open>C8: every operation of the ordered map keeps the key slice sorted, free of duplicates
  and in sync with the value map, deleting never reaches the panic for slice and map being out
  of sync, and the operations are those of a finite map (insert overwrites, delete removes,
  get looks up, replace copies) whose key listing is its sorted domain.\<close>

theorem om_refines_finite_map:
  assumes "om_inv s" and "om_inv oth"
  shows "om_inv (om_Insert k v s) \<and> om_abs (om_Insert k v s) = (om_abs s)(k \<mapsto> v)
    \<and> (\<exists>s'. om_Delete k s = Inr s' \<and> om_inv s' \<and> om_abs s' = (om_abs s)(k := None))
    \<and> om_inv (om_Clear s) \<and> om_abs (om_Clear s) = Map.empty
    \<and> om_inv (om_Clone zero s) \<and> om_abs (om_Clone zero s) = om_abs s
    \<and> om_inv (om_Replace zero oth s) \<and> om_abs (om_Replace zero oth s) = om_abs oth
    \<and> om_Keys s = sorted_list_of_set (dom (om_abs s))
    \<and> om_Count s = card (dom (om_abs s))
    \<and> om_Values zero s = map (\<lambda>k. (k, the (om_Get k s))) (om_Keys s)"
proof (intro conjI)
  show "\<exists>s'. om_Delete k s = Inr s' \<and> om_inv s' \<and> om_abs s' = (om_abs s)(k := None)"
    using assms(1) by (rule om.delete_ok)
  show "om_Count s = card (dom (om_abs s))"
    using assms(1) by (metis om_Count_def om_inv_def om_made_eq_abs distinct_card)
  show "om_Values zero s = map (\<lambda>k. (k, the (om_Get k s))) (om_Keys s)"
    using om_Values_eq [OF assms(1), of zero] om.keys_sorted [OF assms(1)] by (simp add: om_abs_def)
qed (simp_all add: assms inv_intros om_abs_Insert om_Clone_abs om_abs_Replace om.keys_sorted)

lemma om_refines_finite_map_witness:
  "om_Keys (om_Insert (3::nat) ''c'' (om_Insert 1 ''a'' (om_Insert 2 ''b'' om_empty))) = [1, 2, 3]
   \<and> om_inv (om_Insert 1 ''a'' (om_Insert (2::nat) ''b'' om_empty))"
proof -
  have i: "om_inv (om_empty :: (nat, string) omap)" by (rule om_inv_empty)
  have i1: "om_inv (om_Insert (2::nat) ''b'' om_empty)"
    using om_refines_finite_map [OF i i, of 2 "''b''"] by blast
  have i2: "om_inv (om_Insert 1 ''a'' (om_Insert (2::nat) ''b'' om_empty))"
    using om_refines_finite_map [OF i1 i1, of 1 "''a''"] by blast
  show ?thesis
    using i2 by (simp add: om_Keys_def om_Insert_def om_made_def om_empty_def om_sort_def Let_def)
qed

text \<open>C32: with the map unchanged, as many calls of the cycle iterator as the map has entries
  return every entry exactly once, in key order from the iterator's position and wrapping
  around at the end: no entry is skipped or served twice before the others.\<close>

theorem ci_round_robin:
  assumes "om_keys s \<noteq> []"
  shows "fst (ci_run zero s (om_Count s) c) = map Some (rotate (ci_start s c) (om_Values zero s))"
proof -
  have len: "length (om_Values zero s) = length (om_keys s)"
    by (simp add: om_Values_def)
  have "fst (ci_run zero s (om_Count s) c)
      = map (\<lambda>i. Some (om_Values zero s ! ((ci_start s c + i) mod length (om_keys s)))) [0..<om_Count s]"
    using ci_start_less [OF assms] by (intro ci_run_aux) (auto simp: om_Count_def)
  also have "\<dots> = map Some (rotate (ci_start s c) (om_Values zero s))"
    using ci_start_less [OF assms, of c] len
    by (subst rotate_conv_map) (auto simp: om_Count_def)
  finally show ?thesis .
qed

lemma ci_round_robin_witness:
  "fst (ci_run [] (om_Insert 7 ''b'' (om_Insert (5::nat) ''a'' om_empty)) 2 \<lparr>ci_ix = 1\<rparr>)
     = [Some (7, ''b''), Some (5, ''a'')]"
proof -
  let ?s = "om_Insert 7 ''b'' (om_Insert (5::nat) ''a'' om_empty)"
  have ks: "om_keys ?s = [5, 7]"
    by (simp add: om_Insert_def om_made_def om_empty_def om_sort_def Let_def)
  have vs: "om_Values [] ?s = [(5, ''a''), (7, ''b'')]"
    by (simp add: om_Values_def ks) (simp add: om_index_def om_Get_def om_Insert_def om_made_def om_empty_def om_sort_def Let_def)
  show ?thesis
    using ci_round_robin [of ?s "[]" "\<lparr>ci_ix = 1\<rparr>"]
    by (simp add: ks vs om_Count_def ci_start_def numeral_2_eq_2)
qed

end
