(* ===== verification/TinyLB.thy ===== *)
theory TinyLB
  imports OrderedMap "HOL-Library.List_Lexorder" "HOL-Library.Char_ord"
begin

text \<open>
  The round-robin load balancer of \<^verbatim>\<open>go/net/tinylb\<close>: the connection pool
  (\<^verbatim>\<open>connection_pool.go\<close>), the accept loop and the backend set updater
  (\<^verbatim>\<open>tinylb.go\<close>, \<^verbatim>\<open>Server.Run\<close>). The pool's mutex makes each pool operation one step.
  A connection is an opaque value of type \<open>'c\<close>; the connections that a step closes are part
  of its result. The accept loop and the updater run concurrently, so a run of the server is
  a sequence of their steps (\<open>lb_step\<close>); the updater releases the set's lock between closing
  the connections of lost targets and installing the new set, and is therefore two steps.
\<close>

section \<open>The connection pool\<close>

record 'c conn_details =
  cd_conn :: 'c
  cd_target :: string

record 'c conn_pool =
  cp_detailsById :: "(nat, 'c conn_details) gmap"
  cp_idsByTarget :: "(string, nat list) gmap"
  cp_cid :: nat

datatype pool_panic = IdMissingInTarget | NilDetails

definition newConnectionPool :: "'c conn_pool" where
  "newConnectionPool = \<lparr>cp_detailsById = [], cp_idsByTarget = [], cp_cid = 0\<rparr>"

definition pool_Insert :: "string \<Rightarrow> 'c \<Rightarrow> 'c conn_pool \<Rightarrow> nat \<times> 'c conn_pool" where
  "pool_Insert target conn c =
     (let i = cp_cid c in
      (i, c\<lparr>cp_cid := Suc i,
            cp_detailsById := AList.update i \<lparr>cd_conn = conn, cd_target = target\<rparr> (cp_detailsById c),
            cp_idsByTarget := AList.update target (gm_get [] (cp_idsByTarget c) target @ [i]) (cp_idsByTarget c)\<rparr>))"

definition pool_CloseConn :: "nat \<Rightarrow> 'c conn_pool \<Rightarrow> (pool_panic, 'c list \<times> 'c conn_pool) result" where
  "pool_CloseConn i c =
     (case map_of (cp_detailsById c) i of
        None \<Rightarrow> Inr ([], c)
      | Some cd \<Rightarrow>
          (let ids = gm_get [] (cp_idsByTarget c) (cd_target cd) in
           case index_of i ids of
             None \<Rightarrow> Inl IdMissingInTarget
           | Some ix \<Rightarrow>
               Inr ([cd_conn cd],
                    c\<lparr>cp_idsByTarget := AList.update (cd_target cd) (remove_at ix ids) (cp_idsByTarget c),
                      cp_detailsById := AList.delete i (cp_detailsById c)\<rparr>)))"

fun pool_close_ids ::
  "nat list \<Rightarrow> (nat, 'c conn_details) gmap \<Rightarrow> (pool_panic, 'c list \<times> (nat, 'c conn_details) gmap) result" where
  "pool_close_ids [] d = Inr ([], d)"
| "pool_close_ids (i # ids) d =
     (case map_of d i of
        None \<Rightarrow> Inl NilDetails
      | Some cd \<Rightarrow>
          rbind (pool_close_ids ids (AList.delete i d)) (\<lambda>(cs, d'). Inr (cd_conn cd # cs, d')))"

definition pool_CloseTarget :: "string \<Rightarrow> 'c conn_pool \<Rightarrow> (pool_panic, 'c list \<times> 'c conn_pool) result" where
  "pool_CloseTarget target c =
     rbind (pool_close_ids (gm_get [] (cp_idsByTarget c) target) (cp_detailsById c))
       (\<lambda>(cs, d). Inr (cs, c\<lparr>cp_detailsById := d, cp_idsByTarget := AList.delete target (cp_idsByTarget c)\<rparr>))"

definition pool_Targets :: "'c conn_pool \<Rightarrow> string list" where
  "pool_Targets c = sort (map fst (cp_idsByTarget c))"

section \<open>The server\<close>

text \<open>A backend is its target name; the outcome of dialling it is an input of the accept step.\<close>

record backend =
  be_TargetName :: string

definition be_nil :: backend where
  "be_nil = \<lparr>be_TargetName = []\<rparr>"

type_synonym backend_set = "(string, backend) omap"

record 'c lb_server =
  lb_pool :: "'c conn_pool"
  lb_curSet :: backend_set
  lb_it :: cycle_iterator

definition lb_init :: "'c lb_server" where
  "lb_init = \<lparr>lb_pool = newConnectionPool, lb_curSet = om_empty, lb_it = om_Cycle\<rparr>"

text \<open>
  One turn of the accept loop with an accepted client connection: \<open>dial\<close> maps a target to
  the dialled connection, \<open>None\<close> when dialling fails. \<open>None\<close> as result: the client connection
  was closed; \<open>Some i\<close>: the connection is in the pool as \<open>i\<close> and data is piped.
\<close>

definition lb_accept :: "(string \<Rightarrow> 'c option) \<Rightarrow> 'c lb_server \<Rightarrow> nat option \<times> 'c lb_server" where
  "lb_accept dial s =
     (let (nxt, it) = ci_Next be_nil (lb_curSet s) (lb_it s); s1 = s\<lparr>lb_it := it\<rparr> in
      case nxt of
        None \<Rightarrow> (None, s1)
      | Some (_, be) \<Rightarrow>
          (case dial (be_TargetName be) of
             None \<Rightarrow> (None, s1)
           | Some conn \<Rightarrow>
               (let (i, pool) = pool_Insert (be_TargetName be) conn (lb_pool s1) in
                (Some i, s1\<lparr>lb_pool := pool\<rparr>))))"

text \<open>Either pipe of a connection ending closes it by its id.\<close>

definition lb_pipe_end :: "nat \<Rightarrow> 'c lb_server \<Rightarrow> (pool_panic, 'c list \<times> 'c lb_server) result" where
  "lb_pipe_end i s = rbind (pool_CloseConn i (lb_pool s)) (\<lambda>(cs, p). Inr (cs, s\<lparr>lb_pool := p\<rparr>))"

definition set_targets :: "backend_set \<Rightarrow> (string, string) gmap" where
  "set_targets st = fold (\<lambda>(k, be) m. AList.update (be_TargetName be) k m) (om_Values be_nil st) []"

fun lb_close_lost ::
  "(string, string) gmap \<Rightarrow> string list \<Rightarrow> 'c conn_pool \<Rightarrow> (pool_panic, 'c list \<times> 'c conn_pool) result" where
  "lb_close_lost targets [] p = Inr ([], p)"
| "lb_close_lost targets (t # ts) p =
     (if map_of targets t \<noteq> None then lb_close_lost targets ts p
      else rbind (pool_CloseTarget t p) (\<lambda>(cs, p1).
             rbind (lb_close_lost targets ts p1) (\<lambda>(cs', p2). Inr (cs @ cs', p2))))"

text \<open>The updater on a new set: close the connections of lost targets, then replace the set.\<close>

definition lb_update_close :: "backend_set \<Rightarrow> 'c lb_server \<Rightarrow> (pool_panic, 'c list \<times> 'c lb_server) result" where
  "lb_update_close st s =
     rbind (lb_close_lost (set_targets st) (pool_Targets (lb_pool s)) (lb_pool s))
       (\<lambda>(cs, p). Inr (cs, s\<lparr>lb_pool := p\<rparr>))"

definition lb_update_replace :: "backend_set \<Rightarrow> 'c lb_server \<Rightarrow> 'c lb_server" where
  "lb_update_replace st s = s\<lparr>lb_curSet := om_Replace be_nil st (lb_curSet s)\<rparr>"

definition lb_update :: "backend_set \<Rightarrow> 'c lb_server \<Rightarrow> (pool_panic, 'c list \<times> 'c lb_server) result" where
  "lb_update st s = rbind (lb_update_close st s) (\<lambda>(cs, s1). Inr (cs, lb_update_replace st s1))"

text \<open>
  The steps of the running server. A failed step (a panic in the pool) has no successor
  state, so the step relation is paired with a proof that the pool never panics.
\<close>

inductive lb_step :: "'c lb_server \<Rightarrow> 'c lb_server \<Rightarrow> bool" where
  step_accept: "lb_step s (snd (lb_accept dial s))"
| step_pipe_end: "lb_pipe_end i s = Inr (cs, s') \<Longrightarrow> lb_step s s'"
| step_update_close: "om_inv st \<Longrightarrow> lb_update_close st s = Inr (cs, s') \<Longrightarrow> lb_step s s'"
| step_update_replace: "om_inv st \<Longrightarrow> lb_step s (lb_update_replace st s)"

inductive lb_reachable :: "'c lb_server \<Rightarrow> bool" where
  reach_init: "lb_reachable lb_init"
| reach_step: "lb_reachable s \<Longrightarrow> lb_step s s' \<Longrightarrow> lb_reachable s'"

section \<open>The pool invariant\<close>

definition pool_inv :: "'c conn_pool \<Rightarrow> bool" where
  "pool_inv c \<longleftrightarrow>
     distinct (map fst (cp_idsByTarget c))
     \<and> (\<forall>t. distinct (gm_get [] (cp_idsByTarget c) t))
     \<and> (\<forall>i t. i \<in> set (gm_get [] (cp_idsByTarget c) t) \<longleftrightarrow>
                (\<exists>cd. map_of (cp_detailsById c) i = Some cd \<and> cd_target cd = t))
     \<and> (\<forall>i cd. map_of (cp_detailsById c) i = Some cd \<longrightarrow> i < cp_cid c)"

lemma pool_inv_new [inv_intros]: "pool_inv newConnectionPool"
  by (simp add: pool_inv_def newConnectionPool_def)

lemma pool_inv_Insert [inv_intros]: "pool_inv c \<Longrightarrow> pool_inv (snd (pool_Insert t conn c))"
  by (fastforce simp: pool_inv_def pool_Insert_def Let_def distinct_update)

lemma pool_CloseConn_ok:
  assumes "pool_inv c"
  shows "\<exists>cs c'. pool_CloseConn i c = Inr (cs, c') \<and> pool_inv c'
    \<and> map_of (cp_detailsById c') = (map_of (cp_detailsById c))(i := None)"
proof (cases "map_of (cp_detailsById c) i")
  case None
  then have "(map_of (cp_detailsById c))(i := None) = map_of (cp_detailsById c)" by auto
  with None assms show ?thesis by (auto simp: pool_CloseConn_def)
next
  case (Some cd)
  let ?ids = "gm_get [] (cp_idsByTarget c) (cd_target cd)"
  from Some assms have "i \<in> set ?ids" by (auto simp: pool_inv_def)
  then obtain ix where ix: "index_of i ?ids = Some ix" by fastforce
  let ?c' = "c\<lparr>cp_idsByTarget := AList.update (cd_target cd) (remove1 i ?ids) (cp_idsByTarget c),
    cp_detailsById := AList.delete i (cp_detailsById c)\<rparr>"
  have "pool_CloseConn i c = Inr ([cd_conn cd], ?c')"
    using Some ix by (simp add: pool_CloseConn_def Let_def remove_at_index_of)
  moreover have "pool_inv ?c'"
    using assms Some by (auto simp: pool_inv_def distinct_update)
  ultimately show ?thesis by simp
qed

lemma pool_close_ids_ok:
  assumes "distinct ids" "\<forall>i\<in>set ids. map_of d i \<noteq> None"
  shows "\<exists>d'. pool_close_ids ids d = Inr (map (\<lambda>i. cd_conn (the (map_of d i))) ids, d')
    \<and> map_of d' = (map_of d) |` (- set ids)"
  using assms
proof (induction ids arbitrary: d)
  case Nil
  then show ?case by simp
next
  case (Cons i ids)
  from Cons.prems obtain cd where cd: "map_of d i = Some cd" by auto
  have "\<forall>j\<in>set ids. map_of (AList.delete i d) j \<noteq> None" "distinct ids"
    using Cons.prems by auto
  with Cons.IH obtain d' where
    d': "pool_close_ids ids (AList.delete i d)
           = Inr (map (\<lambda>j. cd_conn (the (map_of (AList.delete i d) j))) ids, d')"
      "map_of d' = (map_of (AList.delete i d)) |` (- set ids)" by blast
  have eq: "map (\<lambda>j. cd_conn (the (map_of (AList.delete i d) j))) ids
      = map (\<lambda>j. cd_conn (the (map_of d j))) ids"
    using Cons.prems by (intro map_cong) auto
  have "map_of d' = (map_of d) |` (- set (i # ids))"
    using d'(2) by (auto simp: restrict_map_def fun_eq_iff)
  with cd d'(1) eq show ?case by simp
qed

text \<open>The tracked connections whose target satisfies \<open>P\<close>.\<close>

definition keep_targets :: "(string \<Rightarrow> bool) \<Rightarrow> (nat \<rightharpoonup> 'c conn_details) \<Rightarrow> (nat \<rightharpoonup> 'c conn_details)" where
  "keep_targets P m = (\<lambda>i. case m i of None \<Rightarrow> None | Some cd \<Rightarrow> if P (cd_target cd) then Some cd else None)"

definition conns_to :: "(string \<Rightarrow> bool) \<Rightarrow> (nat \<rightharpoonup> 'c conn_details) \<Rightarrow> 'c set" where
  "conns_to P m = {cd_conn cd |i cd. m i = Some cd \<and> P (cd_target cd)}"

lemma keep_targets_Some_iff [simp]:
  "keep_targets P m i = Some cd \<longleftrightarrow> m i = Some cd \<and> P (cd_target cd)"
  by (auto simp: keep_targets_def split: option.splits)

lemma keep_targets_keep_targets [simp]:
  "keep_targets P (keep_targets Q m) = keep_targets (\<lambda>t. P t \<and> Q t) m"
  by (auto simp: keep_targets_def fun_eq_iff split: option.splits)

lemma pool_CloseTarget_ok:
  assumes inv: "pool_inv c"
  shows "\<exists>cs c'. pool_CloseTarget t c = Inr (cs, c') \<and> pool_inv c'
    \<and> map_of (cp_detailsById c') = keep_targets (\<lambda>t'. t' \<noteq> t) (map_of (cp_detailsById c))
    \<and> set cs = conns_to (\<lambda>t'. t' = t) (map_of (cp_detailsById c))"
proof -
  let ?ids = "gm_get [] (cp_idsByTarget c) t" and ?d = "cp_detailsById c"
  have mem: "i \<in> set ?ids \<longleftrightarrow> (\<exists>cd. map_of ?d i = Some cd \<and> cd_target cd = t)" for i
    using inv by (simp add: pool_inv_def)
  have "distinct ?ids" "\<forall>i\<in>set ?ids. map_of ?d i \<noteq> None"
    using inv mem by (auto simp: pool_inv_def)
  from pool_close_ids_ok [OF this] obtain d' where
    d': "pool_close_ids ?ids ?d = Inr (map (\<lambda>i. cd_conn (the (map_of ?d i))) ?ids, d')"
      "map_of d' = (map_of ?d) |` (- set ?ids)" by blast
  have keep: "map_of d' = keep_targets (\<lambda>t'. t' \<noteq> t) (map_of ?d)"
    using mem by (auto simp: d'(2) keep_targets_def restrict_map_def fun_eq_iff split: option.splits)
  let ?c' = "c\<lparr>cp_detailsById := d', cp_idsByTarget := AList.delete t (cp_idsByTarget c)\<rparr>"
  have "pool_inv ?c'"
    using inv by (auto simp: pool_inv_def keep distinct_delete)
  moreover have "(\<lambda>i. cd_conn (the (map_of ?d i))) ` set ?ids = conns_to (\<lambda>t'. t' = t) (map_of ?d)"
    using mem by (force simp: conns_to_def)
  ultimately show ?thesis
    using d'(1) keep by (auto simp: pool_CloseTarget_def)
qed

lemma lb_close_lost_ok:
  assumes "pool_inv p"
  shows "\<exists>cs p'. lb_close_lost targets ts p = Inr (cs, p') \<and> pool_inv p'
    \<and> map_of (cp_detailsById p') = keep_targets (\<lambda>t. t \<notin> set ts \<or> map_of targets t \<noteq> None) (map_of (cp_detailsById p))
    \<and> set cs = conns_to (\<lambda>t. t \<in> set ts \<and> map_of targets t = None) (map_of (cp_detailsById p))"
  using assms
proof (induction ts arbitrary: p)
  case Nil
  then show ?case
    by (auto simp: keep_targets_def conns_to_def fun_eq_iff split: option.splits)
next
  case (Cons t ts)
  show ?case
  proof (cases "map_of targets t")
    case (Some k)
    then have "(\<lambda>t'. t' \<notin> set (t # ts) \<or> map_of targets t' \<noteq> None) = (\<lambda>t'. t' \<notin> set ts \<or> map_of targets t' \<noteq> None)"
      "(\<lambda>t'. t' \<in> set (t # ts) \<and> map_of targets t' = None) = (\<lambda>t'. t' \<in> set ts \<and> map_of targets t' = None)"
      by (auto simp: fun_eq_iff)
    with Cons.IH [OF Cons.prems] Some show ?thesis by simp
  next
    case None
    from pool_CloseTarget_ok [OF Cons.prems, of t] obtain cs p1 where
      p1: "pool_CloseTarget t p = Inr (cs, p1)" "pool_inv p1"
        "map_of (cp_detailsById p1) = keep_targets (\<lambda>t'. t' \<noteq> t) (map_of (cp_detailsById p))"
        "set cs = conns_to (\<lambda>t'. t' = t) (map_of (cp_detailsById p))" by blast
    from Cons.IH [OF p1(2)] obtain cs' p2 where
      p2: "lb_close_lost targets ts p1 = Inr (cs', p2)" "pool_inv p2"
        "map_of (cp_detailsById p2) = keep_targets (\<lambda>t. t \<notin> set ts \<or> map_of targets t \<noteq> None) (map_of (cp_detailsById p1))"
        "set cs' = conns_to (\<lambda>t. t \<in> set ts \<and> map_of targets t = None) (map_of (cp_detailsById p1))" by blast
    have "map_of (cp_detailsById p2)
        = keep_targets (\<lambda>t'. t' \<notin> set (t # ts) \<or> map_of targets t' \<noteq> None) (map_of (cp_detailsById p))"
      unfolding p2(3) p1(3) using None
      by (auto simp: keep_targets_def fun_eq_iff split: option.splits)
    moreover have "set (cs @ cs') = conns_to (\<lambda>t'. t' \<in> set (t # ts) \<and> map_of targets t' = None) (map_of (cp_detailsById p))"
      using None by (auto simp: p1(3,4) p2(4) conns_to_def)
    ultimately show ?thesis
      using p1 p2 None by simp
  qed
qed

definition live_targets :: "backend_set \<Rightarrow> string set" where
  "live_targets st = be_TargetName ` ran (om_abs st)"

lemma dom_set_targets_fold:
  "dom (map_of (fold (\<lambda>(k, be) m. AList.update (be_TargetName be) k m) kvs m0))
     = dom (map_of m0) \<union> (be_TargetName \<circ> snd) ` set kvs"
  by (induction kvs arbitrary: m0) auto

lemma dom_set_targets: "om_inv st \<Longrightarrow> dom (map_of (set_targets st)) = live_targets st"
  by (force simp: set_targets_def dom_set_targets_fold live_targets_def om_Values_set ran_def image_iff)

lemma pool_target_listed:
  "pool_inv p \<Longrightarrow> map_of (cp_detailsById p) i = Some cd \<Longrightarrow> cd_target cd \<in> set (pool_Targets p)"
  by (force simp: pool_inv_def pool_Targets_def gm_get_def map_of_eq_None_iff split: option.splits)

lemma lb_update_close_ok:
  assumes inv: "pool_inv (lb_pool s)" and st: "om_inv st"
  shows "\<exists>cs p. lb_update_close st s = Inr (cs, s\<lparr>lb_pool := p\<rparr>) \<and> pool_inv p
    \<and> map_of (cp_detailsById p) = keep_targets (\<lambda>t. t \<in> live_targets st) (map_of (cp_detailsById (lb_pool s)))
    \<and> set cs = conns_to (\<lambda>t. t \<notin> live_targets st) (map_of (cp_detailsById (lb_pool s)))"
proof -
  let ?d = "map_of (cp_detailsById (lb_pool s))" and ?ts = "set (pool_Targets (lb_pool s))"
  have live: "map_of (set_targets st) t \<noteq> None \<longleftrightarrow> t \<in> live_targets st" for t
    using dom_set_targets [OF st] by auto
  have "keep_targets (\<lambda>t. t \<notin> ?ts \<or> map_of (set_targets st) t \<noteq> None) ?d = keep_targets (\<lambda>t. t \<in> live_targets st) ?d"
    using pool_target_listed [OF inv] live
    by (auto simp: keep_targets_def fun_eq_iff split: option.splits)
  moreover have "conns_to (\<lambda>t. t \<in> ?ts \<and> map_of (set_targets st) t = None) ?d = conns_to (\<lambda>t. t \<notin> live_targets st) ?d"
    using pool_target_listed [OF inv] live unfolding conns_to_def by blast
  ultimately show ?thesis
    using lb_close_lost_ok [OF inv, of "set_targets st" "pool_Targets (lb_pool s)"]
    by (auto simp: lb_update_close_def)
qed

definition lb_inv :: "'c lb_server \<Rightarrow> bool" where
  "lb_inv s \<longleftrightarrow> pool_inv (lb_pool s) \<and> om_inv (lb_curSet s)"

lemma pool_Insert_invD: "pool_Insert t conn c = (i, c') \<Longrightarrow> pool_inv c \<Longrightarrow> pool_inv c'"
  using pool_inv_Insert [of c t conn] by simp

lemma lb_inv_accept: "lb_inv s \<Longrightarrow> lb_inv (snd (lb_accept dial s))"
  by (auto simp: lb_inv_def lb_accept_def Let_def dest: pool_Insert_invD split: prod.splits option.splits)

lemma lb_step_inv:
  assumes "lb_step s s'" and inv: "lb_inv s"
  shows "lb_inv s'"
  using assms
proof cases
  case (step_accept dial)
  then show ?thesis using inv by (simp add: lb_inv_accept)
next
  case (step_pipe_end i cs)
  then show ?thesis
    using inv pool_CloseConn_ok [of "lb_pool s" i] by (auto simp: lb_inv_def lb_pipe_end_def)
next
  case (step_update_close st cs)
  then show ?thesis
    using inv lb_update_close_ok [of s st] by (auto simp: lb_inv_def)
next
  case (step_update_replace st)
  then show ?thesis
    using inv by (simp add: lb_inv_def lb_update_replace_def om_inv_Replace)
qed

lemma lb_reachable_inv: "lb_reachable s \<Longrightarrow> lb_inv s"
  by (induction rule: lb_reachable.induct)
    (auto simp: lb_inv_def lb_init_def inv_intros dest: lb_step_inv [unfolded lb_inv_def])

section \<open>Properties\<close>

text \<open>C7: in every reachable state of the load balancer the pool's two indexes agree (a
  connection is listed under a target exactly when its details name that target, ids are
  unique and below the counter), and none of the pool's panics can happen, neither when a pipe
  ends nor when the backend set changes.\<close>

theorem lb_reachable_no_panic:
  assumes "lb_reachable s"
  shows "pool_inv (lb_pool s) \<and> om_inv (lb_curSet s)
    \<and> is_ok (lb_pipe_end i s) \<and> (om_inv st \<longrightarrow> is_ok (lb_update st s))"
proof -
  have inv: "pool_inv (lb_pool s)" "om_inv (lb_curSet s)"
    using lb_reachable_inv [OF assms] by (simp_all add: lb_inv_def)
  moreover have "is_ok (lb_pipe_end i s)"
    using pool_CloseConn_ok [OF inv(1), of i] by (auto simp: lb_pipe_end_def)
  moreover have "om_inv st \<Longrightarrow> is_ok (lb_update st s)"
    using lb_update_close_ok [OF inv(1)] by (fastforce simp: lb_update_def)
  ultimately show ?thesis by blast
qed

lemma lb_reachable_no_panic_witness:
  "is_ok (lb_pipe_end 7 (lb_init :: nat lb_server)) \<and> is_ok (lb_update om_empty (lb_init :: nat lb_server))"
  using lb_reachable_no_panic [OF reach_init, where i = 7 and st = om_empty] om_inv_empty by blast

text \<open>C24: when a new backend set is handled without an accept in between, the connections
  that are closed are exactly those to a target name that no backend of the new set has, all
  other connections stay tracked unchanged, and the new set is the one installed.\<close>

theorem lb_update_closes_lost_targets:
  assumes "pool_inv (lb_pool s)" and "om_inv st"
  shows "\<exists>cs s'. lb_update st s = Inr (cs, s') \<and> om_abs (lb_curSet s') = om_abs st
    \<and> map_of (cp_detailsById (lb_pool s'))
        = keep_targets (\<lambda>t. t \<in> live_targets st) (map_of (cp_detailsById (lb_pool s)))
    \<and> set cs = conns_to (\<lambda>t. t \<notin> live_targets st) (map_of (cp_detailsById (lb_pool s)))"
proof -
  from lb_update_close_ok [OF assms] obtain cs p where
    "lb_update_close st s = Inr (cs, s\<lparr>lb_pool := p\<rparr>)"
    "map_of (cp_detailsById p) = keep_targets (\<lambda>t. t \<in> live_targets st) (map_of (cp_detailsById (lb_pool s)))"
    "set cs = conns_to (\<lambda>t. t \<notin> live_targets st) (map_of (cp_detailsById (lb_pool s)))" by blast
  then show ?thesis
    using om_abs_Replace [OF assms(2)] by (simp add: lb_update_def lb_update_replace_def)
qed

definition lb_demo_set :: backend_set where
  "lb_demo_set = om_Insert ''a'' \<lparr>be_TargetName = ''x''\<rparr> om_empty"

definition lb_demo :: "nat lb_server" where
  "lb_demo = snd (lb_accept (\<lambda>t. Some 42) (lb_update_replace lb_demo_set lb_init))"

lemmas lb_demo_simps = lb_demo_def lb_demo_set_def lb_accept_def lb_update_replace_def lb_init_def om_Replace_def
  om_Clone_def om_Insert_def om_made_def om_empty_def om_sort_def om_Cycle_def ci_Next_def pool_Insert_def
  om_index_def om_Get_def newConnectionPool_def Let_def

lemma lb_demo_details: "map_of (cp_detailsById (lb_pool lb_demo)) = [0 \<mapsto> \<lparr>cd_conn = 42, cd_target = ''x''\<rparr>]"
  by (simp add: lb_demo_simps)

lemma om_inv_demo_set: "om_inv lb_demo_set"
  unfolding lb_demo_set_def by (intro inv_intros)

lemma lb_demo_reachable: "lb_reachable lb_demo"
  unfolding lb_demo_def
  by (intro reach_step [OF reach_step [OF reach_init step_update_replace [OF om_inv_demo_set]] step_accept])

lemma lb_update_closes_lost_targets_witness:
  "\<exists>s'. lb_update om_empty lb_demo = Inr ([42], s') \<and> map_of (cp_detailsById (lb_pool s')) = Map.empty"
proof -
  have "pool_inv (lb_pool lb_demo)"
    using lb_reachable_inv [OF lb_demo_reachable] by (simp add: lb_inv_def)
  from lb_update_closes_lost_targets [OF this om_inv_empty] obtain cs s' where
    u: "lb_update om_empty lb_demo = Inr (cs, s')"
      "map_of (cp_detailsById (lb_pool s')) = keep_targets (\<lambda>t. t \<in> live_targets om_empty) (map_of (cp_detailsById (lb_pool lb_demo)))"
      "set cs = conns_to (\<lambda>t. t \<notin> live_targets om_empty) (map_of (cp_detailsById (lb_pool lb_demo)))" by blast
  have "map_of (cp_detailsById (lb_pool s')) = Map.empty"
    by (auto simp: u(2) keep_targets_def live_targets_def fun_eq_iff split: option.splits)
  moreover have "fst (projr (lb_update om_empty lb_demo)) = [42]"
    by code_simp
  ultimately show ?thesis using u(1) by simp
qed

text \<open>the accept loop may run between the updater's two locked regions. Then a connection
  to a removed target is opened after the lost connections were closed, and it is still tracked
  when the new set is installed: a target that is not in the set keeps an open connection.\<close>

theorem lb_update_race_keeps_lost_connection:
  "\<exists>(s0::nat lb_server) st dial cs s1.
     lb_reachable s0 \<and> om_inv st \<and> lb_update_close st s0 = Inr (cs, s1)
     \<and> (let s3 = lb_update_replace st (snd (lb_accept dial s1)) in
          lb_reachable s3 \<and> om_abs (lb_curSet s3) = om_abs st
          \<and> (\<exists>i cd. map_of (cp_detailsById (lb_pool s3)) i = Some cd \<and> cd_target cd \<notin> live_targets st))"
proof -
  let ?s0 = "lb_update_replace lb_demo_set lb_init :: nat lb_server"
  let ?dial = "\<lambda>t. Some 42 :: nat option"
  have close: "lb_update_close om_empty ?s0 = Inr ([], ?s0)"
    by (simp add: lb_update_close_def lb_update_replace_def lb_init_def newConnectionPool_def pool_Targets_def)
  have r0: "lb_reachable ?s0"
    by (rule reach_step [OF reach_init step_update_replace [OF om_inv_demo_set]])
  have r3: "lb_reachable (lb_update_replace om_empty (snd (lb_accept ?dial ?s0)))"
    by (intro reach_step [OF reach_step [OF r0 step_accept] step_update_replace [OF om_inv_empty]])
  have "map_of (cp_detailsById (lb_pool (lb_update_replace om_empty (snd (lb_accept ?dial ?s0))))) 0
      = Some \<lparr>cd_conn = 42, cd_target = ''x''\<rparr>"
    using lb_demo_details by (simp add: lb_demo_def lb_update_replace_def)
  moreover have "''x'' \<notin> live_targets om_empty"
    by (simp add: live_targets_def)
  moreover have "om_abs (lb_curSet (lb_update_replace om_empty (snd (lb_accept ?dial ?s0)))) = om_abs om_empty"
    by (simp add: lb_update_replace_def om_abs_Replace om_inv_empty)
  ultimately show ?thesis
    using r0 r3 close om_inv_empty unfolding Let_def by (metis conn_details.select_convs(2))
qed

end
