(* ===== verification/Toposort.thy ===== *)
theory Toposort
  imports Prelude
begin

text \<open>
  Directed graphs and topological sorting, \<^verbatim>\<open>go/algorithm/toposort/toposort.go\<close>.

  The adjacency map is an association list from a node to the keys of its edge set (the Go
  sets only ever hold the value \<open>true\<close>). A nil map and an empty one behave alike here, so
  \<^verbatim>\<open>ensureNodes\<close> has no counterpart. Go leaves the order of \<^verbatim>\<open>range\<close> over a map open: the
  order is an argument \<open>rng\<close> of the model, which may depend on the node whose edges are
  iterated (\<open>None\<close>: the iteration over all nodes); \<open>range_ok\<close> says that it enumerates exactly
  the keys. The recursion is bounded by fuel, one unit per nesting level; \<open>dfs_spec\<close> shows
  that the number of nodes is enough.
\<close>

section \<open>Graphs\<close>

record 'a graph =
  g_nodes :: "('a, 'a list) gmap"
  g_addedNodes :: "'a list"

datatype topo_error = ErrCycle | OutOfFuel

definition add_key :: "'a \<Rightarrow> 'a list \<Rightarrow> 'a list" where
  "add_key k ks = (if k \<in> set ks then ks else ks @ [k])"

definition empty_graph :: "'a graph" where
  "empty_graph = \<lparr>g_nodes = [], g_addedNodes = []\<rparr>"

definition addNodeImplicit :: "'a \<Rightarrow> 'a graph \<Rightarrow> 'a graph" where
  "addNodeImplicit n g =
     (if map_of (g_nodes g) n = None then g\<lparr>g_nodes := AList.update n [] (g_nodes g)\<rparr> else g)"

definition AddNode :: "'a \<Rightarrow> 'a graph \<Rightarrow> 'a graph" where
  "AddNode n g = addNodeImplicit n (g\<lparr>g_addedNodes := add_key n (g_addedNodes g)\<rparr>)"

definition AddEdge :: "'a \<Rightarrow> 'a \<Rightarrow> 'a graph \<Rightarrow> 'a graph" where
  "AddEdge from to g =
     (let g1 = addNodeImplicit to (addNodeImplicit from g) in
      g1\<lparr>g_nodes := AList.update from (add_key to (gm_get [] (g_nodes g1) from)) (g_nodes g1)\<rparr>)"

text \<open>\<^verbatim>\<open>if out[n] == nil { out[n] = make(...) }\<close> and \<^verbatim>\<open>out[n][e] = true\<close>.\<close>

definition ensure_ref :: "'a \<Rightarrow> ('a, 'a list) gmap \<Rightarrow> ('a, 'a list) gmap" where
  "ensure_ref n out = (if map_of out n = None then AList.update n [] out else out)"

definition add_ref :: "'a \<Rightarrow> 'a \<Rightarrow> ('a, 'a list) gmap \<Rightarrow> ('a, 'a list) gmap" where
  "add_ref n e out = AList.update n (add_key e (gm_get [] out n)) out"

definition implicit_step ::
  "'a list \<Rightarrow> 'a \<times> 'a list \<Rightarrow> ('a, 'a list) gmap \<Rightarrow> ('a, 'a list) gmap" where
  "implicit_step added = (\<lambda>(n, outEdges) out.
     let out1 = (if n \<notin> set added then fold (add_ref n) outEdges (ensure_ref n out) else out)
     in fold (\<lambda>e o'. if e \<notin> set added then add_ref e n (ensure_ref e o') else o') outEdges out1)"

definition ImplicitNodeReferences :: "'a graph \<Rightarrow> ('a, 'a list) gmap" where
  "ImplicitNodeReferences g = fold (implicit_step (g_addedNodes g)) (g_nodes g) []"

section \<open>Topological order\<close>

record 'a topo =
  t_unmarked :: "'a list"
  t_stack :: "'a list"
  t_solution :: "'a list"

definition topo_push :: "'a \<Rightarrow> 'a topo \<Rightarrow> 'a topo" where
  "topo_push n st = st\<lparr>t_stack := n # t_stack st\<rparr>"

definition topo_finish :: "'a \<Rightarrow> 'a topo \<Rightarrow> 'a topo" where
  "topo_finish n st =
     st\<lparr>t_stack := removeAll n (t_stack st), t_unmarked := removeAll n (t_unmarked st),
        t_solution := t_solution st @ [n]\<rparr>"

definition topo_start :: "'a graph \<Rightarrow> 'a topo" where
  "topo_start g = \<lparr>t_unmarked = map fst (g_nodes g), t_stack = [], t_solution = []\<rparr>"

fun visit ::
  "('a option \<Rightarrow> 'a list \<Rightarrow> 'a list) \<Rightarrow> ('a, 'a list) gmap \<Rightarrow> nat \<Rightarrow> 'a list \<Rightarrow> 'a topo \<Rightarrow> (topo_error, 'a topo) result" where
  "visit rng nodes fuel [] st = Inr st"
| "visit rng nodes fuel (n # ns) st =
     (if n \<notin> set (t_unmarked st) then visit rng nodes fuel ns st
      else if n \<in> set (t_stack st) then Inl ErrCycle
      else case fuel of
             0 \<Rightarrow> Inl OutOfFuel
           | Suc f \<Rightarrow>
               rbind (visit rng nodes f (rng (Some n) (gm_get [] nodes n)) (topo_push n st))
                 (\<lambda>st1. visit rng nodes fuel ns (topo_finish n st1)))"

definition TopologicalOrder ::
  "('a option \<Rightarrow> 'a list \<Rightarrow> 'a list) \<Rightarrow> 'a graph \<Rightarrow> (topo_error, 'a list) result" where
  "TopologicalOrder rng g =
     rbind (visit rng (g_nodes g) (length (g_nodes g)) (rng None (map fst (g_nodes g))) (topo_start g))
       (\<lambda>st. Inr (t_solution st))"

text \<open>
  \<^verbatim>\<open>slices.SortFunc\<close>: on distinct elements and a total order the sorted permutation is unique,
  so an insertion sort stands for it.
\<close>

fun insert_cmp :: "('a \<Rightarrow> 'a \<Rightarrow> int) \<Rightarrow> 'a \<Rightarrow> 'a list \<Rightarrow> 'a list" where
  "insert_cmp cmp x [] = [x]"
| "insert_cmp cmp x (y # ys) = (if cmp x y \<le> 0 then x # y # ys else y # insert_cmp cmp x ys)"

definition SortFunc :: "('a \<Rightarrow> 'a \<Rightarrow> int) \<Rightarrow> 'a list \<Rightarrow> 'a list" where
  "SortFunc cmp xs = foldr (insert_cmp cmp) xs []"

text \<open>The argument list of \<open>det_loop\<close> is the part of \<^verbatim>\<open>sortedOrder\<close> still to be processed.\<close>

definition sortedOrder :: "('a \<Rightarrow> 'a \<Rightarrow> int) \<Rightarrow> 'a topo \<Rightarrow> 'a list \<Rightarrow> 'a list" where
  "sortedOrder cmp st ns = SortFunc cmp (filter (\<lambda>n. n \<in> set (t_unmarked st)) ns)"

fun det_loop ::
  "('a \<Rightarrow> 'a \<Rightarrow> int) \<Rightarrow> ('a, 'a list) gmap \<Rightarrow> nat \<Rightarrow> 'a list \<Rightarrow> 'a topo \<Rightarrow> (topo_error, 'a topo) result" where
  "det_loop cmp nodes fuel [] st = Inr st"
| "det_loop cmp nodes fuel (n # ns) st =
     (if n \<in> set (t_stack st) then Inl ErrCycle
      else case fuel of
             0 \<Rightarrow> Inl OutOfFuel
           | Suc f \<Rightarrow>
               rbind (det_loop cmp nodes f (sortedOrder cmp (topo_push n st) (gm_get [] nodes n)) (topo_push n st))
                 (\<lambda>st1. det_loop cmp nodes fuel ns (topo_finish n st1)))"

definition DetTopologicalOrder ::
  "('a \<Rightarrow> 'a \<Rightarrow> int) \<Rightarrow> 'a graph \<Rightarrow> (topo_error, 'a list) result" where
  "DetTopologicalOrder cmp g =
     rbind (det_loop cmp (g_nodes g) (length (g_nodes g))
              (sortedOrder cmp (topo_start g) (map fst (g_nodes g))) (topo_start g))
       (\<lambda>st. Inr (t_solution st))"

section \<open>Edges and well-formed graphs\<close>

definition nodes_of :: "('a, 'a list) gmap \<Rightarrow> 'a set" where
  "nodes_of nodes = fst ` set nodes"

definition edges :: "('a, 'a list) gmap \<Rightarrow> ('a \<times> 'a) set" where
  "edges nodes = {(a, b). b \<in> set (gm_get [] nodes a)}"

text \<open>Keys are unique and every edge ends in a node, as the operations establish.\<close>

definition graph_wf :: "'a graph \<Rightarrow> bool" where
  "graph_wf g \<longleftrightarrow> distinct (map fst (g_nodes g)) \<and> (\<forall>(a, b) \<in> edges (g_nodes g). b \<in> nodes_of (g_nodes g))
     \<and> set (g_addedNodes g) \<subseteq> nodes_of (g_nodes g)"

definition range_ok :: "('a option \<Rightarrow> 'a list \<Rightarrow> 'a list) \<Rightarrow> bool" where
  "range_ok rng \<longleftrightarrow> (\<forall>x ns. set (rng x ns) = set ns)"

lemma nodes_of_dom: "nodes_of nodes = dom (map_of nodes)"
  by (simp add: nodes_of_def dom_map_of_conv_image_fst)

lemma set_add_key [simp]: "set (add_key k ks) = insert k (set ks)"
  by (auto simp: add_key_def)

lemma gm_get_None [simp]: "map_of m k = None \<Longrightarrow> gm_get d m k = d"
  by (simp add: gm_get_def)

lemma edges_src: "(a, b) \<in> edges nodes \<Longrightarrow> a \<in> nodes_of nodes"
  by (cases "map_of nodes a") (auto simp: edges_def nodes_of_dom gm_get_def)

lemma wf_empty_graph [inv_intros]: "graph_wf empty_graph"
  by (simp add: graph_wf_def empty_graph_def edges_def)

lemma wf_addNodeImplicit [inv_intros]: "graph_wf g \<Longrightarrow> graph_wf (addNodeImplicit n g)"
  by (auto simp: graph_wf_def addNodeImplicit_def distinct_update edges_def nodes_of_dom split: if_splits)

lemma wf_AddNode [inv_intros]:
  assumes "graph_wf g" shows "graph_wf (AddNode n g)"
proof -
  have "graph_wf (addNodeImplicit n g)" using assms by (rule wf_addNodeImplicit)
  moreover have "n \<in> nodes_of (g_nodes (addNodeImplicit n g))"
    by (auto simp: addNodeImplicit_def nodes_of_dom)
  moreover have "g_nodes (AddNode n g) = g_nodes (addNodeImplicit n g)"
    "g_addedNodes (AddNode n g) = add_key n (g_addedNodes (addNodeImplicit n g))"
    by (simp_all add: AddNode_def addNodeImplicit_def)
  ultimately show ?thesis by (simp add: graph_wf_def)
qed

lemma wf_AddEdge [inv_intros]:
  assumes "graph_wf g" shows "graph_wf (AddEdge a b g)"
proof -
  let ?g = "addNodeImplicit b (addNodeImplicit a g)"
  have wf: "graph_wf ?g" using assms by (intro inv_intros)
  have "a \<in> nodes_of (g_nodes ?g)" "b \<in> nodes_of (g_nodes ?g)"
    by (auto simp: addNodeImplicit_def nodes_of_dom)
  with wf show ?thesis
    by (auto simp: AddEdge_def Let_def graph_wf_def distinct_update edges_def nodes_of_dom split: if_splits)
qed

lemma addNodeImplicit_edges [simp]: "edges (g_nodes (addNodeImplicit n g)) = edges (g_nodes g)"
  by (auto simp: addNodeImplicit_def edges_def split: if_splits)

lemma AddEdge_edges: "edges (g_nodes (AddEdge a b g)) = insert (a, b) (edges (g_nodes g))"
proof -
  have "edges (g_nodes (AddEdge a b g)) = insert (a, b) (edges (g_nodes (addNodeImplicit b (addNodeImplicit a g))))"
    by (auto simp: AddEdge_def Let_def edges_def split: if_splits)
  then show ?thesis by simp
qed

section \<open>The depth-first search behind both orders\<close>

text \<open>
  Both closures \<^verbatim>\<open>visit\<close> are instances of one search: \<open>sel\<close> lists the neighbours to descend
  into, \<open>recheck\<close> says whether a node is skipped when it was finished in the meantime.
\<close>

fun dfs ::
  "bool \<Rightarrow> ('a topo \<Rightarrow> 'a \<Rightarrow> 'a list) \<Rightarrow> nat \<Rightarrow> 'a list \<Rightarrow> 'a topo \<Rightarrow> (topo_error, 'a topo) result" where
  "dfs recheck sel fuel [] st = Inr st"
| "dfs recheck sel fuel (n # ns) st =
     (if recheck \<and> n \<notin> set (t_unmarked st) then dfs recheck sel fuel ns st
      else if n \<in> set (t_stack st) then Inl ErrCycle
      else case fuel of
             0 \<Rightarrow> Inl OutOfFuel
           | Suc f \<Rightarrow>
               rbind (dfs recheck sel f (sel (topo_push n st) n) (topo_push n st))
                 (\<lambda>st1. dfs recheck sel fuel ns (topo_finish n st1)))"

lemma visit_dfs: "visit rng nodes fuel ns st = dfs True (\<lambda>_ n. rng (Some n) (gm_get [] nodes n)) fuel ns st"
  by (induction rng nodes fuel ns st rule: visit.induct)
    (auto split: nat.splits sum.splits simp: rbind_def)

lemma det_loop_dfs: "det_loop cmp nodes fuel ns st = dfs False (\<lambda>st n. sortedOrder cmp st (gm_get [] nodes n)) fuel ns st"
  by (induction cmp nodes fuel ns st rule: det_loop.induct)
    (auto split: nat.splits sum.splits simp: rbind_def)

definition topo_ok :: "('a \<times> 'a) set \<Rightarrow> 'a list \<Rightarrow> bool" where
  "topo_ok E sol \<longleftrightarrow> (\<forall>i<length sol. E `` {sol ! i} \<subseteq> set (take i sol))"

lemma topo_ok_iff: "topo_ok E sol \<longleftrightarrow> (\<forall>i<length sol. \<forall>b. (sol ! i, b) \<in> E \<longrightarrow> b \<in> set (take i sol))"
  by (auto simp: topo_ok_def)

lemma topo_ok_Nil [simp]: "topo_ok E []"
  by (simp add: topo_ok_def)

lemma topo_ok_snoc [simp]: "topo_ok E (sol @ [n]) \<longleftrightarrow> topo_ok E sol \<and> E `` {n} \<subseteq> set sol"
  by (auto simp: topo_ok_def nth_append less_Suc_eq)

lemma topo_ok_closed: "topo_ok E sol \<Longrightarrow> n \<in> set sol \<Longrightarrow> E `` {n} \<subseteq> set sol"
  unfolding topo_ok_def by (metis in_set_conv_nth set_take_subset subset_trans)

definition dfs_inv :: "'a set \<Rightarrow> ('a \<times> 'a) set \<Rightarrow> bool \<Rightarrow> 'a topo \<Rightarrow> bool" where
  "dfs_inv N E recheck st \<longleftrightarrow>
     set (t_unmarked st) \<subseteq> N \<and> set (t_solution st) = N - set (t_unmarked st)
     \<and> set (t_stack st) \<subseteq> set (t_unmarked st) \<and> distinct (t_stack st)
     \<and> topo_ok E (t_solution st) \<and> (recheck \<longrightarrow> distinct (t_solution st))"

text \<open>The stack is a path to its top, and the nodes to visit hang off its top.\<close>

definition on_path :: "('a \<times> 'a) set \<Rightarrow> 'a list \<Rightarrow> 'a list \<Rightarrow> bool" where
  "on_path E stack ns \<longleftrightarrow>
     (stack \<noteq> [] \<longrightarrow> (\<forall>x\<in>set stack. (x, hd stack) \<in> E\<^sup>*) \<and> (\<forall>x\<in>set ns. (hd stack, x) \<in> E))"

definition sel_ok :: "('a \<times> 'a) set \<Rightarrow> bool \<Rightarrow> ('a topo \<Rightarrow> 'a \<Rightarrow> 'a list) \<Rightarrow> bool" where
  "sel_ok E recheck sel \<longleftrightarrow>
     (\<forall>st n. set (sel st n) \<subseteq> E `` {n} \<and> E `` {n} \<inter> set (t_unmarked st) \<subseteq> set (sel st n)
       \<and> (\<not> recheck \<longrightarrow> set (sel st n) \<subseteq> set (t_unmarked st)))"

definition dfs_post ::
  "'a set \<Rightarrow> ('a \<times> 'a) set \<Rightarrow> bool \<Rightarrow> 'a list \<Rightarrow> 'a topo \<Rightarrow> (topo_error, 'a topo) result \<Rightarrow> bool" where
  "dfs_post N E recheck ns st r =
     (case r of
        Inl e \<Rightarrow> e = ErrCycle \<and> \<not> acyclic E
      | Inr st' \<Rightarrow> dfs_inv N E recheck st' \<and> t_stack st' = t_stack st
          \<and> set (t_unmarked st') \<subseteq> set (t_unmarked st) \<and> set ns \<inter> set (t_unmarked st') = {})"

lemma on_path_push:
  assumes "on_path E stack (n # ns)" "set ms \<subseteq> E `` {n}"
  shows "on_path E (n # stack) ms"
proof -
  have "(x, n) \<in> E\<^sup>*" if "x \<in> set stack" for x
    using assms(1) that by (auto simp: on_path_def intro: rtrancl_into_rtrancl)
  with assms(2) show ?thesis by (auto simp: on_path_def)
qed

lemma on_path_cycle: "on_path E stack (n # ns) \<Longrightarrow> n \<in> set stack \<Longrightarrow> \<not> acyclic E"
  unfolding on_path_def acyclic_def by (metis empty_iff empty_set list.set_intros(1) rtrancl_into_trancl1)

lemma stack_room:
  assumes "dfs_inv N E recheck st" "finite N" "n \<in> N" "n \<notin> set (t_stack st)"
  shows "length (t_stack st) < card N"
proof -
  have "set (t_stack st) \<subset> N" using assms by (auto simp: dfs_inv_def)
  then have "card (set (t_stack st)) < card N" using assms(2) by (rule psubset_card_mono [rotated])
  then show ?thesis using assms(1) by (simp add: dfs_inv_def distinct_card)
qed

text \<open>A node that is already finished: nothing is left below it, it is only appended again.\<close>

lemma dfs_revisit:
  assumes inv: "dfs_inv N E False st" and sel: "sel_ok E False sel"
    and n: "n \<in> N" "n \<notin> set (t_unmarked st)"
  shows "sel (topo_push n st) n = [] \<and> dfs_inv N E False (topo_finish n (topo_push n st))
    \<and> t_stack (topo_finish n (topo_push n st)) = t_stack st
    \<and> set (t_unmarked (topo_finish n (topo_push n st))) = set (t_unmarked st)"
proof -
  have nsol: "n \<in> set (t_solution st)" using inv n by (auto simp: dfs_inv_def)
  have closed: "E `` {n} \<subseteq> set (t_solution st)"
    using topo_ok_closed [OF _ nsol] inv unfolding dfs_inv_def by blast
  have "set (sel (topo_push n st) n) \<subseteq> E `` {n} \<inter> set (t_unmarked st)"
    using sel [unfolded sel_ok_def, rule_format, of "topo_push n st" n] by (simp add: topo_push_def)
  also have "\<dots> = {}" using closed inv by (auto simp: dfs_inv_def)
  finally have "sel (topo_push n st) n = []" by simp
  moreover have "n \<notin> set (t_stack st)" using inv n by (auto simp: dfs_inv_def)
  ultimately show ?thesis
    using inv closed nsol n by (auto simp: dfs_inv_def topo_finish_def topo_push_def)
qed

lemma dfs_finish:
  assumes inv: "dfs_inv N E recheck st1" and stack: "t_stack st1 = n # stack"
    and closed: "E `` {n} \<inter> set (t_unmarked st1) = {}" "E `` {n} \<subseteq> N" and n: "n \<in> N"
  shows "dfs_inv N E recheck (topo_finish n st1) \<and> t_stack (topo_finish n st1) = stack"
proof -
  have "n \<notin> set stack" "n \<in> set (t_unmarked st1)" using inv stack by (auto simp: dfs_inv_def)
  moreover have "E `` {n} \<subseteq> set (t_solution st1)" using inv closed by (auto simp: dfs_inv_def)
  ultimately show ?thesis
    using inv stack n by (auto simp: dfs_inv_def topo_finish_def)
qed

lemma dfs_inv_push:
  "dfs_inv N E recheck st \<Longrightarrow> n \<in> set (t_unmarked st) \<Longrightarrow> n \<notin> set (t_stack st) \<Longrightarrow> dfs_inv N E recheck (topo_push n st)"
  by (auto simp: dfs_inv_def topo_push_def)

lemma dfs_post_mono:
  "dfs_post N E recheck ns st r \<Longrightarrow> t_stack st = t_stack st0 \<Longrightarrow> set (t_unmarked st) \<subseteq> set (t_unmarked st0)
   \<Longrightarrow> n \<notin> set (t_unmarked st) \<Longrightarrow> dfs_post N E recheck (n # ns) st0 r"
  by (auto simp: dfs_post_def split: sum.splits)

lemma dfs_descend:
  assumes inv: "dfs_inv N E recheck st" and sel: "sel_ok E recheck sel" and E: "E \<subseteq> N \<times> N"
    and n: "n \<in> N" "n \<notin> set (t_stack st)"
    and inner: "dfs_post N E recheck (sel (topo_push n st) n) (topo_push n st) (Inr st1)"
  shows "dfs_inv N E recheck (topo_finish n st1) \<and> t_stack (topo_finish n st1) = t_stack st
    \<and> set (t_unmarked (topo_finish n st1)) \<subseteq> set (t_unmarked st) \<and> n \<notin> set (t_unmarked (topo_finish n st1))"
proof -
  have st1: "dfs_inv N E recheck st1" "t_stack st1 = n # t_stack st"
    "set (t_unmarked st1) \<subseteq> set (t_unmarked st)" "set (sel (topo_push n st) n) \<inter> set (t_unmarked st1) = {}"
    using inner by (auto simp: dfs_post_def topo_push_def)
  have "E `` {n} \<inter> set (t_unmarked st) \<subseteq> set (sel (topo_push n st) n)"
    using sel [unfolded sel_ok_def, rule_format, of "topo_push n st" n] by (simp add: topo_push_def)
  then have "E `` {n} \<inter> set (t_unmarked st1) = {}" "E `` {n} \<subseteq> N"
    using st1(3,4) E by auto
  from dfs_finish [OF st1(1,2) this n(1)] st1(3) show ?thesis by (auto simp: topo_finish_def)
qed

lemma dfs_spec:
  assumes "finite N" "sel_ok E recheck sel" "E \<subseteq> N \<times> N"
    and "dfs_inv N E recheck st" "set ns \<subseteq> N" "on_path E (t_stack st) ns" "card N \<le> fuel + length (t_stack st)"
  shows "dfs_post N E recheck ns st (dfs recheck sel fuel ns st)"
  using assms
proof (induction recheck sel fuel ns st rule: dfs.induct)
  case (1 recheck sel fuel st)
  then show ?case by (simp add: dfs_post_def)
next
  case (2 recheck sel fuel n ns st)
  note fin = "2.prems"(1) and sel = "2.prems"(2) and E = "2.prems"(3) and inv = "2.prems"(4)
  have n: "n \<in> N" and ns: "set ns \<subseteq> N" using "2.prems"(5) by auto
  have path: "on_path E (t_stack st) ns" using "2.prems"(6) by (auto simp: on_path_def)
  consider (skip) "recheck" "n \<notin> set (t_unmarked st)"
    | (cycle) "\<not> (recheck \<and> n \<notin> set (t_unmarked st))" "n \<in> set (t_stack st)"
    | (again) "\<not> recheck" "n \<notin> set (t_unmarked st)"
    | (visit) "n \<in> set (t_unmarked st)" "n \<notin> set (t_stack st)" by blast
  then show ?case
  proof cases
    case skip
    then have "dfs_post N E recheck ns st (dfs recheck sel fuel ns st)"
      using "2.IH"(1) fin sel E inv ns path "2.prems"(7) by blast
    with skip show ?thesis by (simp add: dfs_post_mono)
  next
    case cycle
    then have "\<not> acyclic E" using on_path_cycle "2.prems"(6) by metis
    with cycle show ?thesis by (auto simp: dfs_post_def)
  next
    case again
    have out: "n \<notin> set (t_stack st)" using again inv by (auto simp: dfs_inv_def)
    from stack_room [OF inv fin n out] "2.prems"(7) obtain f where f: "fuel = Suc f" by (cases fuel) auto
    from again have r: "recheck = False" by simp
    note rv = dfs_revisit [OF inv [unfolded r] sel [unfolded r] n again(2)]
    have "dfs_post N E recheck ns (topo_finish n (topo_push n st)) (dfs recheck sel fuel ns (topo_finish n (topo_push n st)))"
      using rv r path "2.prems"(7) by (intro "2.IH"(3) [OF _ out f] fin sel E ns) auto
    with rv again f out show ?thesis by (simp add: dfs_post_mono)
  next
    case visit
    from stack_room [OF inv fin n visit(2)] "2.prems"(7) obtain f where f: "fuel = Suc f" by (cases fuel) auto
    let ?push = "topo_push n st" and ?inner = "dfs recheck sel f (sel (topo_push n st) n) (topo_push n st)"
    have nskip: "\<not> (recheck \<and> n \<notin> set (t_unmarked st))" using visit by blast
    have sub: "set (sel ?push n) \<subseteq> E `` {n}" using sel by (simp add: sel_ok_def)
    have inner: "dfs_post N E recheck (sel ?push n) ?push ?inner"
      using "2.IH"(2) [OF nskip visit(2) f fin sel E dfs_inv_push [OF inv visit]]
        on_path_push [OF "2.prems"(6) sub] sub E "2.prems"(7) f by (auto simp: topo_push_def)
    show ?thesis
    proof (cases ?inner)
      case (Inl e)
      with inner visit f show ?thesis by (simp add: dfs_post_def)
    next
      case (Inr st1)
      note d = dfs_descend [OF inv sel E n visit(2) inner [unfolded Inr]]
      have "dfs_post N E recheck ns (topo_finish n st1) (dfs recheck sel fuel ns (topo_finish n st1))"
        using d path "2.prems"(7) by (intro "2.IH"(3) [OF nskip visit(2) f] fin sel E ns) auto
      with d Inr visit f show ?thesis by (simp add: dfs_post_mono)
    qed
  qed
qed

section \<open>Orders and cycles\<close>

lemma index_of_take:
  "x \<in> set (take i xs) \<Longrightarrow> \<exists>j<i. index_of x xs = Some j"
proof (induction xs arbitrary: i)
  case Nil
  then show ?case by simp
next
  case (Cons y ys)
  then show ?case by (cases i) force+
qed

lemma topo_ok_acyclic:
  assumes "topo_ok E sol" and "E \<subseteq> set sol \<times> set sol"
  shows "acyclic E"
proof -
  have "E\<inverse> \<subseteq> measure (\<lambda>x. the (index_of x sol))"
  proof (clarify, simp)
    fix a b assume ab: "(a, b) \<in> E"
    with assms(2) obtain i where i: "index_of a sol = Some i" by fastforce
    then have "b \<in> set (take i sol)"
      using assms(1) ab index_of_SomeD [OF i] by (auto simp: topo_ok_def)
    from index_of_take [OF this] i show "the (index_of b sol) < the (index_of a sol)" by auto
  qed
  then have "wf (E\<inverse>)" by (rule wf_subset [OF wf_measure])
  then show ?thesis by (metis wf_acyclic acyclic_converse)
qed

lemma set_insert_cmp [simp]: "set (insert_cmp cmp x xs) = insert x (set xs)"
  by (induction xs) auto

lemma set_SortFunc [simp]: "set (SortFunc cmp xs) = set xs"
  unfolding SortFunc_def by (induction xs) auto

lemma set_sortedOrder [simp]: "set (sortedOrder cmp st ns) = set ns \<inter> set (t_unmarked st)"
  by (auto simp: sortedOrder_def)

lemma sel_ok_range: "range_ok rng \<Longrightarrow> sel_ok (edges nodes) True (\<lambda>_ n. rng (Some n) (gm_get [] nodes n))"
  by (auto simp: sel_ok_def range_ok_def edges_def)

lemma sel_ok_sorted: "sel_ok (edges nodes) False (\<lambda>st n. sortedOrder cmp st (gm_get [] nodes n))"
  by (auto simp: sel_ok_def edges_def)

lemma wf_edges_sub: "graph_wf g \<Longrightarrow> edges (g_nodes g) \<subseteq> nodes_of (g_nodes g) \<times> nodes_of (g_nodes g)"
  by (auto simp: graph_wf_def dest: edges_src)

text \<open>Both entry points: the search from all nodes, in whichever order they are listed.\<close>

lemma dfs_from_start:
  assumes wf: "graph_wf g" and sel: "sel_ok (edges (g_nodes g)) recheck sel"
    and ns: "set ns = nodes_of (g_nodes g)"
  shows "(\<not> acyclic (edges (g_nodes g)) \<and> dfs recheck sel (length (g_nodes g)) ns (topo_start g) = Inl ErrCycle)
    \<or> (acyclic (edges (g_nodes g)) \<and> (\<exists>st. dfs recheck sel (length (g_nodes g)) ns (topo_start g) = Inr st
         \<and> set (t_solution st) = nodes_of (g_nodes g) \<and> topo_ok (edges (g_nodes g)) (t_solution st)
         \<and> (recheck \<longrightarrow> distinct (t_solution st))))"
proof -
  let ?N = "nodes_of (g_nodes g)" and ?E = "edges (g_nodes g)"
  let ?r = "dfs recheck sel (length (g_nodes g)) ns (topo_start g)"
  have fuel: "card ?N \<le> length (g_nodes g)"
    unfolding nodes_of_def by (metis card_length set_map length_map)
  have post: "dfs_post ?N ?E recheck ns (topo_start g) ?r"
  proof (rule dfs_spec)
    show "dfs_inv ?N ?E recheck (topo_start g)"
      by (auto simp: dfs_inv_def topo_start_def nodes_of_def)
  qed (use sel wf_edges_sub [OF wf] ns fuel in \<open>auto simp: on_path_def topo_start_def nodes_of_def\<close>)
  show ?thesis
  proof (cases ?r)
    case (Inl e)
    with post show ?thesis by (simp add: dfs_post_def)
  next
    case (Inr st)
    with post ns have "set (t_solution st) = ?N" "topo_ok ?E (t_solution st)" "recheck \<longrightarrow> distinct (t_solution st)"
      by (auto simp: dfs_post_def dfs_inv_def)
    with Inr topo_ok_acyclic [of ?E "t_solution st"] wf_edges_sub [OF wf] show ?thesis by auto
  qed
qed

section \<open>References to nodes never added\<close>

definition refs :: "('a, 'a list) gmap \<Rightarrow> ('a \<times> 'a) set" where
  "refs out = {(n, e). e \<in> set (gm_get [] out n)}"

lemma refs_add_ref [simp]: "refs (add_ref n e out) = insert (n, e) (refs out)"
  by (auto simp: refs_def add_ref_def split: if_splits)

lemma refs_ensure_ref [simp]: "refs (ensure_ref n out) = refs out"
  by (auto simp: refs_def ensure_ref_def split: if_splits)

lemma dom_add_ref [simp]: "dom (map_of (add_ref n e out)) = insert n (dom (map_of out))"
  by (simp add: add_ref_def)

lemma dom_ensure_ref [simp]: "dom (map_of (ensure_ref n out)) = insert n (dom (map_of out))"
  by (auto simp: ensure_ref_def)

lemma fold_outgoing:
  "refs (fold (add_ref n) es out) = refs out \<union> {n} \<times> set es"
  "dom (map_of (fold (add_ref n) es (ensure_ref n out))) = insert n (dom (map_of out))"
proof -
  show "refs (fold (add_ref n) es out) = refs out \<union> {n} \<times> set es"
    by (induction es arbitrary: out) auto
  have "n \<in> dom (map_of o') \<Longrightarrow> dom (map_of (fold (add_ref n) es o')) = dom (map_of o')" for o'
    by (induction es arbitrary: o') (auto simp del: domIff)
  then show "dom (map_of (fold (add_ref n) es (ensure_ref n out))) = insert n (dom (map_of out))"
    by (metis dom_ensure_ref insertI1)
qed

lemma fold_incoming:
  "refs (fold (\<lambda>e o'. if e \<notin> A then add_ref e n (ensure_ref e o') else o') es out) = refs out \<union> (set es - A) \<times> {n}"
  "dom (map_of (fold (\<lambda>e o'. if e \<notin> A then add_ref e n (ensure_ref e o') else o') es out)) = dom (map_of out) \<union> (set es - A)"
  by (induction es arbitrary: out) (auto simp del: domIff)

definition step_refs :: "'a list \<Rightarrow> 'a \<times> 'a list \<Rightarrow> ('a \<times> 'a) set" where
  "step_refs added = (\<lambda>(n, es). (if n \<in> set added then {} else {n} \<times> set es) \<union> (set es - set added) \<times> {n})"

definition step_dom :: "'a list \<Rightarrow> 'a \<times> 'a list \<Rightarrow> 'a set" where
  "step_dom added = (\<lambda>(n, es). insert n (set es) - set added)"

lemma implicit_step_eq:
  "refs (implicit_step added nd out) = refs out \<union> step_refs added nd"
  "dom (map_of (implicit_step added nd out)) = dom (map_of out) \<union> step_dom added nd"
  by (cases nd; auto simp: implicit_step_def Let_def fold_incoming fold_outgoing step_refs_def step_dom_def
      simp del: domIff)+

lemma implicit_fold:
  "refs (fold (implicit_step added) nds out) = refs out \<union> (\<Union>nd\<in>set nds. step_refs added nd)"
  "dom (map_of (fold (implicit_step added) nds out)) = dom (map_of out) \<union> (\<Union>nd\<in>set nds. step_dom added nd)"
  by (induction nds arbitrary: out) (simp_all add: implicit_step_eq Un_assoc)

lemma wf_entry_iff:
  "graph_wf g \<Longrightarrow> (n, es) \<in> set (g_nodes g) \<longleftrightarrow> map_of (g_nodes g) n = Some es"
  by (simp add: graph_wf_def)

section \<open>Properties\<close>

text \<open>C22: \<open>TopologicalOrder\<close> returns for every acyclic graph, whatever the map iteration order, a
  list of all nodes without repetition in which every node comes after all nodes its edges
  point to, and for every cyclic graph the cycle error; it never fails otherwise and the
  recursion is never deeper than the number of nodes.\<close>

theorem TopologicalOrder_correct:
  assumes "graph_wf g" and "range_ok rng"
  shows "(acyclic (edges (g_nodes g)) \<longrightarrow>
            (\<exists>sol. TopologicalOrder rng g = Inr sol \<and> distinct sol \<and> set sol = nodes_of (g_nodes g)
              \<and> (\<forall>i<length sol. \<forall>b. (sol ! i, b) \<in> edges (g_nodes g) \<longrightarrow> b \<in> set (take i sol))))
       \<and> (\<not> acyclic (edges (g_nodes g)) \<longrightarrow> TopologicalOrder rng g = Inl ErrCycle)"
proof -
  have "set (rng None (map fst (g_nodes g))) = nodes_of (g_nodes g)"
    using assms(2) by (simp add: range_ok_def nodes_of_def)
  from dfs_from_start [OF assms(1) sel_ok_range [OF assms(2)] this] show ?thesis
    by (auto simp: TopologicalOrder_def visit_dfs topo_ok_iff)
qed

lemma TopologicalOrder_correct_witness:
  "TopologicalOrder (\<lambda>_ ns. ns) (AddEdge (1::nat) 2 (AddEdge 3 1 empty_graph)) = Inr [2, 1, 3]
   \<and> TopologicalOrder (\<lambda>_ ns. rev ns) (AddEdge (1::nat) 2 (AddEdge 2 1 empty_graph)) = Inl ErrCycle"
proof -
  let ?g = "AddEdge (1::nat) 2 (AddEdge 2 1 empty_graph)"
  have "graph_wf ?g" by (intro inv_intros)
  moreover have "range_ok (\<lambda>_::nat option. rev)" by (simp add: range_ok_def)
  moreover have "(1, 2) \<in> edges (g_nodes ?g)" "(2, 1) \<in> edges (g_nodes ?g)"
    by (simp_all add: AddEdge_edges)
  then have "\<not> acyclic (edges (g_nodes ?g))"
    unfolding acyclic_def by (meson r_into_trancl trancl_into_trancl)
  ultimately have "TopologicalOrder (\<lambda>_. rev) ?g = Inl ErrCycle"
    using TopologicalOrder_correct by blast
  moreover have "TopologicalOrder (\<lambda>_ ns. ns) (AddEdge (1::nat) 2 (AddEdge 3 1 empty_graph)) = Inr [2, 1, 3]"
    by code_simp
  ultimately show ?thesis by simp
qed

text \<open>C35: \<open>DetTopologicalOrder\<close> fails exactly on cyclic graphs too, and on an acyclic graph it
  lists every node, each occurrence after all nodes its edges point to; so the first
  occurrences form a valid order.\<close>

theorem DetTopologicalOrder_covers:
  assumes "graph_wf g"
  shows "(acyclic (edges (g_nodes g)) \<longrightarrow>
            (\<exists>sol. DetTopologicalOrder cmp g = Inr sol \<and> set sol = nodes_of (g_nodes g)
              \<and> (\<forall>i<length sol. \<forall>b. (sol ! i, b) \<in> edges (g_nodes g) \<longrightarrow> b \<in> set (take i sol))))
       \<and> (\<not> acyclic (edges (g_nodes g)) \<longrightarrow> DetTopologicalOrder cmp g = Inl ErrCycle)"
proof -
  have "set (sortedOrder cmp (topo_start g) (map fst (g_nodes g))) = nodes_of (g_nodes g)"
    by (auto simp: topo_start_def nodes_of_def)
  from dfs_from_start [OF assms sel_ok_sorted [of _ cmp] this] show ?thesis
    by (auto simp: DetTopologicalOrder_def det_loop_dfs topo_ok_iff)
qed

lemma DetTopologicalOrder_covers_witness:
  "\<exists>sol. DetTopologicalOrder (\<lambda>a b. int a - int b) (AddEdge (1::nat) 2 empty_graph) = Inr sol \<and> set sol = {1, 2}"
proof -
  let ?g = "AddEdge (1::nat) 2 empty_graph"
  have "graph_wf ?g" by (intro inv_intros)
  moreover have E: "edges (g_nodes ?g) = {(1, 2)}"
    by (simp add: AddEdge_edges) (simp add: empty_graph_def edges_def)
  then have "acyclic (edges (g_nodes ?g))" by (simp add: acyclic_insert acyclic_def [of "{}"])
  moreover have "nodes_of (g_nodes ?g) = {1, 2}" by code_simp
  ultimately show ?thesis
    using DetTopologicalOrder_covers [of ?g "\<lambda>a b. int a - int b"] by auto
qed

text \<open>\<open>DetTopologicalOrder\<close> does not drop a node from the sorted worklist when an earlier
  entry has finished it in the meantime, so the order it returns can repeat nodes: for the
  single edge from 1 to 2 it returns 2, 1, 2, where \<open>TopologicalOrder\<close> returns 2, 1.\<close>

theorem DetTopologicalOrder_repeats:
  "DetTopologicalOrder (\<lambda>a b. int a - int b) (AddEdge (1::nat) 2 empty_graph) = Inr [2, 1, 2]
   \<and> TopologicalOrder (\<lambda>_ ns. ns) (AddEdge (1::nat) 2 empty_graph) = Inr [2, 1]"
  by code_simp

text \<open>C36: \<open>ImplicitNodeReferences\<close> lists exactly the nodes that were only mentioned in an edge,
  never added, each with exactly the nodes it shares an edge with in either direction.\<close>

theorem ImplicitNodeReferences_correct:
  assumes "graph_wf g"
  shows "dom (map_of (ImplicitNodeReferences g)) = nodes_of (g_nodes g) - set (g_addedNodes g)
    \<and> (\<forall>n m. m \<in> set (gm_get [] (ImplicitNodeReferences g) n) \<longleftrightarrow>
         n \<notin> set (g_addedNodes g) \<and> ((n, m) \<in> edges (g_nodes g) \<or> (m, n) \<in> edges (g_nodes g)))"
proof
  let ?A = "set (g_addedNodes g)"
  have edge: "(a, b) \<in> edges (g_nodes g) \<longleftrightarrow> (\<exists>es. (a, es) \<in> set (g_nodes g) \<and> b \<in> set es)" for a b
    by (cases "map_of (g_nodes g) a") (simp_all add: edges_def gm_get_def wf_entry_iff [OF assms])
  have "dom (map_of (ImplicitNodeReferences g)) = (\<Union>nd\<in>set (g_nodes g). step_dom (g_addedNodes g) nd)"
    by (simp add: ImplicitNodeReferences_def implicit_fold)
  also have "\<dots> = nodes_of (g_nodes g) - ?A"
    using wf_edges_sub [OF assms] by (force simp: step_dom_def nodes_of_def edge)
  finally show "dom (map_of (ImplicitNodeReferences g)) = nodes_of (g_nodes g) - ?A" .
  have "refs (ImplicitNodeReferences g) = (\<Union>nd\<in>set (g_nodes g). step_refs (g_addedNodes g) nd)"
    by (simp add: ImplicitNodeReferences_def implicit_fold refs_def [of "[]"])
  also have "\<dots> = {(n, m). n \<notin> ?A \<and> ((n, m) \<in> edges (g_nodes g) \<or> (m, n) \<in> edges (g_nodes g))}"
    by (force simp: step_refs_def edge split: if_splits)
  finally show "\<forall>n m. m \<in> set (gm_get [] (ImplicitNodeReferences g) n) \<longleftrightarrow>
      n \<notin> ?A \<and> ((n, m) \<in> edges (g_nodes g) \<or> (m, n) \<in> edges (g_nodes g))"
    by (auto simp: refs_def set_eq_iff)
qed

lemma ImplicitNodeReferences_correct_witness:
  "dom (map_of (ImplicitNodeReferences (AddEdge (5::nat) 10 (AddNode 5 empty_graph)))) = {10}"
proof -
  let ?g = "AddEdge (5::nat) 10 (AddNode 5 empty_graph)"
  have "graph_wf ?g" by (intro inv_intros)
  from ImplicitNodeReferences_correct [OF this]
  have "dom (map_of (ImplicitNodeReferences ?g)) = nodes_of (g_nodes ?g) - set (g_addedNodes ?g)" by blast
  also have "\<dots> = {10}" by code_simp
  finally show ?thesis .
qed

end
