(* ===== verification/Cartesian.thy ===== *)
theory Cartesian
  imports Prelude
begin

text \<open>
  \<^verbatim>\<open>Product\<close> of \<^verbatim>\<open>go/algorithm/cartesian/cartesian.go\<close>, which the BMaaS statistics use to
  enumerate label combinations.
\<close>

fun Product :: "'a list list \<Rightarrow> 'a list list" where
  "Product [] = []"
| "Product (head # tail) =
     (let tailProduct = Product tail in
      concat (map (\<lambda>v. if length tailProduct = 0 then [[v]] else map (\<lambda>ttail. v # ttail) tailProduct) head))"

lemma Product_nonempty_dims:
  "ds \<noteq> [] \<Longrightarrow> \<forall>d\<in>set ds. d \<noteq> [] \<Longrightarrow> Product ds = product_lists ds \<and> Product ds \<noteq> []"
proof (induction ds)
  case Nil
  then show ?case by simp
next
  case (Cons d ds)
  show ?case
  proof (cases ds)
    case Nil
    with Cons.prems show ?thesis by (auto simp: map_replicate_const)
  next
    case (Cons d' ds')
    with Cons.IH Cons.prems have "Product ds = product_lists ds" "Product ds \<noteq> []" by auto
    with Cons.prems show ?thesis by (auto simp: Let_def)
  qed
qed

lemma Product_cut: "Product (ds @ [] # es) = Product ds"
  by (induction ds) (auto simp: Let_def)

text \<open>C37: \<open>Product\<close> is the cartesian product (in lexicographic order) of the dimensions before
  the first empty one, and empty when the first dimension is empty: for non-empty dimensions it
  is the cartesian product, while an empty dimension drops itself and everything after it
  instead of making the product empty.\<close>

theorem Product_characterisation:
  "Product ds = (let ds' = takeWhile (\<lambda>d. d \<noteq> []) ds in if ds' = [] then [] else product_lists ds')"
proof -
  let ?pre = "takeWhile (\<lambda>d. d \<noteq> []) ds"
  have cut: "Product ds = Product ?pre"
  proof (cases "dropWhile (\<lambda>d. d \<noteq> []) ds")
    case Nil
    then show ?thesis by (metis append_Nil2 takeWhile_dropWhile_id)
  next
    case (Cons d es)
    then have "d = []" using hd_dropWhile [of "\<lambda>d. d \<noteq> []" ds] by simp
    with Cons have "ds = ?pre @ [] # es" by (metis takeWhile_dropWhile_id)
    then show ?thesis using Product_cut [of ?pre es] by simp
  qed
  have "Product ?pre = product_lists ?pre" if "?pre \<noteq> []"
    using that by (intro Product_nonempty_dims [THEN conjunct1]) (auto dest: set_takeWhileD)
  with cut show ?thesis by (simp add: Let_def)
qed

end
