(* ===== verification/Sinbin.thy ===== *)
theory Sinbin
  imports Prelude
begin

text \<open>
  The time-out bench of \<^verbatim>\<open>cloud/lib/sinbin/sinbin.go\<close>, which the bare-metal shepherd uses to
  leave failing machines alone for a while. Instants are integers (nanoseconds); the readings
  of \<^verbatim>\<open>time.Now()\<close> that an operation takes are its arguments. A nil bench is \<open>None\<close>.
\<close>

record 'a sinbin =
  sb_bench :: "('a \<rightharpoonup> int) option"
  sb_lastSweep :: int

definition minute :: int where
  "minute = 60 * 1000000000"

definition sb_zero :: "int \<Rightarrow> 'a sinbin" where
  "sb_zero epoch = \<lparr>sb_bench = None, sb_lastSweep = epoch\<rparr>"

definition sb_initialize :: "'a sinbin \<Rightarrow> 'a sinbin" where
  "sb_initialize s = (if sb_bench s = None then s\<lparr>sb_bench := Some Map.empty\<rparr> else s)"

definition sb_sweep :: "int \<Rightarrow> int \<Rightarrow> 'a sinbin \<Rightarrow> 'a sinbin" where
  "sb_sweep now1 now s =
     (if sb_lastSweep s + minute > now1 then s
      else s\<lparr>sb_bench := map_option (\<lambda>b k. case b k of None \<Rightarrow> None
                                      | Some until \<Rightarrow> if now > until then None else Some until) (sb_bench s),
             sb_lastSweep := now\<rparr>)"

definition sb_Add :: "int \<Rightarrow> int \<Rightarrow> 'a \<Rightarrow> int \<Rightarrow> 'a sinbin \<Rightarrow> 'a sinbin" where
  "sb_Add now1 now t until s =
     (let s1 = sb_sweep now1 now (sb_initialize s); b = the (sb_bench s1) in
      case b t of
        Some existing \<Rightarrow> if until > existing then s1\<lparr>sb_bench := Some (b(t \<mapsto> until))\<rparr> else s1
      | None \<Rightarrow> s1\<lparr>sb_bench := Some (b(t \<mapsto> until))\<rparr>)"

definition sb_Penalized :: "int \<Rightarrow> 'a \<Rightarrow> 'a sinbin \<Rightarrow> bool \<times> 'a sinbin" where
  "sb_Penalized now t s =
     (case sb_bench s of
        None \<Rightarrow> (False, s)
      | Some b \<Rightarrow>
          (case b t of
             None \<Rightarrow> (False, s)
           | Some existing \<Rightarrow>
               if now > existing then (False, s\<lparr>sb_bench := Some (b(t := None))\<rparr>) else (True, s)))"

text \<open>A history of calls; an addition reads the clock twice.\<close>

datatype 'a sb_call = SbAdd int int 'a int | SbPenalized int 'a

fun sb_do :: "'a sb_call \<Rightarrow> 'a sinbin \<Rightarrow> 'a sinbin" where
  "sb_do (SbAdd now1 now t until) s = sb_Add now1 now t until s"
| "sb_do (SbPenalized now t) s = snd (sb_Penalized now t s)"

fun sb_end :: "'a sb_call \<Rightarrow> int" where
  "sb_end (SbAdd now1 now t until) = now"
| "sb_end (SbPenalized now t) = now"

fun sb_added :: "'a \<Rightarrow> 'a sb_call \<Rightarrow> int option" where
  "sb_added t (SbAdd now1 now t' until) = (if t' = t then Some until else None)"
| "sb_added t (SbPenalized now t') = None"

text \<open>The clock does not run backwards over the history.\<close>

definition sb_monotone :: "'a sb_call list \<Rightarrow> bool" where
  "sb_monotone cs \<longleftrightarrow> sorted (map sb_end cs)"

definition sb_run :: "int \<Rightarrow> 'a sb_call list \<Rightarrow> 'a sinbin" where
  "sb_run epoch cs = fold sb_do cs (sb_zero epoch)"

definition sb_get :: "'a sinbin \<Rightarrow> 'a \<Rightarrow> int option" where
  "sb_get s t = (case sb_bench s of None \<Rightarrow> None | Some b \<Rightarrow> b t)"

lemma sb_get_Add:
  "sb_get (sb_Add now1 now t until s) t' =
     (let old = sb_get s t'; kept = (if sb_lastSweep s + minute > now1 then old
                else case old of None \<Rightarrow> None | Some u \<Rightarrow> if now > u then None else Some u) in
      if t' = t then (case kept of None \<Rightarrow> Some until | Some u \<Rightarrow> Some (max u until)) else kept)"
  by (cases "sb_bench s")
    (auto simp: sb_get_def sb_Add_def sb_sweep_def sb_initialize_def Let_def max_def split: option.splits if_splits)

lemma sb_get_Penalized:
  "sb_get (snd (sb_Penalized now t s)) t' =
     (if t' = t then (case sb_get s t of None \<Rightarrow> None | Some u \<Rightarrow> if now > u then None else Some u) else sb_get s t')"
  by (auto simp: sb_get_def sb_Penalized_def split: option.splits)

lemma sb_Penalized_iff: "fst (sb_Penalized now t s) \<longleftrightarrow> (\<exists>u. sb_get s t = Some u \<and> now \<le> u)"
  by (auto simp: sb_get_def sb_Penalized_def split: option.splits)

text \<open>
  What the bench records at an instant: an entry is the latest deadline that was added, and a
  deadline that is not recorded has passed.
\<close>

definition sb_tracks :: "int \<Rightarrow> 'a sb_call list \<Rightarrow> 'a sinbin \<Rightarrow> bool" where
  "sb_tracks now cs s \<longleftrightarrow>
     (\<forall>t. (\<forall>u. sb_get s t = Some u \<longrightarrow> (\<exists>c\<in>set cs. sb_added t c = Some u))
        \<and> (\<forall>c\<in>set cs. \<forall>u. sb_added t c = Some u \<longrightarrow> (\<exists>u'. sb_get s t = Some u' \<and> u \<le> u') \<or> u < now))"

lemma sb_tracks_do:
  assumes tr: "sb_tracks now0 cs s" and le: "now0 \<le> sb_end c"
  shows "sb_tracks (sb_end c) (cs @ [c]) (sb_do c s)"
proof (cases c)
  case (SbAdd now1 now t until)
  show ?thesis
    unfolding sb_tracks_def SbAdd
  proof (intro allI conjI ballI impI)
    fix t' u assume "sb_get (sb_do (SbAdd now1 now t until) s) t' = Some u"
    then show "\<exists>c\<in>set (cs @ [SbAdd now1 now t until]). sb_added t' c = Some u"
      using tr by (auto simp: sb_tracks_def sb_get_Add Let_def max_def split: if_splits option.splits)
  next
    fix t' c' u assume c': "c' \<in> set (cs @ [SbAdd now1 now t until])" "sb_added t' c' = Some u"
    show "(\<exists>u'. sb_get (sb_do (SbAdd now1 now t until) s) t' = Some u' \<and> u \<le> u') \<or> u < sb_end (SbAdd now1 now t until)"
    proof (cases "c' \<in> set cs")
      case True
      with tr c'(2) have "(\<exists>u'. sb_get s t' = Some u' \<and> u \<le> u') \<or> u < now0"
        by (simp add: sb_tracks_def)
      then show ?thesis
        using le SbAdd by (auto simp: sb_get_Add Let_def split: option.splits)
    next
      case False
      with c' show ?thesis
        by (auto simp: sb_get_Add Let_def split: option.splits if_splits)
    qed
  qed
next
  case (SbPenalized now t)
  show ?thesis
    using tr le unfolding SbPenalized sb_tracks_def
    by (fastforce simp: sb_get_Penalized split: if_splits option.splits)
qed

lemma sb_tracks_run:
  "sb_monotone cs \<Longrightarrow> \<forall>c\<in>set cs. sb_end c \<le> now \<Longrightarrow> sb_tracks now cs (sb_run epoch cs)"
proof (induction cs arbitrary: now rule: rev_induct)
  case Nil
  then show ?case by (simp add: sb_tracks_def sb_run_def sb_zero_def sb_get_def)
next
  case (snoc c cs)
  then have "sb_monotone cs" "\<forall>c'\<in>set cs. sb_end c' \<le> sb_end c"
    by (auto simp: sb_monotone_def sorted_append)
  from snoc.IH [OF this] have "sb_tracks (sb_end c) (cs @ [c]) (sb_run epoch (cs @ [c]))"
    using sb_tracks_do [of "sb_end c" cs "sb_run epoch cs" c] by (simp add: sb_run_def)
  moreover have "sb_end c \<le> now" using snoc.prems by simp
  ultimately show ?case unfolding sb_tracks_def by (meson less_le_trans)
qed

text \<open>C34: after any history of calls, an element is penalized at an instant exactly when it was
  added before with a deadline that has not passed: neither the periodic sweep nor a shorter
  later penalty nor a query cuts a penalty short, and none outlives its longest deadline.\<close>

theorem Penalized_iff_added:
  assumes "sb_monotone cs" and "\<forall>c\<in>set cs. sb_end c \<le> now"
  shows "fst (sb_Penalized now t (sb_run epoch cs)) \<longleftrightarrow>
    (\<exists>c\<in>set cs. \<exists>until. sb_added t c = Some until \<and> now \<le> until)"
proof -
  have "sb_tracks now cs (sb_run epoch cs)" using assms by (rule sb_tracks_run)
  then show ?thesis
    unfolding sb_Penalized_iff sb_tracks_def by (meson leD order_trans)
qed

lemma Penalized_iff_added_witness:
  "fst (sb_Penalized 90 ''m1'' (sb_run 0 [SbAdd 1 2 ''m1'' 100, SbPenalized 5 ''m1'', SbAdd 50 60 ''m1'' 70]))
   \<and> \<not> fst (sb_Penalized 101 ''m1'' (sb_run 0 [SbAdd 1 2 ''m1'' 100, SbPenalized 5 ''m1'', SbAdd 50 60 ''m1'' 70]))"
proof -
  let ?cs = "[SbAdd 1 2 ''m1'' 100, SbPenalized 5 ''m1'', SbAdd 50 60 ''m1'' 70]"
  have m: "sb_monotone ?cs" and "\<forall>c\<in>set ?cs. sb_end c \<le> 90" "\<forall>c\<in>set ?cs. sb_end c \<le> 101"
    by (simp_all add: sb_monotone_def)
  then show ?thesis
    using Penalized_iff_added [OF m, of 90 "''m1''" 0] Penalized_iff_added [OF m, of 101 "''m1''" 0] by auto
qed

end
