(* ===== verification/LogBuffer.thy ===== *)
theory LogBuffer
  imports Prelude
begin

text \<open>
  The line splitter and the ring of lines of \<^verbatim>\<open>osbase/logbuffer\<close> (\<^verbatim>\<open>linebuffer.go\<close>,
  \<^verbatim>\<open>logbuffer.go\<close>). Byte strings are Isabelle strings (a \<open>char\<close> is a byte), Go's \<^verbatim>\<open>int\<close> is
  \<open>int\<close>. The callback of a line buffer is modelled by its calls: an operation returns the lines
  it hands to the callback, in order. Slicing out of bounds, indexing an empty ring and a
  negative allocation size are panics of the sources and values of \<open>lb_fail\<close> here.
\<close>

section \<open>Lines\<close>

record line =
  ln_Data :: string
  ln_OriginalLength :: int

datatype lb_fail = LbClosed | LbAlreadyClosed | LbPanic string

definition line_Truncated :: "line \<Rightarrow> bool" where
  "line_Truncated l \<longleftrightarrow> ln_OriginalLength l > int (length (ln_Data l))"

definition line_String :: "line \<Rightarrow> string" where
  "line_String l = (if line_Truncated l then ln_Data l @ ''...'' else ln_Data l)"

text \<open>The protobuf message \<^verbatim>\<open>LogEntry_Raw\<close>; Go's \<^verbatim>\<open>int\<close> has 64 bits as its length field has.\<close>

record raw_proto =
  rp_Data :: string
  rp_OriginalLength :: int

definition line_ProtoLog :: "line \<Rightarrow> raw_proto" where
  "line_ProtoLog l = \<lparr>rp_Data = ln_Data l, rp_OriginalLength = ln_OriginalLength l\<rparr>"

definition LineFromLogProto :: "raw_proto \<Rightarrow> (string, line) result" where
  "LineFromLogProto raw =
     (if rp_OriginalLength raw < int (length (rp_Data raw)) then Inl ''original_length smaller than length of data''
      else Inr \<lparr>ln_Data = rp_Data raw, ln_OriginalLength = rp_OriginalLength raw\<rparr>)"

section \<open>The line buffer\<close>

record line_buffer =
  lnb_maxLineLength :: int
  lnb_cur :: string
  lnb_length :: nat
  lnb_closed :: bool

definition NewLineBuffer :: "int \<Rightarrow> line_buffer" where
  "NewLineBuffer maxLineLength =
     \<lparr>lnb_maxLineLength = maxLineLength, lnb_cur = [], lnb_length = 0, lnb_closed = False\<rparr>"

definition writeLimited :: "string \<Rightarrow> line_buffer \<Rightarrow> (lb_fail, line_buffer) result" where
  "writeLimited data l =
     (let l1 = l\<lparr>lnb_length := lnb_length l + length data\<rparr>;
          room = lnb_maxLineLength l - int (length (lnb_cur l)) in
      if int (length (lnb_cur l)) + int (length data) > lnb_maxLineLength l
      then (if room < 0 then Inl (LbPanic ''slice bounds out of range'')
            else Inr (l1\<lparr>lnb_cur := lnb_cur l @ take (nat room) data\<rparr>))
      else Inr (l1\<lparr>lnb_cur := lnb_cur l @ data\<rparr>))"

definition commitLine :: "line_buffer \<Rightarrow> line \<times> line_buffer" where
  "commitLine l =
     (\<lparr>ln_Data = lnb_cur l, ln_OriginalLength = int (lnb_length l)\<rparr>, l\<lparr>lnb_cur := [], lnb_length := 0\<rparr>)"

abbreviation newline :: char where
  "newline \<equiv> CHR 0x0A"

text \<open>The loop of \<^verbatim>\<open>Write\<close>: \<open>rest\<close> is \<^verbatim>\<open>data[pos:]\<close>, \<open>dlen\<close> is \<^verbatim>\<open>len(data)\<close>.\<close>

function write_loop :: "nat \<Rightarrow> string \<Rightarrow> line_buffer \<Rightarrow> (lb_fail, line list \<times> line_buffer) result" where
  "write_loop dlen rest l =
     (case index_of newline rest of
        None \<Rightarrow> rbind (writeLimited rest l) (\<lambda>l1. Inr ([], l1))
      | Some k \<Rightarrow>
          rbind (writeLimited (take k rest) l) (\<lambda>l1.
            let (ln, l2) = commitLine l1 in
            if int k = int dlen - 1 then Inr ([ln], l2)
            else rbind (write_loop dlen (drop (Suc k) rest) l2) (\<lambda>(lns, l3). Inr (ln # lns, l3))))"
  by pat_completeness auto
termination
  by (relation "measure (\<lambda>(dlen, rest, l). length rest)") (auto dest: index_of_SomeD)

declare write_loop.simps [simp del]

definition lnb_Write :: "string \<Rightarrow> line_buffer \<Rightarrow> (lb_fail, (nat \<times> line list) \<times> line_buffer) result" where
  "lnb_Write data l =
     (if lnb_closed l then Inl LbClosed
      else rbind (write_loop (length data) data l) (\<lambda>(lns, l1). Inr ((length data, lns), l1)))"

definition lnb_Close :: "line_buffer \<Rightarrow> (lb_fail, line list \<times> line_buffer) result" where
  "lnb_Close l =
     (if lnb_closed l then Inl LbAlreadyClosed
      else let l1 = l\<lparr>lnb_closed := True\<rparr> in
           if lnb_length l1 > 0 then (let (ln, l2) = commitLine l1 in Inr ([ln], l2)) else Inr ([], l1))"

section \<open>The ring buffer\<close>

record log_buffer =
  lgb_content :: "line list"
  lgb_length :: nat
  lgb_lines :: line_buffer

definition line_zero :: line where
  "line_zero = \<lparr>ln_Data = [], ln_OriginalLength = 0\<rparr>"

definition lgb_New :: "nat \<Rightarrow> int \<Rightarrow> log_buffer" where
  "lgb_New sz maxLineLength =
     \<lparr>lgb_content = replicate sz line_zero, lgb_length = 0, lgb_lines = NewLineBuffer maxLineLength\<rparr>"

definition lineCallback :: "line \<Rightarrow> log_buffer \<Rightarrow> (lb_fail, log_buffer) result" where
  "lineCallback ln b =
     (if length (lgb_content b) = 0 then Inl (LbPanic ''integer divide by zero'')
      else Inr (b\<lparr>lgb_content := (lgb_content b)[lgb_length b mod length (lgb_content b) := ln],
                  lgb_length := Suc (lgb_length b)\<rparr>))"

definition capToContentLength :: "log_buffer \<Rightarrow> int \<Rightarrow> int" where
  "capToContentLength b n =
     (let n1 = (if n > int (lgb_length b) then int (lgb_length b) else n) in
      if n1 > int (length (lgb_content b)) then int (length (lgb_content b)) else n1)"

text \<open>The loop \<open>i = 1 .. n\<close> that fills the output array from its end.\<close>

fun read_loop :: "log_buffer \<Rightarrow> (line \<Rightarrow> 'a) \<Rightarrow> nat \<Rightarrow> nat \<Rightarrow> 'a list \<Rightarrow> 'a list" where
  "read_loop b f n 0 out = out"
| "read_loop b f n (Suc k) out =
     (let i = n - k in
      read_loop b f n k (out[n - i := f (lgb_content b ! ((lgb_length b - i) mod length (lgb_content b)))]))"

definition ReadLines :: "log_buffer \<Rightarrow> int \<Rightarrow> (lb_fail, line list) result" where
  "ReadLines b n0 =
     (let n = capToContentLength b n0 in
      if n < 0 then Inl (LbPanic ''makeslice: len out of range'')
      else Inr (read_loop b (\<lambda>l. l) (nat n) (nat n) (replicate (nat n) line_zero)))"

definition ReadLinesTruncated :: "log_buffer \<Rightarrow> int \<Rightarrow> string \<Rightarrow> (lb_fail, string list) result" where
  "ReadLinesTruncated b n0 ellipsis =
     (let n = capToContentLength b n0 in
      if n < 0 then Inl (LbPanic ''makeslice: len out of range'')
      else Inr (read_loop b line_String (nat n) (nat n) (replicate (nat n) [])))"

text \<open>\<^verbatim>\<open>Write\<close> and \<^verbatim>\<open>Close\<close> of the embedded line buffer, whose callback is \<open>lineCallback\<close>.\<close>

fun feed_lines :: "line list \<Rightarrow> log_buffer \<Rightarrow> (lb_fail, log_buffer) result" where
  "feed_lines [] b = Inr b"
| "feed_lines (ln # lns) b = rbind (lineCallback ln b) (feed_lines lns)"

definition lgb_Write :: "string \<Rightarrow> log_buffer \<Rightarrow> (lb_fail, nat \<times> log_buffer) result" where
  "lgb_Write data b =
     rbind (lnb_Write data (lgb_lines b)) (\<lambda>((n, lns), l).
       rbind (feed_lines lns (b\<lparr>lgb_lines := l\<rparr>)) (\<lambda>b1. Inr (n, b1)))"

definition lgb_Close :: "log_buffer \<Rightarrow> (lb_fail, log_buffer) result" where
  "lgb_Close b =
     rbind (lnb_Close (lgb_lines b)) (\<lambda>(lns, l). feed_lines lns (b\<lparr>lgb_lines := l\<rparr>))"

section \<open>What the line buffer does\<close>

text \<open>
  The line as it is recorded, the state that has seen \<open>full\<close> of the current line, and the
  whole behaviour: splitting the byte stream at newlines.
\<close>

definition rendered :: "int \<Rightarrow> string \<Rightarrow> line" where
  "rendered maxLen full = \<lparr>ln_Data = take (nat maxLen) full, ln_OriginalLength = int (length full)\<rparr>"

definition lnb_at :: "int \<Rightarrow> string \<Rightarrow> line_buffer" where
  "lnb_at maxLen full =
     \<lparr>lnb_maxLineLength = maxLen, lnb_cur = take (nat maxLen) full, lnb_length = length full, lnb_closed = False\<rparr>"

lemma lnb_at_new: "NewLineBuffer m = lnb_at m []"
  by (simp add: NewLineBuffer_def lnb_at_def)

lemma writeLimited_at:
  "0 \<le> m \<Longrightarrow> writeLimited data (lnb_at m full) = Inr (lnb_at m (full @ data))"
  by (auto simp: writeLimited_def lnb_at_def Let_def min_def nat_diff_distrib)

lemma commitLine_at: "commitLine (lnb_at m full) = (rendered m full, lnb_at m [])"
  by (simp add: commitLine_def lnb_at_def rendered_def)

lemma index_of_split: "index_of s xs = Some k \<Longrightarrow> xs = take k xs @ s # drop (Suc k) xs \<and> s \<notin> set (take k xs)"
  using index_of_SomeD [of s xs k] id_take_nth_drop [of k xs] by auto

text \<open>
  The early exit of the loop compares an offset relative to \<^verbatim>\<open>pos\<close> with the length of the whole
  slice. It fires only for a newline that ends the data, where continuing would change nothing.
\<close>

lemma write_loop_at:
  assumes "0 \<le> m" "length rest \<le> dlen" "newline \<notin> set full"
  shows "write_loop dlen rest (lnb_at m full)
    = Inr (map (rendered m) (butlast (split_on newline (full @ rest))), lnb_at m (last (split_on newline (full @ rest))))"
  using assms
proof (induction "length rest" arbitrary: rest full rule: less_induct)
  case less
  show ?case
  proof (cases "index_of newline rest")
    case None
    then have "newline \<notin> set (full @ rest)" using less.prems by simp
    with None less.prems show ?thesis
      by (simp add: write_loop.simps [of dlen rest] writeLimited_at split_on_id)
  next
    case (Some k)
    note k = index_of_SomeD [OF Some]
    let ?rest = "drop (Suc k) rest"
    have "newline \<notin> set (full @ take k rest)" using index_of_split [OF Some] less.prems by simp
    with index_of_split [OF Some]
    have split: "split_on newline (full @ rest) = (full @ take k rest) # split_on newline ?rest"
      by (metis append_assoc split_on_append_sep)
    have IH: "write_loop dlen ?rest (lnb_at m [])
        = Inr (map (rendered m) (butlast (split_on newline ?rest)), lnb_at m (last (split_on newline ?rest)))"
      using less.hyps [of ?rest "[]"] less.prems k by auto
    show ?thesis
    proof (cases "int k = int dlen - 1")
      case True
      with less.prems k have "?rest = []" by simp
      with Some True less.prems split show ?thesis
        by (simp add: write_loop.simps [of dlen rest] writeLimited_at commitLine_at)
    next
      case False
      with Some less.prems split IH show ?thesis
        by (simp add: write_loop.simps [of dlen rest] writeLimited_at commitLine_at)
    qed
  qed
qed

lemma lnb_Write_at:
  "0 \<le> m \<Longrightarrow> newline \<notin> set full \<Longrightarrow>
    lnb_Write data (lnb_at m full) =
      Inr ((length data, map (rendered m) (butlast (split_on newline (full @ data)))),
           lnb_at m (last (split_on newline (full @ data))))"
  using write_loop_at [of m data "length data" full] by (simp add: lnb_Write_def) (simp add: lnb_at_def)

fun write_all :: "string list \<Rightarrow> line_buffer \<Rightarrow> (lb_fail, line list \<times> line_buffer) result" where
  "write_all [] l = Inr ([], l)"
| "write_all (d # ds) l =
     rbind (lnb_Write d l) (\<lambda>((_, lns), l1). rbind (write_all ds l1) (\<lambda>(lns', l2). Inr (lns @ lns', l2)))"

lemma last_split_no_sep: "s \<notin> set (last (split_on s xs))"
  by (meson last_in_set split_on_no_sep split_on_not_Nil)

lemma write_all_at:
  "0 \<le> m \<Longrightarrow> newline \<notin> set full \<Longrightarrow>
    write_all ds (lnb_at m full) =
      Inr (map (rendered m) (butlast (split_on newline (full @ concat ds))),
           lnb_at m (last (split_on newline (full @ concat ds))))"
proof (induction ds arbitrary: full)
  case Nil
  then show ?case by (simp add: split_on_id)
next
  case (Cons d ds)
  let ?full' = "last (split_on newline (full @ d))"
  have IH: "write_all ds (lnb_at m ?full') = Inr (map (rendered m) (butlast (split_on newline (?full' @ concat ds))),
      lnb_at m (last (split_on newline (?full' @ concat ds))))"
    using Cons by (intro Cons.IH) (auto simp: last_split_no_sep)
  have "split_on newline (full @ concat (d # ds)) = butlast (split_on newline (full @ d)) @ split_on newline (?full' @ concat ds)"
    using split_on_append [of newline "full @ d" "concat ds"] by simp
  with IH Cons.prems show ?case by (simp add: lnb_Write_at butlast_append)
qed

section \<open>What the ring holds\<close>

definition ring_view :: "log_buffer \<Rightarrow> line list" where
  "ring_view b =
     map (\<lambda>i. lgb_content b ! (i mod length (lgb_content b)))
       [lgb_length b - min (lgb_length b) (length (lgb_content b)) ..< lgb_length b]"

definition ring_inv :: "log_buffer \<Rightarrow> bool" where
  "ring_inv b \<longleftrightarrow> lgb_content b \<noteq> []"

definition ring_cap :: "log_buffer \<Rightarrow> nat" where
  "ring_cap b = length (lgb_content b)"

definition ring_push :: "line \<Rightarrow> log_buffer \<Rightarrow> log_buffer" where
  "ring_push ln b = (case lineCallback ln b of Inl _ \<Rightarrow> b | Inr b' \<Rightarrow> b')"

lemma lineCallback_ok: "ring_inv b \<Longrightarrow> lineCallback ln b = Inr (ring_push ln b)"
  by (simp add: ring_push_def lineCallback_def ring_inv_def)

lemma mod_window_neq:
  assumes "i < n" "n < i + (s::nat)"
  shows "i mod s \<noteq> n mod s"
proof
  assume "i mod s = n mod s"
  then have "s dvd n - i" using assms(1) by (metis less_imp_le mod_eq_dvd_iff_nat)
  then have "s \<le> n - i" using assms(1) by (simp add: dvd_imp_le)
  with assms show False by simp
qed

lemma ring_view_push:
  assumes "ring_inv b"
  shows "ring_view (ring_push ln b) = lastn (ring_cap b) (ring_view b @ [ln])"
proof -
  let ?c = "lgb_content b" and ?n = "lgb_length b"
  let ?s = "length ?c"
  have s: "0 < ?s" using assms by (simp add: ring_inv_def)
  have push: "lgb_content (ring_push ln b) = ?c[?n mod ?s := ln]" "lgb_length (ring_push ln b) = Suc ?n"
    using assms by (simp_all add: ring_push_def lineCallback_def ring_inv_def)
  have upd: "?c[?n mod ?s := ln] ! (i mod ?s) = (if i = ?n then ln else ?c ! (i mod ?s))"
    if "i \<le> ?n" "?n < i + ?s" for i
    using that s mod_window_neq [of i ?n ?s] by (auto simp: nth_list_update)
  show ?thesis
  proof (rule nth_equalityI)
    show "length (ring_view (ring_push ln b)) = length (lastn (ring_cap b) (ring_view b @ [ln]))"
      using s by (auto simp: ring_view_def push ring_cap_def min_def simp del: upt_Suc length_greater_0_conv)
    fix j assume j: "j < length (ring_view (ring_push ln b))"
    show "ring_view (ring_push ln b) ! j = lastn (ring_cap b) (ring_view b @ [ln]) ! j"
    proof (cases "?n < ?s")
      case True
      with j s upd [of j] show ?thesis
        by (cases "j = ?n") (auto simp: ring_view_def push ring_cap_def lastn_def nth_append min_def simp del: upt_Suc)
    next
      case False
      with j s upd [of "Suc ?n - ?s + j"] show ?thesis
        by (auto simp: ring_view_def push ring_cap_def lastn_def nth_append min_def Suc_diff_le simp del: upt_Suc)
    qed
  qed
qed

interpretation ring: bounded_log ring_push ring_view ring_cap ring_inv
proof
  fix b :: log_buffer and ln :: line
  assume inv: "ring_inv b"
  show "ring_inv (ring_push ln b)" "ring_cap (ring_push ln b) = ring_cap b"
    using inv by (simp_all add: ring_push_def lineCallback_def ring_inv_def ring_cap_def)
  show "ring_view (ring_push ln b) = lastn (ring_cap b) (ring_view b @ [ln])"
    using inv by (rule ring_view_push)
  show "length (ring_view b) \<le> ring_cap b"
    by (simp add: ring_view_def ring_cap_def)
qed

lemma drop_list_update_same: "k < length xs \<Longrightarrow> drop k (xs[k := x]) = x # drop (Suc k) xs"
  by (metis Cons_nth_drop_Suc drop_update_cancel lessI length_list_update nth_list_update_eq)

lemma read_loop_eq:
  assumes "k \<le> n" "length out = n"
  shows "read_loop b f n k out
    = map (\<lambda>j. f (lgb_content b ! ((lgb_length b - (n - j)) mod length (lgb_content b)))) [0..<k] @ drop k out"
  using assms
proof (induction k arbitrary: out)
  case 0
  then show ?case by simp
next
  case (Suc k)
  have "n - (n - k) = k" "k < length out" using Suc.prems by simp_all
  with Suc.IH Suc.prems show ?case by (simp add: Let_def drop_list_update_same)
qed

lemma lastn_ring_view:
  assumes "n \<le> length (ring_view b)"
  shows "lastn n (ring_view b)
    = map (\<lambda>j. lgb_content b ! ((lgb_length b - (n - j)) mod length (lgb_content b))) [0..<n]"
  using assms
  by (intro nth_equalityI) (auto simp: ring_view_def lastn_def min_def split: if_splits)

lemma read_all:
  "0 \<le> n \<Longrightarrow> read_loop b f (nat (capToContentLength b n)) (nat (capToContentLength b n)) (replicate (nat (capToContentLength b n)) z)
     = map f (lastn (nat n) (ring_view b))"
proof -
  assume n: "0 \<le> n"
  let ?m = "nat (capToContentLength b n)"
  have m: "?m = min (nat n) (length (ring_view b))"
    using n by (auto simp: capToContentLength_def ring_view_def Let_def)
  have "lastn (nat n) (ring_view b) = lastn ?m (ring_view b)"
    by (auto simp: m min_def lastn_def)
  then show ?thesis
    using lastn_ring_view [of ?m b] by (simp add: read_loop_eq m o_def)
qed

lemma feed_lines_ok: "ring_inv b \<Longrightarrow> feed_lines lns b = Inr (fold ring_push lns b)"
  by (induction lns arbitrary: b) (auto simp: lineCallback_ok ring.inv_push)

fun lgb_write_all :: "string list \<Rightarrow> log_buffer \<Rightarrow> (lb_fail, log_buffer) result" where
  "lgb_write_all [] b = Inr b"
| "lgb_write_all (d # ds) b = rbind (lgb_Write d b) (\<lambda>(_, b1). lgb_write_all ds b1)"

lemma ring_lines_irrelevant [simp]:
  "ring_inv (b\<lparr>lgb_lines := l\<rparr>) = ring_inv b" "ring_cap (b\<lparr>lgb_lines := l\<rparr>) = ring_cap b"
  "ring_view (b\<lparr>lgb_lines := l\<rparr>) = ring_view b" "lgb_lines (fold ring_push lns b) = lgb_lines b"
proof -
  show "lgb_lines (fold ring_push lns b) = lgb_lines b"
    by (induction lns arbitrary: b) (auto simp: ring_push_def lineCallback_def)
qed (simp_all add: ring_inv_def ring_cap_def ring_view_def)

lemma lgb_Write_at:
  assumes "ring_inv b" "lgb_lines b = lnb_at m full" "newline \<notin> set full" "0 \<le> m"
  shows "\<exists>b'. lgb_Write data b = Inr (length data, b') \<and> ring_inv b' \<and> ring_cap b' = ring_cap b
    \<and> lgb_lines b' = lnb_at m (last (split_on newline (full @ data)))
    \<and> ring_view b' = lastn (ring_cap b) (ring_view b @ map (rendered m) (butlast (split_on newline (full @ data))))"
  using assms ring.push_all [of "b\<lparr>lgb_lines := lnb_at m (last (split_on newline (full @ data)))\<rparr>"]
  by (simp add: lgb_Write_def lnb_Write_at feed_lines_ok)

lemma lgb_write_all_at:
  assumes "ring_inv b" "lgb_lines b = lnb_at m full" "newline \<notin> set full" "0 \<le> m"
  shows "\<exists>b'. lgb_write_all ds b = Inr b' \<and> ring_inv b' \<and> ring_cap b' = ring_cap b
    \<and> lgb_lines b' = lnb_at m (last (split_on newline (full @ concat ds)))
    \<and> ring_view b' = lastn (ring_cap b) (ring_view b @ map (rendered m) (butlast (split_on newline (full @ concat ds))))"
  using assms
proof (induction ds arbitrary: b full)
  case Nil
  then show ?case using ring.view_le [of b] by (simp add: split_on_id lastn_id)
next
  case (Cons d ds)
  let ?full' = "last (split_on newline (full @ d))"
  from lgb_Write_at [OF Cons.prems, of d] obtain b1 where
    b1: "lgb_Write d b = Inr (length d, b1)" "ring_inv b1" "ring_cap b1 = ring_cap b" "lgb_lines b1 = lnb_at m ?full'"
      "ring_view b1 = lastn (ring_cap b) (ring_view b @ map (rendered m) (butlast (split_on newline (full @ d))))"
    by blast
  have split: "split_on newline (full @ d @ concat ds) = butlast (split_on newline (full @ d)) @ split_on newline (?full' @ concat ds)"
    using split_on_append [of newline "full @ d" "concat ds"] by simp
  from Cons.IH [OF b1(2,4) last_split_no_sep Cons.prems(4)] b1 show ?case
    by (auto simp: split butlast_append lastn_lastn_append)
qed

section \<open>Properties\<close>

text \<open>C27: however the bytes are cut into writes, a line buffer hands its callback exactly the
  newline-separated lines of the whole stream, each cut to the length limit but with its
  original length recorded; closing it emits the unfinished last line if there is one; and no
  write panics.\<close>

theorem line_buffer_splits_stream:
  assumes "0 \<le> maxLen"
  shows "\<exists>l. write_all ds (NewLineBuffer maxLen)
        = Inr (map (rendered maxLen) (butlast (split_on newline (concat ds))), l)
      \<and> (\<exists>l'. lnb_Close l = Inr (if last (split_on newline (concat ds)) = [] then []
                              else [rendered maxLen (last (split_on newline (concat ds)))], l')
          \<and> lnb_closed l')"
proof -
  let ?last = "last (split_on newline (concat ds))"
  have "lnb_Close (lnb_at maxLen ?last)
      = Inr (if ?last = [] then [] else [rendered maxLen ?last], (if ?last = [] then lnb_at maxLen ?last else lnb_at maxLen [])\<lparr>lnb_closed := True\<rparr>)"
    by (auto simp: lnb_Close_def commitLine_def rendered_def lnb_at_def Let_def)
  then show ?thesis
    using write_all_at [OF assms, of "[]" ds] by (simp add: lnb_at_new)
qed

lemma line_buffer_splits_stream_witness:
  "\<exists>l. write_all [''ab'', ''c'' @ [newline] @ ''d''] (NewLineBuffer 2)
     = Inr ([\<lparr>ln_Data = ''ab'', ln_OriginalLength = 3\<rparr>], l)"
  using line_buffer_splits_stream [of 2 "[''ab'', ''c'' @ [newline] @ ''d'']"]
  by (auto simp: rendered_def)

text \<open>C28: writing to a ring of lines never fails as long as it has room for one line, and reading
  the last \<open>n\<close> lines returns the last \<open>n\<close> completed lines of everything written, oldest
  first, or as many as the ring keeps if that is less.\<close>

theorem log_buffer_reads_back:
  assumes "0 < sz" and "0 \<le> maxLen" and "0 \<le> n"
  shows "\<exists>b. lgb_write_all ds (lgb_New sz maxLen) = Inr b
    \<and> ReadLines b n = Inr (lastn (nat n) (lastn sz (map (rendered maxLen) (butlast (split_on newline (concat ds))))))
    \<and> ReadLinesTruncated b n ellipsis
        = Inr (map line_String (lastn (nat n) (lastn sz (map (rendered maxLen) (butlast (split_on newline (concat ds)))))))"
proof -
  let ?b0 = "lgb_New sz maxLen"
  have b0: "ring_inv ?b0" "lgb_lines ?b0 = lnb_at maxLen []" "ring_cap ?b0 = sz" "ring_view ?b0 = []"
    using assms(1) by (simp_all add: ring_inv_def ring_cap_def ring_view_def lgb_New_def lnb_at_new)
  from lgb_write_all_at [OF b0(1,2) _ assms(2), of ds] obtain b where
    b: "lgb_write_all ds ?b0 = Inr b"
      "ring_view b = lastn sz (map (rendered maxLen) (butlast (split_on newline (concat ds))))"
    by (auto simp: b0)
  moreover have "\<not> capToContentLength b n < 0"
    using assms(3) by (auto simp: capToContentLength_def Let_def)
  ultimately show ?thesis
    using read_all [OF assms(3), of b "\<lambda>l. l"] read_all [OF assms(3), of b line_String]
    by (simp add: ReadLines_def ReadLinesTruncated_def Let_def)
qed

lemma log_buffer_reads_back_witness:
  "\<exists>b. lgb_write_all [''a'' @ [newline] @ ''b'' @ [newline], ''c'' @ [newline]] (lgb_New 2 8) = Inr b
     \<and> ReadLines b 5 = Inr (map (rendered 8) [''b'', ''c''])"
  using log_buffer_reads_back [of 2 8 5 "[''a'' @ [newline] @ ''b'' @ [newline], ''c'' @ [newline]]"]
  by (auto simp: lastn_def)

text \<open>\<open>ReadLinesTruncated\<close> pays no attention to the ellipsis it is given.\<close>

theorem ReadLinesTruncated_ignores_ellipsis:
  "ReadLinesTruncated b n e1 = ReadLinesTruncated b n e2
   \<and> (\<exists>b. ReadLinesTruncated b 1 ''~'' = Inr [''a...''])"
proof
  show "ReadLinesTruncated b n e1 = ReadLinesTruncated b n e2"
    by (simp add: ReadLinesTruncated_def)
  let ?b = "ring_push \<lparr>ln_Data = ''a'', ln_OriginalLength = 3\<rparr> (lgb_New 1 1)"
  have "ReadLinesTruncated ?b 1 ''~'' = Inr [''a...'']"
    by (simp add: ReadLinesTruncated_def capToContentLength_def ring_push_def lineCallback_def lgb_New_def
        line_String_def line_Truncated_def Let_def)
  then show "\<exists>b. ReadLinesTruncated b 1 ''~'' = Inr [''a...'']" by blast
qed

end
