(* ===== verification/Radix.thy ===== *)
theory Radix
  imports Prelude "HOL-Library.List_Lexorder" "HOL-Library.Char_ord"
begin

text \<open>
  The radix tree that maps device identifiers (modaliases) to kernel modules,
  \<^verbatim>\<open>osbase/kmod/radix.go\<close>. A tree node is the protobuf message \<^verbatim>\<open>RadixNode\<close>; byte strings are
  Isabelle strings. The recursive functions of the source mutate the nodes of the tree in
  place; no node is shared between two parents and no two live slices share storage, so the
  model returns the updated node. The map \<^verbatim>\<open>matches\<close> that a lookup fills is the set of its keys.

  The specification of a pattern is \<open>glob_match\<close>, a matcher that works on the pattern text. The
  main result is that adding a pattern to a tree adds exactly the new module index to exactly the
  lookups of the strings the pattern matches.
\<close>

section \<open>Nodes\<close>

datatype radix_type = LITERAL | WILDCARD | SINGLE_WILDCARD | BYTE_RANGE | ROOT

datatype radix_node = RadixNode
  (rn_Type: radix_type)
  (rn_Literal: string)
  (rn_StartByte: nat)
  (rn_EndByte: nat)
  (rn_Children: "radix_node list")
  (rn_ModuleIndex: "nat list")

datatype radix_error = RxError string | RxPanic string

abbreviation go_byte :: "char \<Rightarrow> nat" where
  "go_byte \<equiv> of_char"

section \<open>Lookup\<close>

text \<open>The loop over the children, its body, the inner loop of a wildcard and the function itself
  are mutually recursive; the third argument is \<^verbatim>\<open>matches\<close>.\<close>

function (sequential)
  lookupModulesRec :: "radix_node \<Rightarrow> string \<Rightarrow> nat set \<Rightarrow> nat set" and
  lookup_children :: "radix_node list \<Rightarrow> string \<Rightarrow> nat set \<Rightarrow> nat set" and
  lookup_child :: "radix_node \<Rightarrow> string \<Rightarrow> nat set \<Rightarrow> nat set" and
  lookup_wildcard :: "radix_node \<Rightarrow> string \<Rightarrow> nat set \<Rightarrow> nat set" where
  "lookupModulesRec (RadixNode ty l sb eb cs mi) needle matches =
     (let matches1 = lookup_children cs needle matches in
      if length needle = 0 then matches1 \<union> set mi else matches1)"
| "lookup_children [] needle matches = matches"
| "lookup_children (c # cs) needle matches = lookup_children cs needle (lookup_child c needle matches)"
| "lookup_child c needle matches =
     (case rn_Type c of
        LITERAL \<Rightarrow>
          (if length needle < length (rn_Literal c) then matches
           else if rn_Literal c = take (length (rn_Literal c)) needle
           then lookupModulesRec c (drop (length (rn_Literal c)) needle) matches
           else matches)
      | WILDCARD \<Rightarrow> lookup_wildcard c needle matches
      | SINGLE_WILDCARD \<Rightarrow>
          (if length needle < 1 then matches else lookupModulesRec c (drop 1 needle) matches)
      | BYTE_RANGE \<Rightarrow>
          (if length needle < 1 then matches
           else if go_byte (needle ! 0) \<ge> rn_StartByte c mod 256 \<and> go_byte (needle ! 0) \<le> rn_EndByte c mod 256
           then lookupModulesRec c (drop 1 needle) matches
           else matches)
      | ROOT \<Rightarrow> matches)"
| "lookup_wildcard c [] matches = lookupModulesRec c [] matches"
| "lookup_wildcard c (b # rest) matches = lookup_wildcard c rest (lookupModulesRec c (b # rest) matches)"
  by pat_completeness auto
termination
  by (relation "measures [
        case_sum (case_sum (\<lambda>(n, _). size n) (\<lambda>(cs, _). size_list size cs)) (case_sum (\<lambda>(c, _). size c) (\<lambda>(c, _). size c)),
        case_sum (case_sum (\<lambda>(_, s, _). length s) (\<lambda>(_, s, _). length s))
          (case_sum (\<lambda>(_, s, _). length s) (\<lambda>(_, s, _). length s)),
        case_sum (case_sum (\<lambda>_. 0) (\<lambda>_. 0)) (case_sum (\<lambda>_. 2) (\<lambda>_. 1))]") auto

record kmod_module =
  md_Name :: string
  md_Path :: string
  md_Depends :: "nat list"

record kmod_meta =
  mt_Modules :: "kmod_module list"
  mt_ModuleDeviceMatches :: radix_node

text \<open>\<open>order\<close> lists the keys of the Go map \<^verbatim>\<open>matches\<close> in the order of its iteration. \<^verbatim>\<open>sort.Slice\<close> is not stable;
  every result it can have is the stable sort of some order.\<close>

fun modules_at :: "kmod_module list \<Rightarrow> nat list \<Rightarrow> (radix_error, kmod_module list) result" where
  "modules_at ms [] = Inr []"
| "modules_at ms (i # is) =
     (if i < length ms then rbind (modules_at ms is) (\<lambda>r. Inr (ms ! i # r))
      else Inl (RxPanic ''index out of range''))"

definition LookupModules :: "kmod_meta \<Rightarrow> string \<Rightarrow> (nat set \<Rightarrow> nat list) \<Rightarrow> (radix_error, kmod_module list) result" where
  "LookupModules meta modalias order =
     (let matches = lookupModulesRec (mt_ModuleDeviceMatches meta) modalias {} in
      rbind (modules_at (mt_Modules meta) (order matches)) (\<lambda>mods. Inr (sort_key md_Name mods)))"

definition map_order :: "(nat set \<Rightarrow> nat list) \<Rightarrow> bool" where
  "map_order order \<longleftrightarrow> (\<forall>m. finite m \<longrightarrow> distinct (order m) \<and> set (order m) = m)"

section \<open>Adding a pattern\<close>

fun common_prefix :: "string \<Rightarrow> string \<Rightarrow> nat" where
  "common_prefix (a # as) (b # bs) = (if a = b then Suc (common_prefix as bs) else 0)"
| "common_prefix _ _ = 0"

text \<open>\<open>addPatternRec n parts (Some c)\<close> is the call with the override \<open>c\<close>. \<open>add_child cs p ps cur\<close> is the
  loop over the children that have not been tried yet, with the parts \<open>p # ps\<close> and the current
  part \<open>cur\<close>; it returns the new children.\<close>

function (sequential)
  addPatternRec :: "radix_node \<Rightarrow> radix_node list \<Rightarrow> radix_node option \<Rightarrow> (radix_error, radix_node) result" and
  add_child :: "radix_node list \<Rightarrow> radix_node \<Rightarrow> radix_node list \<Rightarrow> radix_node \<Rightarrow> (radix_error, radix_node list) result" where
  "addPatternRec n [] currPartOverride = Inr n"
| "addPatternRec (RadixNode ty l sb eb cs mi) (p # ps) currPartOverride =
     (let currPart = (case currPartOverride of Some c \<Rightarrow> c | None \<Rightarrow> p) in
      rbind (add_child cs p ps currPart) (\<lambda>cs'. Inr (RadixNode ty l sb eb cs' mi)))"
| "add_child [] p ps currPart =
     rbind (addPatternRec currPart ps None) (\<lambda>n'. Inr [n'])"
| "add_child (RadixNode ty l sb eb ccs mi # cs) p ps currPart =
     (let c = RadixNode ty l sb eb ccs mi;
          try_next = rbind (add_child cs p ps currPart) (\<lambda>cs'. Inr (c # cs')) in
      if ty \<noteq> rn_Type currPart then try_next
      else case ty of
        LITERAL \<Rightarrow>
          (if l = [] \<or> rn_Literal currPart = [] then Inl (RxPanic ''index out of range'')
           else if l ! 0 = rn_Literal currPart ! 0 then
             (let i = common_prefix l (rn_Literal currPart) in
              if i = length l \<and> i = length (rn_Literal currPart) then
                (if ps = [] then Inr (RadixNode ty l sb eb ccs (mi @ rn_ModuleIndex p) # cs)
                 else rbind (addPatternRec c ps None) (\<lambda>c'. Inr (c' # cs)))
              else if i = length l then
                rbind (addPatternRec c (p # ps)
                        (Some (RadixNode LITERAL (drop i (rn_Literal currPart)) 0 0 [] (rn_ModuleIndex currPart))))
                  (\<lambda>c'. Inr (c' # cs))
              else
                (let splitOldPart = RadixNode LITERAL (drop i l) 0 0 ccs mi in
                 if i = length (rn_Literal currPart) then
                   (case ps of
                      [] \<Rightarrow> Inr (RadixNode ty (rn_Literal currPart) sb eb [splitOldPart] (rn_ModuleIndex currPart) # cs)
                    | splitNewPart # ps' \<Rightarrow>
                        rbind (addPatternRec splitNewPart ps' None) (\<lambda>n'.
                          Inr (RadixNode ty (take i (rn_Literal currPart)) sb eb [splitOldPart, n'] [] # cs)))
                 else
                   rbind (addPatternRec (RadixNode LITERAL (drop i (rn_Literal currPart)) 0 0 [] (rn_ModuleIndex currPart)) ps None)
                     (\<lambda>n'. Inr (RadixNode ty (take i (rn_Literal currPart)) sb eb [splitOldPart, n'] [] # cs))))
           else try_next)
      | BYTE_RANGE \<Rightarrow>
          (if sb = rn_StartByte currPart \<and> eb = rn_EndByte currPart then
             rbind (addPatternRec (RadixNode ty l sb eb ccs (if ps = [] then mi @ rn_ModuleIndex p else mi)) ps None)
               (\<lambda>c'. Inr (c' # cs))
           else try_next)
      | SINGLE_WILDCARD \<Rightarrow>
          rbind (addPatternRec (RadixNode ty l sb eb ccs (if ps = [] then mi @ rn_ModuleIndex p else mi)) ps None)
            (\<lambda>c'. Inr (c' # cs))
      | WILDCARD \<Rightarrow>
          rbind (addPatternRec (RadixNode ty l sb eb ccs (if ps = [] then mi @ rn_ModuleIndex p else mi)) ps None)
            (\<lambda>c'. Inr (c' # cs))
      | ROOT \<Rightarrow> try_next)"
  by pat_completeness auto
termination
  by (relation "measures [
        \<lambda>a. case a of Inl (_, ps, _) \<Rightarrow> length ps | Inr (_, p, ps, _) \<Rightarrow> Suc (length ps),
        \<lambda>a. case a of Inl (n, _, _) \<Rightarrow> size n | Inr (cs, _, _, _) \<Rightarrow> size_list size cs]") auto

section \<open>Parsing a pattern\<close>

definition storeCurrentLiteral :: "string \<Rightarrow> radix_node list \<Rightarrow> radix_node list" where
  "storeCurrentLiteral currentLiteral out =
     (if length currentLiteral > 0 then out @ [RadixNode LITERAL currentLiteral 0 0 [] []] else out)"

text \<open>The loop of \<^verbatim>\<open>parsePattern\<close> over the rest of the pattern.\<close>

function parse_loop :: "string \<Rightarrow> string \<Rightarrow> radix_node list \<Rightarrow> (radix_error, radix_node list) result" where
  "parse_loop [] lit out = Inr (storeCurrentLiteral lit out)"
| "parse_loop (ch # rest) lit out =
     (if ch = CHR ''*'' then
        (let out1 = storeCurrentLiteral lit out in
         if out1 \<noteq> [] \<and> rn_Type (last out1) = WILDCARD then parse_loop rest [] out1
         else parse_loop rest [] (out1 @ [RadixNode WILDCARD [] 0 0 [] []]))
      else if ch = CHR ''?'' then
        parse_loop rest [] (storeCurrentLiteral lit out @ [RadixNode SINGLE_WILDCARD [] 0 0 [] []])
      else if ch = CHR ''['' then
        (if length rest < 4 then Inl (RxError ''illegal byte range notation, not enough characters'')
         else if rest ! 1 \<noteq> CHR ''-'' \<or> rest ! 3 \<noteq> CHR '']''
         then Inl (RxError ''illegal byte range notation, incorrect dash or closing character'')
         else if go_byte (rest ! 0) > go_byte (rest ! 2)
         then Inl (RxError ''byte range start byte larger than end byte'')
         else parse_loop (drop 4 rest) []
                (storeCurrentLiteral lit out @ [RadixNode BYTE_RANGE [] (go_byte (rest ! 0)) (go_byte (rest ! 2)) [] []]))
      else if ch = CHR 0x5C then
        (case rest of [] \<Rightarrow> Inl (RxError ''illegal escape character at the end of the string'')
         | e # rest' \<Rightarrow> parse_loop rest' (lit @ [e]) out)
      else parse_loop rest (lit @ [ch]) out)"
  by pat_completeness auto
termination
  by (relation "measure (\<lambda>(p, _, _). length p)") auto

definition parsePattern :: "string \<Rightarrow> (radix_error, radix_node list) result" where
  "parsePattern pattern = parse_loop pattern [] []"

definition set_ModuleIndex :: "nat list \<Rightarrow> radix_node \<Rightarrow> radix_node" where
  "set_ModuleIndex mi n = RadixNode (rn_Type n) (rn_Literal n) (rn_StartByte n) (rn_EndByte n) (rn_Children n) mi"

definition AddPattern :: "radix_node \<Rightarrow> string \<Rightarrow> nat \<Rightarrow> (radix_error, radix_node) result" where
  "AddPattern root pattern moduleIndex =
     rbind (parsePattern pattern) (\<lambda>pp.
       if length pp > 0
       then addPatternRec root (butlast pp @ [set_ModuleIndex [moduleIndex] (last pp)]) None
       else addPatternRec (set_ModuleIndex (rn_ModuleIndex root @ [moduleIndex]) root) pp None)"

section \<open>The meaning of patterns and of trees\<close>

text \<open>The reference: which pattern texts are legal, and which strings one matches.\<close>

function glob_valid :: "string \<Rightarrow> bool" where
  "glob_valid [] = True"
| "glob_valid (ch # rest) =
     (if ch = CHR ''['' then
        length rest \<ge> 4 \<and> rest ! 1 = CHR ''-'' \<and> rest ! 3 = CHR '']'' \<and> rest ! 0 \<le> rest ! 2 \<and> glob_valid (drop 4 rest)
      else if ch = CHR 0x5C then rest \<noteq> [] \<and> glob_valid (drop 1 rest)
      else glob_valid rest)"
  by pat_completeness auto
termination
  by (relation "measure length") auto

function glob_match :: "string \<Rightarrow> string \<Rightarrow> bool" where
  "glob_match [] s \<longleftrightarrow> s = []"
| "glob_match (ch # rest) s \<longleftrightarrow>
     (if ch = CHR ''*'' then \<exists>k\<le>length s. glob_match rest (drop k s)
      else if ch = CHR ''?'' then s \<noteq> [] \<and> glob_match rest (tl s)
      else if ch = CHR ''['' then
        s \<noteq> [] \<and> rest ! 0 \<le> hd s \<and> hd s \<le> rest ! 2 \<and> glob_match (drop 4 rest) (tl s)
      else if ch = CHR 0x5C then
        s \<noteq> [] \<and> rest \<noteq> [] \<and> hd s = hd rest \<and> glob_match (tl rest) (tl s)
      else s \<noteq> [] \<and> hd s = ch \<and> glob_match rest (tl s))"
  by pat_completeness auto
termination
  by (relation "measure (\<lambda>(p, _). length p)") auto

text \<open>What is left of a string after a tree edge has consumed its part of it.\<close>

definition edge :: "radix_node \<Rightarrow> string \<Rightarrow> string set" where
  "edge c s =
     (case rn_Type c of
        LITERAL \<Rightarrow> {t. s = rn_Literal c @ t}
      | WILDCARD \<Rightarrow> (\<lambda>k. drop k s) ` {..length s}
      | SINGLE_WILDCARD \<Rightarrow> {t. \<exists>b. s = b # t}
      | BYTE_RANGE \<Rightarrow> {t. \<exists>b. s = b # t \<and> rn_StartByte c mod 256 \<le> go_byte b \<and> go_byte b \<le> rn_EndByte c mod 256}
      | ROOT \<Rightarrow> {})"

abbreviation look :: "radix_node \<Rightarrow> string \<Rightarrow> nat set" where
  "look n s \<equiv> lookupModulesRec n s {}"

definition looks :: "radix_node list \<Rightarrow> string \<Rightarrow> nat set" where
  "looks cs s = (\<Union>c\<in>set cs. \<Union>t\<in>edge c s. look c t)"

section \<open>Lookup as a union over the matching paths\<close>

definition accumulates :: "('a set \<Rightarrow> 'a set) \<Rightarrow> bool" where
  "accumulates f \<longleftrightarrow> (\<forall>m. f m = m \<union> f {})"

lemma accumulates_id: "accumulates (\<lambda>m. m)"
  by (simp add: accumulates_def)

lemma accumulates_comp: "accumulates f \<Longrightarrow> accumulates g \<Longrightarrow> accumulates (\<lambda>m. g (f m))"
  unfolding accumulates_def by (metis Un_assoc)

lemma accumulates_Un: "accumulates f \<Longrightarrow> accumulates (\<lambda>m. f m \<union> a)"
  unfolding accumulates_def by blast

lemma accumulates_If:
  "(P \<Longrightarrow> accumulates f) \<Longrightarrow> (\<not> P \<Longrightarrow> accumulates g) \<Longrightarrow> accumulates (\<lambda>m. if P then f m else g m)"
  by (cases P) simp_all

lemma accumulatesD: "accumulates f \<Longrightarrow> f m = m \<union> f {}"
  unfolding accumulates_def by blast

lemma lookup_accumulates:
  fixes d :: "nat set"
  shows "accumulates (lookupModulesRec n s)"
    and "accumulates (lookup_children cs s)"
    and "accumulates (lookup_child c s)"
    and "accumulates (lookup_wildcard c s)"
proof (induction n s d and cs s d and c s d and c s d
    rule: lookupModulesRec_lookup_children_lookup_child_lookup_wildcard.induct)
  case (1 ty l sb eb cs mi needle matches)
  then show ?case
    by (cases needle) (simp_all add: Let_def accumulates_Un)
next
  case (2 needle matches)
  then show ?case
    by (simp add: accumulates_id)
next
  case (3 c cs needle d)
  then show ?case
    by (simp only: lookup_children.simps accumulates_comp)
next
  case (4 c needle d)
  then show ?case
    by (cases "rn_Type c") (auto intro!: accumulates_If accumulates_id)
next
  case (5 c matches)
  then show ?case
    by (simp add: accumulates_comp)
next
  case (6 c b rest matches)
  then show ?case
    by (simp add: accumulates_comp)
qed

lemmas lookup_start = lookup_accumulates [THEN accumulatesD]

lemma lookup_wildcard_look: "lookup_wildcard c s {} = (\<Union>k\<in>{..length s}. look c (drop k s))"
proof (induction s)
  case (Cons a s)
  have "lookup_wildcard c (a # s) {} = look c (a # s) \<union> lookup_wildcard c s {}"
    using lookup_start(4) [of c s "look c (a # s)"] by (simp add: Let_def)
  then show ?case
    unfolding Cons.IH by (simp add: atMost_Suc_eq_insert_0 image_image)
qed (simp add: Let_def)

lemma literal_split_iff: "s = l @ t \<longleftrightarrow> length l \<le> length s \<and> l = take (length l) s \<and> t = drop (length l) s"
  by (metis append_eq_conv_conj append_take_drop_id length_append le_add1)

lemma lookup_child_look: "lookup_child c s {} = (\<Union>t\<in>edge c s. look c t)"
proof (cases "rn_Type c")
  case LITERAL
  then show ?thesis
    by (auto simp: edge_def literal_split_iff [of s])
next
  case WILDCARD
  then show ?thesis
    by (simp add: edge_def lookup_wildcard_look del: lookup_wildcard.simps)
next
  case SINGLE_WILDCARD
  then show ?thesis
    by (cases s) (auto simp: edge_def)
next
  case BYTE_RANGE
  then show ?thesis
    by (cases s) (auto simp: edge_def)
qed (simp add: edge_def)

lemma lookup_children_looks: "lookup_children cs s {} = looks cs s"
proof (induction cs)
  case (Cons c cs)
  then show ?case
    using lookup_start(2) [of cs s "lookup_child c s {}"]
    by (simp add: looks_def lookup_child_look Un_commute del: lookup_child.simps)
qed (simp add: looks_def)

definition here :: "nat list \<Rightarrow> string \<Rightarrow> nat set" where
  "here mi s = (if s = [] then set mi else {})"

lemma here_simps [simp]: "here [] s = {}" "here (mi @ mi') s = here mi s \<union> here mi' s"
  by (simp_all add: here_def)

lemma look_node [simp]:
  "look (RadixNode ty l sb eb cs mi) s = looks cs s \<union> here mi s"
  by (simp add: lookup_children_looks here_def)

lemma looks_Nil [simp]: "looks [] s = {}"
  by (simp add: looks_def)

lemma looks_Cons [simp]: "looks (c # cs) s = (\<Union>t\<in>edge c s. look c t) \<union> looks cs s"
  by (simp add: looks_def)

declare lookupModulesRec.simps [simp del]

section \<open>Adding a pattern adds its paths\<close>

text \<open>The strings that are left when a sequence of parts has consumed the front of a string.\<close>

fun residues :: "radix_node list \<Rightarrow> string \<Rightarrow> string set" where
  "residues [] s = {s}"
| "residues (p # ps) s = (\<Union>t\<in>edge p s. residues ps t)"

fun parts_look :: "radix_node list \<Rightarrow> string \<Rightarrow> nat set" where
  "parts_look [] s = {}"
| "parts_look (p # ps) s =
     (\<Union>t\<in>edge p s. parts_look ps t \<union> here (rn_ModuleIndex p) t)"

text \<open>Trees in which no literal below the root is empty, and parts as the parser makes them.\<close>

definition lit_ok :: "radix_node \<Rightarrow> bool" where
  "lit_ok c \<longleftrightarrow> (rn_Type c = LITERAL \<longrightarrow> rn_Literal c \<noteq> [])"

fun wf_tree :: "radix_node \<Rightarrow> bool" where
  "wf_tree (RadixNode ty l sb eb cs mi) \<longleftrightarrow> list_all (\<lambda>c. lit_ok c \<and> wf_tree c) cs"

definition part_ok :: "radix_node \<Rightarrow> bool" where
  "part_ok p \<longleftrightarrow> lit_ok p \<and> rn_Type p \<noteq> ROOT \<and> rn_Children p = []"

definition parts_ok :: "radix_node list \<Rightarrow> bool" where
  "parts_ok ps \<longleftrightarrow> list_all part_ok ps \<and> list_all (\<lambda>p. rn_ModuleIndex p = []) (butlast ps)"

lemma parts_ok_Cons:
  "parts_ok (p # ps) \<longleftrightarrow> part_ok p \<and> parts_ok ps \<and> (ps \<noteq> [] \<longrightarrow> rn_ModuleIndex p = [])"
  by (auto simp: parts_ok_def)

lemma parts_ok_Nil [simp]: "parts_ok []"
  by (simp add: parts_ok_def)

lemma part_ok_wf_tree: "part_ok p \<Longrightarrow> wf_tree p"
  by (cases p) (simp add: part_ok_def)

lemma edge_cong:
  "edge (RadixNode ty l sb eb cs mi) = edge (RadixNode ty l sb eb [] [])"
  by (cases ty) (simp_all add: edge_def fun_eq_iff)

lemma edge_literal_append:
  "edge (RadixNode LITERAL (l @ l') sb eb cs mi) s =
     (\<Union>t\<in>edge (RadixNode LITERAL l sb' eb' cs' mi') s. edge (RadixNode LITERAL l' sb'' eb'' cs'' mi'') t)"
  by (auto simp: edge_def)

lemma common_prefix_le: "common_prefix a b \<le> length a" "common_prefix a b \<le> length b"
  by (induction a b rule: common_prefix.induct) auto

lemma take_common_prefix: "take (common_prefix a b) a = take (common_prefix a b) b"
  by (induction a b rule: common_prefix.induct) auto

lemma common_prefix_pos: "a \<noteq> [] \<Longrightarrow> b \<noteq> [] \<Longrightarrow> a ! 0 = b ! 0 \<Longrightarrow> 0 < common_prefix a b"
  by (cases a; cases b) auto

text \<open>\<open>n'\<close> is \<open>n\<close> with the paths of \<open>ps\<close> added below it; likewise for a list of children.\<close>

definition ext_node :: "radix_node \<Rightarrow> radix_node list \<Rightarrow> radix_node \<Rightarrow> bool" where
  "ext_node n ps n' \<longleftrightarrow> wf_tree n' \<and> edge n' = edge n \<and> (lit_ok n \<longrightarrow> lit_ok n') \<and>
     (\<forall>s. look n' s = look n s \<union> parts_look ps s)"

definition ext_list :: "radix_node list \<Rightarrow> radix_node list \<Rightarrow> radix_node list \<Rightarrow> bool" where
  "ext_list cs ps cs' \<longleftrightarrow> list_all (\<lambda>c. lit_ok c \<and> wf_tree c) cs' \<and>
     (\<forall>s. looks cs' s = looks cs s \<union> parts_look ps s)"

lemma ext_list_skip:
  "ext_list cs ps cs' \<Longrightarrow> lit_ok c \<Longrightarrow> wf_tree c \<Longrightarrow> ext_list (c # cs) ps (c # cs')"
  by (auto simp: ext_list_def)

lemma ext_list_new:
  assumes "ext_node cur ps n'" and "part_ok cur"
  shows "ext_list [] (cur # ps) [n']"
  using assms by (cases cur) (auto simp: ext_list_def ext_node_def part_ok_def)

text \<open>Descending into a child that consumes the same as the current part does.\<close>

lemma ext_list_descend:
  assumes "ext_node c1 ps c'" and "edge c1 = edge c" and "edge cur = edge c" and "lit_ok c1"
    and "\<And>s. look c1 s = look c s \<union> here (rn_ModuleIndex cur) s"
    and "list_all (\<lambda>c. lit_ok c \<and> wf_tree c) cs"
  shows "ext_list (c # cs) (cur # ps) (c' # cs)"
  using assms by (auto simp: ext_list_def ext_node_def)

lemma ext_list_deeper:
  assumes "ext_node c (q # ps) c'" and "lit_ok c"
    and "\<And>s. edge cur s = (\<Union>t\<in>edge c s. edge q t)" and "rn_ModuleIndex cur = rn_ModuleIndex q"
    and "list_all (\<lambda>c. lit_ok c \<and> wf_tree c) cs"
  shows "ext_list (c # cs) (cur # ps) (c' # cs)"
  using assms by (auto simp: ext_list_def ext_node_def)

text \<open>Splitting a literal child.\<close>

lemma ext_list_split:
  assumes "\<And>s. edge c s = (\<Union>t\<in>edge c' s. edge old t)" and "\<And>s. look old s = look c s"
    and "lit_ok c'" and "wf_tree c'" and "list_all (\<lambda>c. lit_ok c \<and> wf_tree c) cs"
    and "\<And>s. look c' s = (\<Union>t\<in>edge old s. look old t) \<union> rest s"
    and "\<And>s. parts_look ps s = (\<Union>t\<in>edge c' s. rest t)"
  shows "ext_list (c # cs) ps (c' # cs)"
  using assms by (auto simp: ext_list_def)

lemma ext_node_self: "wf_tree n \<Longrightarrow> ext_node n [] n"
  by (simp add: ext_node_def)

definition override :: "radix_node list \<Rightarrow> radix_node option \<Rightarrow> radix_node list" where
  "override ps ov = (case ov of None \<Rightarrow> ps | Some c \<Rightarrow> c # tl ps)"

definition override_ok :: "radix_node list \<Rightarrow> radix_node option \<Rightarrow> bool" where
  "override_ok ps ov \<longleftrightarrow>
     (case ov of None \<Rightarrow> True | Some c \<Rightarrow> ps \<noteq> [] \<and> part_ok c \<and> rn_ModuleIndex c = rn_ModuleIndex (hd ps))"

lemma override_simps [simp]:
  "override ps None = ps" "override (p # ps) (Some c) = c # ps" "override_ok ps None"
  "override_ok (p # ps) (Some c) \<longleftrightarrow> part_ok c \<and> rn_ModuleIndex c = rn_ModuleIndex p"
  by (simp_all add: override_def override_ok_def)

lemma edge_same:
  "rn_Type a = rn_Type b \<Longrightarrow> rn_Literal a = rn_Literal b \<Longrightarrow> rn_StartByte a = rn_StartByte b \<Longrightarrow>
   rn_EndByte a = rn_EndByte b \<Longrightarrow> edge a = edge b"
  by (cases "rn_Type b") (simp_all add: edge_def fun_eq_iff)

lemma edge_literal: "rn_Type c = LITERAL \<Longrightarrow> edge c s = {t. s = rn_Literal c @ t}"
  by (simp add: edge_def)

lemma edge_literal_split:
  assumes "rn_Type c = LITERAL" "rn_Type a = LITERAL" "rn_Type b = LITERAL"
    and "rn_Literal c = rn_Literal a @ rn_Literal b"
  shows "edge c s = (\<Union>t\<in>edge a s. edge b t)"
  using assms by (auto simp: edge_literal)

lemma edge_wild_same: "rn_Type a = WILDCARD \<Longrightarrow> rn_Type b = WILDCARD \<Longrightarrow> edge a = edge b"
  "rn_Type a = SINGLE_WILDCARD \<Longrightarrow> rn_Type b = SINGLE_WILDCARD \<Longrightarrow> edge a = edge b"
  "rn_Type a = BYTE_RANGE \<Longrightarrow> rn_Type b = BYTE_RANGE \<Longrightarrow> rn_StartByte a = rn_StartByte b \<Longrightarrow>
     rn_EndByte a = rn_EndByte b \<Longrightarrow> edge a = edge b"
  by (simp_all add: edge_def fun_eq_iff)

lemma lit_ok_other: "rn_Type c \<noteq> LITERAL \<Longrightarrow> lit_ok c"
  by (simp add: lit_ok_def)

text \<open>The branches that only extend an existing child: a wildcard or byte range that is there
  already.\<close>

lemma add_to_existing:
  assumes wf: "list_all (\<lambda>c. lit_ok c \<and> wf_tree c) (RadixNode ty l sb eb ccs mi # cs)"
    and parts: "parts_ok (p # ps)" and cur: "rn_ModuleIndex cur = rn_ModuleIndex p"
    and same: "edge cur = edge (RadixNode ty l sb eb ccs mi)"
    and IH: "\<And>n. wf_tree n \<Longrightarrow> \<exists>n'. f n = Inr n' \<and> ext_node n ps n'"
  shows "\<exists>cs'. rbind (f (RadixNode ty l sb eb ccs (if ps = [] then mi @ rn_ModuleIndex p else mi)))
                 (\<lambda>c'. Inr (c' # cs)) = Inr cs' \<and> ext_list (RadixNode ty l sb eb ccs mi # cs) (cur # ps) cs'"
proof -
  let ?c = "RadixNode ty l sb eb ccs mi"
  let ?c1 = "RadixNode ty l sb eb ccs (if ps = [] then mi @ rn_ModuleIndex p else mi)"
  have "wf_tree ?c1" and lit: "lit_ok ?c1"
    using wf by (auto simp: lit_ok_def)
  with IH obtain c' where c': "f ?c1 = Inr c'" "ext_node ?c1 ps c'"
    by blast
  have "look ?c1 s = look ?c s \<union> here (rn_ModuleIndex cur) s" for s
    using parts cur by (auto simp: parts_ok_Cons)
  then have "ext_list (?c # cs) (cur # ps) (c' # cs)"
    using c'(2) same lit wf by (intro ext_list_descend [where ?c1.0 = ?c1]) (auto intro: edge_same)
  with c'(1) show ?thesis
    by auto
qed

text \<open>The branches that split a literal child.\<close>

lemma add_split:
  assumes wf: "list_all (\<lambda>c. lit_ok c \<and> wf_tree c) (RadixNode LITERAL l sb eb ccs mi # cs)"
    and i: "0 < i" "i < length l" "take i l = pre"
    and new: "\<And>s. parts_look ps s = (\<Union>t\<in>{t. s = pre @ t}. looks new t \<union> here mi' t)"
    and new_wf: "list_all (\<lambda>c. lit_ok c \<and> wf_tree c) new"
  shows "ext_list (RadixNode LITERAL l sb eb ccs mi # cs) ps
           (RadixNode LITERAL pre sb eb (RadixNode LITERAL (drop i l) 0 0 ccs mi # new) mi' # cs)"
proof (rule ext_list_split [where old = "RadixNode LITERAL (drop i l) 0 0 ccs mi"
      and rest = "\<lambda>s. looks new s \<union> here mi' s"])
  show "edge (RadixNode LITERAL l sb eb ccs mi) s =
      (\<Union>t\<in>edge (RadixNode LITERAL pre sb eb (RadixNode LITERAL (drop i l) 0 0 ccs mi # new) mi') s.
         edge (RadixNode LITERAL (drop i l) 0 0 ccs mi) t)" for s
    by (rule edge_literal_split) (simp_all flip: i(3))
qed (use assms in \<open>auto simp: lit_ok_def edge_literal\<close>)

lemma ext_list_fork:
  assumes wf: "list_all (\<lambda>c. lit_ok c \<and> wf_tree c) (RadixNode LITERAL l sb eb ccs mi # cs)"
    and cur: "rn_Type cur = LITERAL" and i: "0 < i" "i < length l" "take i l = take i (rn_Literal cur)"
    and new: "ext_list [] (RadixNode LITERAL (drop i (rn_Literal cur)) 0 0 [] (rn_ModuleIndex cur) # ps) [n']"
  shows "ext_list (RadixNode LITERAL l sb eb ccs mi # cs) (cur # ps)
           (RadixNode LITERAL (take i (rn_Literal cur)) sb eb [RadixNode LITERAL (drop i l) 0 0 ccs mi, n'] [] # cs)"
proof (rule add_split [OF wf i])
  let ?q = "RadixNode LITERAL (drop i (rn_Literal cur)) 0 0 [] (rn_ModuleIndex cur)"
  have "edge cur s = (\<Union>t\<in>{t. s = take i (rn_Literal cur) @ t}. edge ?q t)" for s
    using cur by (auto simp: edge_literal)
  then show "parts_look (cur # ps) s = (\<Union>t\<in>{t. s = take i (rn_Literal cur) @ t}. looks [n'] t \<union> here [] t)" for s
    using new by (simp add: ext_list_def)
qed (use new in \<open>auto simp: ext_list_def\<close>)

lemma ext_list_above:
  assumes wf: "list_all (\<lambda>c. lit_ok c \<and> wf_tree c) (RadixNode LITERAL l sb eb ccs mi # cs)"
    and cur: "rn_Type cur = LITERAL" "rn_ModuleIndex cur = []"
    and i: "0 < i" "i < length l" "take i l = take i (rn_Literal cur)" "i = length (rn_Literal cur)"
    and new: "ext_list [] ps [n']"
  shows "ext_list (RadixNode LITERAL l sb eb ccs mi # cs) (cur # ps)
           (RadixNode LITERAL (take i (rn_Literal cur)) sb eb [RadixNode LITERAL (drop i l) 0 0 ccs mi, n'] [] # cs)"
  using i cur new by (intro add_split wf) (auto simp: edge_literal ext_list_def)

text \<open>The branches of a literal child that shares its first byte with the current part.\<close>

lemma add_literal:
  assumes wf: "list_all (\<lambda>c. lit_ok c \<and> wf_tree c) (RadixNode LITERAL l sb eb ccs mi # cs)"
    and parts: "parts_ok (p # ps)" and cur: "part_ok cur" "rn_ModuleIndex cur = rn_ModuleIndex p" "rn_Type cur = LITERAL"
    and hd: "l ! 0 = rn_Literal cur ! 0"
    and down: "\<And>n. wf_tree n \<Longrightarrow> \<exists>n'. addPatternRec n ps None = Inr n' \<and> ext_node n ps n'"
    and deeper: "\<And>q. part_ok q \<Longrightarrow> rn_ModuleIndex q = rn_ModuleIndex p \<Longrightarrow>
      \<exists>n'. addPatternRec (RadixNode LITERAL l sb eb ccs mi) (p # ps) (Some q) = Inr n' \<and>
           ext_node (RadixNode LITERAL l sb eb ccs mi) (q # ps) n'"
    and split: "\<And>q qs. ps = q # qs \<Longrightarrow> \<exists>n'. addPatternRec q qs None = Inr n' \<and> ext_node q qs n'"
  shows "\<exists>cs'. add_child (RadixNode LITERAL l sb eb ccs mi # cs) p ps cur = Inr cs' \<and>
           ext_list (RadixNode LITERAL l sb eb ccs mi # cs) (cur # ps) cs'"
proof -
  let ?c = "RadixNode LITERAL l sb eb ccs mi"
  let ?lit = "rn_Literal cur"
  let ?i = "common_prefix l ?lit"
  let ?q = "RadixNode LITERAL (drop ?i ?lit) 0 0 [] (rn_ModuleIndex cur)"
  have ne: "l \<noteq> []" "?lit \<noteq> []"
    using wf cur by (auto simp: lit_ok_def part_ok_def)
  have i: "0 < ?i" "?i \<le> length l" "?i \<le> length ?lit" "take ?i l = take ?i ?lit"
    using common_prefix_pos [OF ne hd] common_prefix_le take_common_prefix by auto
  consider (same) "?i = length l" "?i = length ?lit" | (below) "?i = length l" "?i < length ?lit"
    | (above) "?i < length l" "?i = length ?lit" | (fork) "?i < length l" "?i < length ?lit"
    using i by linarith
  then show ?thesis
  proof cases
    case same
    then have "edge cur = edge ?c"
      using i cur by (simp add: edge_literal fun_eq_iff)
    from add_to_existing [OF wf parts cur(2) this down] show ?thesis
      using ne hd cur(3) same by (cases ps) (auto simp: Let_def)
  next
    case below
    have q: "part_ok ?q"
      using below by (simp add: part_ok_def lit_ok_def)
    have eq: "edge cur s = (\<Union>t\<in>edge ?c s. edge ?q t)" for s
      using i below cur by (intro edge_literal_split) (simp_all, metis append_take_drop_id)
    from deeper [OF q] cur(2) obtain n' where n':
      "addPatternRec ?c (p # ps) (Some ?q) = Inr n'" "ext_node ?c (?q # ps) n'"
      by auto
    with ext_list_deeper [OF n'(2) _ eq] show ?thesis
      using ne hd cur(3) below wf by (auto simp: Let_def)
  next
    case above
    show ?thesis
    proof (cases ps)
      case Nil
      have "ext_list (?c # cs) (cur # ps)
          (RadixNode LITERAL ?lit sb eb [RadixNode LITERAL (drop ?i l) 0 0 ccs mi] (rn_ModuleIndex cur) # cs)"
        using above i Nil cur by (intro add_split wf) (auto simp: edge_literal)
      then show ?thesis
        using ne hd cur(3) above Nil by (auto simp: Let_def)
    next
      case (Cons q qs)
      obtain n' where n': "addPatternRec q qs None = Inr n'" "ext_node q qs n'"
        using split [OF Cons] by auto
      have q: "part_ok q" "rn_ModuleIndex cur = []"
        using parts Cons cur(2) by (auto simp: parts_ok_Cons)
      then have new: "ext_list [] ps [n']"
        using n'(2) ext_list_new Cons by blast
      from ext_list_above [OF wf cur(3) q(2) i(1) above(1) i(4) above(2) new]
      show ?thesis
        using ne hd cur(3) above Cons n'(1) by (auto simp: Let_def)
    qed
  next
    case fork
    have q: "part_ok ?q"
      using fork by (simp add: part_ok_def lit_ok_def)
    with down obtain n' where n': "addPatternRec ?q ps None = Inr n'" "ext_node ?q ps n'"
      using part_ok_wf_tree by blast
    have new: "ext_list [] (?q # ps) [n']"
      using n'(2) q ext_list_new by blast
    from ext_list_fork [OF wf cur(3) i(1) fork(1) i(4) new]
    show ?thesis
      using ne hd cur(3) fork n'(1) by (auto simp: Let_def)
  qed
qed

lemma add_child_correct:
  assumes "parts_ok (p # ps)" and "part_ok cur" and "rn_ModuleIndex cur = rn_ModuleIndex p"
    and "list_all (\<lambda>c. lit_ok c \<and> wf_tree c) cs"
    and down: "\<And>n qs. length qs \<le> length ps \<Longrightarrow> parts_ok qs \<Longrightarrow> wf_tree n \<Longrightarrow>
      \<exists>n'. addPatternRec n qs None = Inr n' \<and> ext_node n qs n'"
    and "\<And>c q. c \<in> set cs \<Longrightarrow> wf_tree c \<Longrightarrow> part_ok q \<Longrightarrow> rn_ModuleIndex q = rn_ModuleIndex p \<Longrightarrow>
      \<exists>n'. addPatternRec c (p # ps) (Some q) = Inr n' \<and> ext_node c (q # ps) n'"
  shows "\<exists>cs'. add_child cs p ps cur = Inr cs' \<and> ext_list cs (cur # ps) cs'"
  using assms(4,6)
proof (induction cs)
  case Nil
  obtain n' where "addPatternRec cur ps None = Inr n'" "ext_node cur ps n'"
    using down [of ps cur] assms(1,2) by (auto simp: parts_ok_Cons part_ok_wf_tree)
  then show ?case
    using assms(2) ext_list_new by auto
next
  case (Cons c cs)
  obtain ty l sb eb ccs mi where c: "c = RadixNode ty l sb eb ccs mi"
    by (cases c)
  have wf: "list_all (\<lambda>c. lit_ok c \<and> wf_tree c) (RadixNode ty l sb eb ccs mi # cs)"
    using Cons.prems(1) c by simp
  have "\<exists>cs'. add_child cs p ps cur = Inr cs' \<and> ext_list cs (cur # ps) cs'"
    using Cons by auto
  then have skip: "\<exists>cs'. rbind (add_child cs p ps cur) (\<lambda>cs'. Inr (c # cs')) = Inr cs' \<and> ext_list (c # cs) (cur # ps) cs'"
    using Cons.prems(1) ext_list_skip by fastforce
  have ps: "parts_ok ps"
    using assms(1) by (simp add: parts_ok_Cons)
  note ext = add_to_existing [OF wf assms(1,3) _ down [OF order_refl ps]]
  show ?case
  proof (cases "ty = rn_Type cur")
    case True
    show ?thesis
    proof (cases ty)
      case LITERAL
      have ne: "l \<noteq> []" "rn_Literal cur \<noteq> []"
        using wf assms(2) LITERAL True by (auto simp: lit_ok_def part_ok_def)
      show ?thesis
      proof (cases "l ! 0 = rn_Literal cur ! 0")
        case hd: True
        have "\<exists>n'. addPatternRec q qs None = Inr n' \<and> ext_node q qs n'" if "ps = q # qs" for q qs
          using down [of qs q] ps that by (auto simp: parts_ok_Cons part_ok_wf_tree)
        with hd wf assms(1-3) Cons.prems(2) [of c] down [OF order_refl ps] show ?thesis
          unfolding c LITERAL using LITERAL True by (intro add_literal) auto
      qed (use LITERAL True c ne skip in simp)
    next
      case WILDCARD
      then show ?thesis
        using True ext edge_wild_same(1) [of cur c] c by (simp add: Let_def)
    next
      case SINGLE_WILDCARD
      then show ?thesis
        using True ext edge_wild_same(2) [of cur c] c by (simp add: Let_def)
    next
      case BYTE_RANGE
      show ?thesis
      proof (cases "sb = rn_StartByte cur \<and> eb = rn_EndByte cur")
        case same: True
        then have "edge cur = edge (RadixNode ty l sb eb ccs mi)"
          using True BYTE_RANGE by (intro edge_wild_same(3)) simp_all
        from ext [OF this] same show ?thesis
          unfolding c using True BYTE_RANGE by (simp only: add_child.simps Let_def) simp
      next
        case False
        then show ?thesis
          using skip True BYTE_RANGE unfolding c by (simp only: add_child.simps Let_def) simp
      qed
    next
      case ROOT
      with True assms(2) show ?thesis
        by (simp add: part_ok_def)
    qed
  qed (use c skip in simp)
qed

lemma addPatternRec_correct:
  assumes "parts_ok ps" and "override_ok ps ov" and "wf_tree n"
  shows "\<exists>n'. addPatternRec n ps ov = Inr n' \<and> ext_node n (override ps ov) n'"
  using assms
proof (induction ps arbitrary: n ov rule: length_induct)
  case (1 ps)
  show ?case
  proof (cases ps)
    case Nil
    with 1 show ?thesis
      by (cases ov) (auto simp: override_ok_def intro: ext_node_self)
  next
    case (Cons p qs)
    show ?thesis
      using 1(2-) unfolding Cons
    proof (induction n arbitrary: ov)
      case (RadixNode ty l sb eb cs mi)
      let ?cur = "case ov of Some c \<Rightarrow> c | None \<Rightarrow> p"
      have cur: "part_ok ?cur" "rn_ModuleIndex ?cur = rn_ModuleIndex p" "override (p # qs) ov = ?cur # qs"
        using RadixNode.prems by (cases ov; simp add: parts_ok_Cons)+
      have "\<exists>cs'. add_child cs p qs ?cur = Inr cs' \<and> ext_list cs (?cur # qs) cs'"
      proof (rule add_child_correct)
        show "\<exists>n'. addPatternRec n rs None = Inr n' \<and> ext_node n rs n'"
          if "length rs \<le> length qs" "parts_ok rs" "wf_tree n" for n rs
          using 1(1) that Cons by (metis le_imp_less_Suc length_Cons override_simps(1,3))
        show "\<exists>n'. addPatternRec c (p # qs) (Some q) = Inr n' \<and> ext_node c (q # qs) n'"
          if "c \<in> set cs" "wf_tree c" "part_ok q" "rn_ModuleIndex q = rn_ModuleIndex p" for c q
          using RadixNode.IH [of c "Some q"] RadixNode.prems(1) that by simp
      qed (use RadixNode.prems cur in simp_all)
      then obtain cs' where cs': "add_child cs p qs ?cur = Inr cs'" "ext_list cs (?cur # qs) cs'"
        by blast
      have "edge (RadixNode ty l sb eb cs' mi) = edge (RadixNode ty l sb eb cs mi)"
        by (rule edge_same) simp_all
      then have "ext_node (RadixNode ty l sb eb cs mi) (?cur # qs) (RadixNode ty l sb eb cs' mi)"
        using cs'(2) by (auto simp: ext_node_def ext_list_def lit_ok_def)
      with cs'(1) show ?case
        by (simp add: cur(3))
    qed
  qed
qed

section \<open>The parser agrees with the matcher on the text\<close>

lemma residues_append: "residues (ps @ qs) s = (\<Union>t\<in>residues ps s. residues qs t)"
  by (induction ps arbitrary: s) auto

lemma residues_wildcard_closed:
  assumes "ps \<noteq> []" and "rn_Type (last ps) = WILDCARD" and "t \<in> residues ps s"
  shows "drop k t \<in> residues ps s"
proof -
  obtain qs q where ps: "ps = qs @ [q]" "rn_Type q = WILDCARD"
    using assms(1,2) by (metis append_butlast_last_id)
  with assms(3) obtain u j where "u \<in> residues qs s" "t = drop j u" "j \<le> length u"
    by (auto simp: residues_append edge_def)
  then have "drop k t = drop (min (k + j) (length u)) u"
    by (simp add: min_def)
  then have "drop k t \<in> edge q u"
    using ps(2) by (auto simp: edge_def)
  with \<open>u \<in> residues qs s\<close> show ?thesis
    by (auto simp: ps residues_append)
qed

lemma residues_store:
  "residues (storeCurrentLiteral lit out) s = (\<Union>t\<in>residues out s. {u. t = lit @ u})"
  by (auto simp: storeCurrentLiteral_def residues_append edge_def)

definition parsed_ok :: "radix_node list \<Rightarrow> bool" where
  "parsed_ok ps \<longleftrightarrow> list_all (\<lambda>p. part_ok p \<and> rn_ModuleIndex p = []) ps"

lemma parsed_ok_append [simp]: "parsed_ok (ps @ qs) \<longleftrightarrow> parsed_ok ps \<and> parsed_ok qs"
  by (simp add: parsed_ok_def)

lemma parsed_ok_store: "parsed_ok out \<Longrightarrow> parsed_ok (storeCurrentLiteral lit out)"
  by (simp add: storeCurrentLiteral_def parsed_ok_def part_ok_def lit_ok_def)

text \<open>What the loop of the parser still owes: the parts it will return match a string iff the parts so
  far, followed by the literal under construction, leave a string that the rest of the text matches.\<close>

definition parse_spec :: "string \<Rightarrow> string \<Rightarrow> radix_node list \<Rightarrow> radix_node list \<Rightarrow> bool" where
  "parse_spec pat lit out ps \<longleftrightarrow> (parsed_ok out \<longrightarrow> parsed_ok ps) \<and>
     (\<forall>s. [] \<in> residues ps s \<longleftrightarrow> (\<exists>t\<in>residues (storeCurrentLiteral lit out) s. glob_match pat t))"

lemma parse_spec_step:
  assumes "parse_spec pat' lit' out' ps" and "parsed_ok out \<Longrightarrow> parsed_ok out'"
    and "\<And>s. (\<exists>t\<in>residues (storeCurrentLiteral lit' out') s. glob_match pat' t) \<longleftrightarrow>
              (\<exists>t\<in>residues (storeCurrentLiteral lit out) s. glob_match pat t)"
  shows "parse_spec pat lit out ps"
  using assms unfolding parse_spec_def by blast

lemma store_Nil [simp]: "storeCurrentLiteral [] out = out"
  by (simp add: storeCurrentLiteral_def)

lemma parse_spec_star_again:
  assumes "parse_spec rest [] (storeCurrentLiteral lit out) ps"
    and "storeCurrentLiteral lit out \<noteq> []" and "rn_Type (last (storeCurrentLiteral lit out)) = WILDCARD"
  shows "parse_spec (CHR ''*'' # rest) lit out ps"
  using assms(1)
proof (rule parse_spec_step)
  let ?out = "storeCurrentLiteral lit out"
  show "(\<exists>t\<in>residues (storeCurrentLiteral [] ?out) s. glob_match rest t) \<longleftrightarrow>
      (\<exists>t\<in>residues ?out s. glob_match (CHR ''*'' # rest) t)" for s
    using residues_wildcard_closed [OF assms(2,3), of _ s] by simp (metis drop_0 le0)
qed (simp add: parsed_ok_store)

text \<open>A part that is appended to the output stands for the piece of pattern text it was made from.\<close>

lemma parse_spec_part:
  assumes "parse_spec rest [] (storeCurrentLiteral lit out @ [q]) ps" and "parsed_ok [q]"
    and "\<And>t. glob_match pat t \<longleftrightarrow> (\<exists>u\<in>edge q t. glob_match rest u)"
  shows "parse_spec pat lit out ps"
  using assms(1) by (rule parse_spec_step) (use assms(2,3) in \<open>auto simp: parsed_ok_store residues_append\<close>)

lemma parse_spec_char:
  assumes "parse_spec rest (lit @ [ch]) out ps"
    and "\<And>t. glob_match pat t \<longleftrightarrow> (\<exists>u. t = ch # u \<and> glob_match rest u)"
  shows "parse_spec pat lit out ps"
  using assms(1) by (rule parse_spec_step) (use assms(2) in \<open>auto simp: residues_store\<close>)

lemma parse_parts_ok:
  "parsed_ok [RadixNode WILDCARD [] 0 0 [] []]" "parsed_ok [RadixNode SINGLE_WILDCARD [] 0 0 [] []]"
  "parsed_ok [RadixNode BYTE_RANGE [] a b [] []]"
  by (simp_all add: parsed_ok_def part_ok_def lit_ok_def)

lemma go_byte_mod [simp]: "go_byte c mod 256 = go_byte c"
  using of_char_mod_256 [where 'a = nat] by simp

lemma parse_loop_correct:
  "if glob_valid pat then \<exists>ps. parse_loop pat lit out = Inr ps \<and> parse_spec pat lit out ps
   else \<exists>e. parse_loop pat lit out = Inl (RxError e)"
proof (induction pat lit out rule: parse_loop.induct)
  case (1 lit out)
  then show ?case
    by (auto simp: parse_spec_def parsed_ok_store)
next
  case (2 ch rest lit out)
  let ?out = "storeCurrentLiteral lit out"
  consider (again) "ch = CHR ''*''" "?out \<noteq> [] \<and> rn_Type (last ?out) = WILDCARD"
    | (star) "ch = CHR ''*''" "\<not> (?out \<noteq> [] \<and> rn_Type (last ?out) = WILDCARD)"
    | (one) "ch = CHR ''?''" | (range) "ch = CHR ''[''"
    | (esc) "ch = CHR 0x5C" | (other) "ch \<notin> {CHR ''*'', CHR ''?'', CHR ''['', CHR 0x5C}"
    by auto
  then show ?case
  proof cases
    case again
    with 2(1) [OF again(1) refl again(2)] show ?thesis
      using parse_spec_star_again by (auto simp: Let_def)
  next
    case star
    have "parse_spec (ch # rest) lit out ps"
      if "parse_spec rest [] (?out @ [RadixNode WILDCARD [] 0 0 [] []]) ps" for ps
      using that parse_parts_ok(1) by (rule parse_spec_part) (simp add: star edge_def Bex_def)
    with 2(2) [OF star(1) refl star(2)] star show ?thesis
      by (auto simp: Let_def)
  next
    case one
    have "parse_spec (ch # rest) lit out ps"
      if "parse_spec rest [] (?out @ [RadixNode SINGLE_WILDCARD [] 0 0 [] []]) ps" for ps
      using that parse_parts_ok(2) by (rule parse_spec_part) (auto simp: one edge_def neq_Nil_conv)
    with 2(3) one show ?thesis
      by auto
  next
    case range
    have "parse_spec (ch # rest) lit out ps"
      if "parse_spec (drop 4 rest) []
            (?out @ [RadixNode BYTE_RANGE [] (go_byte (rest ! 0)) (go_byte (rest ! 2)) [] []]) ps" for ps
      using that parse_parts_ok(3) by (rule parse_spec_part)
        (auto simp: range edge_def neq_Nil_conv less_eq_char_def)
    with 2(4) range show ?thesis
      by (auto simp: less_eq_char_def)
  next
    case esc
    show ?thesis
    proof (cases rest)
      case (Cons e rest')
      have "parse_spec (ch # rest) lit out ps" if "parse_spec rest' (lit @ [e]) out ps" for ps
        using that by (rule parse_spec_char) (auto simp: esc Cons neq_Nil_conv)
      with 2(5) esc Cons show ?thesis
        by auto
    qed (use esc in simp)
  next
    case other
    have "parse_spec (ch # rest) lit out ps" if "parse_spec rest (lit @ [ch]) out ps" for ps
      using that by (rule parse_spec_char) (use other in \<open>auto simp: neq_Nil_conv\<close>)
    with 2(6) other show ?thesis
      by auto
  qed
qed

section \<open>Adding a pattern and looking up\<close>

lemma set_ModuleIndex_simps [simp]:
  "rn_Type (set_ModuleIndex mi n) = rn_Type n" "rn_Literal (set_ModuleIndex mi n) = rn_Literal n"
  "rn_Children (set_ModuleIndex mi n) = rn_Children n" "rn_ModuleIndex (set_ModuleIndex mi n) = mi"
  "edge (set_ModuleIndex mi n) = edge n"
  by (simp_all add: set_ModuleIndex_def edge_same [of "RadixNode _ _ _ _ _ mi" n])

lemma parts_look_last:
  "parsed_ok ps \<Longrightarrow> parts_look (ps @ [set_ModuleIndex [i] q]) s = (if [] \<in> residues (ps @ [q]) s then {i} else {})"
  by (induction ps arbitrary: s) (auto simp: here_def parsed_ok_def split: if_splits)

lemma parsed_parts_ok: "parsed_ok (ps @ [q]) \<Longrightarrow> parts_ok (ps @ [set_ModuleIndex [i] q])"
  by (auto simp: parsed_ok_def parts_ok_def part_ok_def lit_ok_def list_all_iff)

lemma AddPattern_cases:
  assumes "wf_tree root"
  shows "if glob_valid pattern
    then \<exists>root'. AddPattern root pattern i = Inr root' \<and> wf_tree root' \<and>
           (\<forall>s. look root' s = look root s \<union> (if glob_match pattern s then {i} else {}))
    else \<exists>e. AddPattern root pattern i = Inl (RxError e)"
proof (cases "glob_valid pattern")
  case True
  then obtain pp where pp: "parsePattern pattern = Inr pp" "parse_spec pattern [] [] pp"
    using parse_loop_correct [of pattern "[]" "[]"] by (auto simp: parsePattern_def)
  have ok: "parsed_ok pp" and match: "\<And>s. [] \<in> residues pp s \<longleftrightarrow> glob_match pattern s"
    using pp(2) by (auto simp: parse_spec_def parsed_ok_def)
  show ?thesis
  proof (cases pp rule: rev_cases)
    case Nil
    then have "glob_match pattern s \<longleftrightarrow> s = []" for s
      using match [of s] by auto
    then show ?thesis
      using True pp(1) Nil assms by (cases root) (auto simp: AddPattern_def set_ModuleIndex_def here_def)
  next
    case (snoc ps q)
    let ?parts = "ps @ [set_ModuleIndex [i] q]"
    have "\<exists>n'. addPatternRec root ?parts None = Inr n' \<and> ext_node root ?parts n'"
      using addPatternRec_correct [of ?parts None root] parsed_parts_ok ok snoc assms by simp
    then show ?thesis
      using True pp(1) snoc parts_look_last [of ps i q] match ok
      by (auto simp: AddPattern_def ext_node_def)
  qed
next
  case False
  then show ?thesis
    using parse_loop_correct [of pattern "[]" "[]"] by (auto simp: AddPattern_def parsePattern_def)
qed

text \<open>A series of \<^verbatim>\<open>AddPattern\<close> calls on one tree, stopped by the first error.\<close>

fun add_patterns :: "radix_node \<Rightarrow> (string \<times> nat) list \<Rightarrow> (radix_error, radix_node) result" where
  "add_patterns root [] = Inr root"
| "add_patterns root ((p, i) # ps) = rbind (AddPattern root p i) (\<lambda>root'. add_patterns root' ps)"

definition empty_tree :: radix_node where
  "empty_tree = RadixNode ROOT [] 0 0 [] []"

lemma empty_tree_simps [simp]: "wf_tree empty_tree" "look empty_tree s = {}"
  by (simp_all add: empty_tree_def)

lemma add_patterns_look:
  assumes "wf_tree root" and "list_all (\<lambda>(p, _). glob_valid p) ps"
  shows "\<exists>root'. add_patterns root ps = Inr root' \<and> wf_tree root' \<and>
           (\<forall>s. look root' s = look root s \<union> {i. \<exists>p. (p, i) \<in> set ps \<and> glob_match p s})"
  using assms
proof (induction ps arbitrary: root)
  case (Cons a ps)
  obtain p i where a: "a = (p, i)"
    by (cases a)
  obtain r where r: "AddPattern root p i = Inr r" "wf_tree r"
      "\<And>s. look r s = look root s \<union> (if glob_match p s then {i} else {})"
    using AddPattern_cases [OF Cons.prems(1), of p i] Cons.prems(2) by (auto simp: a)
  obtain r' where "add_patterns r ps = Inr r'" "wf_tree r'"
      "\<And>s. look r' s = look r s \<union> {i. \<exists>p. (p, i) \<in> set ps \<and> glob_match p s}"
    using Cons.IH [OF r(2)] Cons.prems(2) by auto
  with r show ?case
    by (auto simp: a)
qed simp

text \<open>C9: whatever patterns are added to an empty tree, in whatever order, no call fails or panics as
  long as the patterns are well-formed, and a lookup then finds exactly the indices whose pattern
  matches the string, as the matcher on the pattern text decides it. An ill-formed pattern is refused
  with an error.\<close>

theorem radix_tree_matches_patterns:
  assumes "list_all (\<lambda>(p, _). glob_valid p) ps" and "\<not> glob_valid bad"
  shows "\<exists>root. add_patterns empty_tree ps = Inr root \<and>
           (\<forall>s. lookupModulesRec root s {} = {i. \<exists>p. (p, i) \<in> set ps \<and> glob_match p s}) \<and>
           (\<exists>e. AddPattern root bad i = Inl (RxError e))"
  using add_patterns_look [OF _ assms(1), of empty_tree] AddPattern_cases [of _ bad i] assms(2) by fastforce

lemma matching_Cons:
  "{i. \<exists>p. (p, i) \<in> set ((q, j) # ps) \<and> P p} = (if P q then {j} else {}) \<union> {i. \<exists>p. (p, i) \<in> set ps \<and> P p}"
  by auto

lemma matching_Nil: "{i. \<exists>p. (p, i) \<in> set [] \<and> P p} = {}"
  by simp

lemma radix_tree_matches_patterns_witness:
  "\<exists>root. add_patterns empty_tree [(''usb:v1*'', 3), (''usb:v12?'', 4), (''us[a-c]'', 5)] = Inr root \<and>
     lookupModulesRec root ''usb:v12x'' {} = {3, 4} \<and> (\<exists>e. AddPattern root ''a[z'' 7 = Inl (RxError e))"
proof -
  let ?ps = "[(''usb:v1*'', 3), (''usb:v12?'', 4), (''us[a-c]'', 5)] :: (string \<times> nat) list"
  have 1: "list_all (\<lambda>(p, _). glob_valid p) ?ps" "\<not> glob_valid ''a[z''"
    by (simp_all add: less_eq_char_def)
  have "glob_match ''usb:v1*'' ''usb:v12x''" "glob_match ''usb:v12?'' ''usb:v12x''" "\<not> glob_match ''us[a-c]'' ''usb:v12x''"
    by (auto intro!: exI [of _ 2])
  then have found: "{i. \<exists>p. (p, i) \<in> set ?ps \<and> glob_match p ''usb:v12x''} = {3, 4}"
    by (simp add: matching_Cons matching_Nil insert_commute del: glob_match.simps list.set)
  obtain root where "add_patterns empty_tree ?ps = Inr root"
      "\<And>s. lookupModulesRec root s {} = {i. \<exists>p. (p, i) \<in> set ?ps \<and> glob_match p s}"
      "\<exists>e. AddPattern root ''a[z'' 7 = Inl (RxError e)"
    using radix_tree_matches_patterns [OF 1, of 7] by blast
  then show ?thesis
    using found by (intro exI [of _ root] conjI) (assumption | simp only:)+
qed

end
