(* ===== verification/Kmod.thy ===== *)
theory Kmod
  imports Radix
begin

text \<open>
  Kernel module metadata and loading, \<^verbatim>\<open>osbase/kmod\<close> (\<^verbatim>\<open>modinfo.go\<close>, \<^verbatim>\<open>meta.go\<close>, \<^verbatim>\<open>manager.go\<close>).

  \<^item> A \<^verbatim>\<open>ModuleInfo\<close> is a Go map from keys to lists of values (\<open>gmap\<close>). The text it is parsed
    from arrives in the pieces that the reads of a \<^verbatim>\<open>bufio.Scanner\<close> return; the end of the data is
    a read of its own, as with the readers of files. Tokens are taken to be below the scanner's
    limit of 64 KiB.
  \<^item> The kernel is a parameter: \<open>kern trace path\<close> is the outcome of opening and loading the
    module file \<open>path\<close> after the attempts in \<open>trace\<close> (the latest first).
  \<^item> \<^verbatim>\<open>loadModuleRecursive\<close> follows dependencies without a check for cycles. Its model takes
    fuel and \<open>None\<close> is running out of it; the number of modules is enough if there is no cycle.
\<close>

section \<open>Module information\<close>

type_synonym module_info = "(string, string list) gmap"

definition mi_Get :: "module_info \<Rightarrow> string \<Rightarrow> string" where
  "mi_Get i key = (if length (gm_get [] i key) > 0 then gm_get [] i key ! 0 else [])"

definition mi_Name :: "module_info \<Rightarrow> string" where
  "mi_Name i = mi_Get i ''name''"

definition mi_Authors :: "module_info \<Rightarrow> string list" where
  "mi_Authors i = gm_get [] i ''author''"

definition mi_Description :: "module_info \<Rightarrow> string" where
  "mi_Description i = mi_Get i ''description''"

definition mi_GetDependencies :: "module_info \<Rightarrow> string list" where
  "mi_GetDependencies i =
     (if length (gm_get [] i ''depends'') = 1 \<and> gm_get [] i ''depends'' ! 0 = [] then []
      else gm_get [] i ''depends'')"

record optional_dependencies =
  od_Pre :: "string list"
  od_Post :: "string list"

datatype softdep_mode = MODE_IDLE | MODE_PRE | MODE_POST

fun softdep_tokens :: "softdep_mode \<Rightarrow> string list \<Rightarrow> optional_dependencies \<Rightarrow> optional_dependencies" where
  "softdep_tokens state [] out = out"
| "softdep_tokens state (token # tokens) out =
     (if token = ''pre:'' then softdep_tokens MODE_PRE tokens out
      else if token = ''post:'' then softdep_tokens MODE_POST tokens out
      else softdep_tokens state tokens
             (case state of
                MODE_PRE \<Rightarrow> out\<lparr>od_Pre := od_Pre out @ [token]\<rparr>
              | MODE_POST \<Rightarrow> out\<lparr>od_Post := od_Post out @ [token]\<rparr>
              | MODE_IDLE \<Rightarrow> out))"

definition mi_GetOptionalDependencies :: "module_info \<Rightarrow> optional_dependencies" where
  "mi_GetOptionalDependencies i =
     foldl (\<lambda>out s. softdep_tokens MODE_IDLE (go_fields s) out)
       \<lparr>od_Pre = [], od_Post = []\<rparr> (gm_get [] i ''softdep'')"

definition mi_Aliases :: "module_info \<Rightarrow> string list" where
  "mi_Aliases i = gm_get [] i ''alias''"

definition mi_Firmware :: "module_info \<Rightarrow> string list" where
  "mi_Firmware i = gm_get [] i ''firmware''"

definition mi_Licenses :: "module_info \<Rightarrow> string list" where
  "mi_Licenses i = gm_get [] i ''license''"

definition mi_IsInTree :: "module_info \<Rightarrow> bool" where
  "mi_IsInTree i \<longleftrightarrow> mi_Get i ''intree'' = ''Y''"

section \<open>Scanning for NUL-terminated entries\<close>

abbreviation NUL :: char where
  "NUL \<equiv> CHR 0x00"

text \<open>A split function returns how far to advance and a token; \<^verbatim>\<open>bytes.TrimLeft\<close> of an empty slice
  is nil, which is no token.\<close>

definition nullByteSplit :: "string \<Rightarrow> bool \<Rightarrow> nat \<times> string option" where
  "nullByteSplit data atEOF =
     (if atEOF \<and> length data = 0 then (0, None)
      else case index_of NUL data of
        Some i \<Rightarrow>
          (let token = dropWhile (\<lambda>c. c = NUL) (take i data) in
           (i + 1, if token = [] then None else Some token))
      | None \<Rightarrow> if atEOF then (length data, Some data) else (0, None))"

text \<open>The tokens of \<^verbatim>\<open>bufio.Scanner\<close> with that split function: \<open>buf\<close> is the unscanned data in
  the buffer, \<open>chunks\<close> what the following reads return, \<open>eof\<close> that a read has reported the end.\<close>

function scan_tokens :: "string list \<Rightarrow> string \<Rightarrow> bool \<Rightarrow> string list" where
  "scan_tokens chunks buf eof =
     (let (advance, token) = (if buf \<noteq> [] \<or> eof then nullByteSplit buf eof else (0, None));
          buf1 = drop advance buf in
      case token of
        Some t \<Rightarrow> t # scan_tokens chunks buf1 eof
      | None \<Rightarrow>
          if eof then []
          else case chunks of
            [] \<Rightarrow> scan_tokens [] buf1 True
          | c # cs \<Rightarrow> scan_tokens cs (buf1 @ c) False)"
  by pat_completeness auto
termination
  apply (relation "measures [\<lambda>(cs, _, _). length cs, \<lambda>(_, _, eof). if eof then 0 else 1, \<lambda>(_, buf, _). length buf]")
  apply (auto simp: nullByteSplit_def Let_def split: if_splits option.splits dest: index_of_SomeD)
  done

declare scan_tokens.simps [simp del]

definition add_entry :: "module_info \<Rightarrow> string \<Rightarrow> module_info" where
  "add_entry out tok =
     (case go_cut (CHR ''='') tok of
        None \<Rightarrow> out
      | Some (key, value) \<Rightarrow> AList.update key (gm_get [] out key @ [value]) out)"

text \<open>The sections of an ELF file as the standard library's reader presents them: the name, and the
  pieces in which the content is read.\<close>

fun GetModuleInfo :: "(string \<times> string list) list \<Rightarrow> (string, module_info) result" where
  "GetModuleInfo [] = Inl ''no .modinfo section found''"
| "GetModuleInfo ((name, chunks) # sections) =
     (if name = ''.modinfo'' then Inr (foldl add_entry [] (scan_tokens chunks [] False))
      else GetModuleInfo sections)"

record builtin_state =
  bs_out :: "module_info list"
  bs_currModule :: module_info

definition builtin_flush :: "builtin_state \<Rightarrow> builtin_state" where
  "builtin_flush s = (if mi_Name (bs_currModule s) \<noteq> [] then s\<lparr>bs_out := bs_out s @ [bs_currModule s]\<rparr> else s)"

definition builtin_step :: "builtin_state \<Rightarrow> string \<Rightarrow> builtin_state" where
  "builtin_step s tok =
     (case go_cut (CHR ''.'') tok of
        None \<Rightarrow> s
      | Some (modName, entry) \<Rightarrow>
          (let s1 = (if modName \<noteq> mi_Name (bs_currModule s)
                     then (builtin_flush s)\<lparr>bs_currModule := [(''name'', [modName])]\<rparr> else s) in
           s1\<lparr>bs_currModule := add_entry (bs_currModule s1) entry\<rparr>))"

fun seen_twice :: "string list \<Rightarrow> string list \<Rightarrow> bool" where
  "seen_twice seen [] = False"
| "seen_twice seen (n # ns) = (n \<in> set seen \<or> seen_twice (n # seen) ns)"

definition GetBuiltinModulesInfo :: "string list \<Rightarrow> (string, module_info list) result" where
  "GetBuiltinModulesInfo chunks =
     (let s = builtin_flush (foldl builtin_step \<lparr>bs_out = [], bs_currModule = []\<rparr> (scan_tokens chunks [] False)) in
      if seen_twice [] (map mi_Name (bs_out s)) then Inl ''duplicate/out-of-order module metadata''
      else Inr (bs_out s))"

section \<open>Building the metadata\<close>

record meta_state =
  ms_meta :: kmod_meta
  ms_modIndices :: "(string, nat) gmap"
  ms_modInfoMap :: "(string, module_info) gmap"
  ms_i :: nat

fun add_aliases :: "radix_node \<Rightarrow> module_info \<Rightarrow> string list \<Rightarrow> nat \<Rightarrow> (radix_error, radix_node) result" where
  "add_aliases tree m [] i = Inr tree"
| "add_aliases tree m (p # ps) i =
     (if mi_Get m ''path'' = [] then add_aliases tree m ps i
      else rbind (AddPattern tree p i) (\<lambda>tree'. add_aliases tree' m ps i))"

definition meta_step :: "meta_state \<Rightarrow> module_info \<Rightarrow> (radix_error, meta_state) result" where
  "meta_step s m =
     rbind (add_aliases (mt_ModuleDeviceMatches (ms_meta s)) m (mi_Aliases m) (ms_i s)) (\<lambda>tree.
       Inr \<lparr>ms_meta = \<lparr>mt_Modules = mt_Modules (ms_meta s) @
                          [\<lparr>md_Name = mi_Name m, md_Path = mi_Get m ''path'', md_Depends = []\<rparr>],
                        mt_ModuleDeviceMatches = tree\<rparr>,
            ms_modIndices = AList.update (mi_Name m) (ms_i s) (ms_modIndices s),
            ms_modInfoMap = AList.update (mi_Name m) m (ms_modInfoMap s),
            ms_i = (ms_i s + 1) mod 2 ^ 32\<rparr>)"

fun meta_steps :: "meta_state \<Rightarrow> module_info list \<Rightarrow> (radix_error, meta_state) result" where
  "meta_steps s [] = Inr s"
| "meta_steps s (m # ms) = rbind (meta_step s m) (\<lambda>s'. meta_steps s' ms)"

definition resolve_depends :: "meta_state \<Rightarrow> kmod_module \<Rightarrow> kmod_module" where
  "resolve_depends s m =
     m\<lparr>md_Depends := md_Depends m @
         map (gm_get 0 (ms_modIndices s)) (mi_GetDependencies (gm_get [] (ms_modInfoMap s) (md_Name m)))\<rparr>"

definition MakeMetaFromModuleInfo :: "module_info list \<Rightarrow> (radix_error, kmod_meta) result" where
  "MakeMetaFromModuleInfo modinfos =
     rbind (meta_steps \<lparr>ms_meta = \<lparr>mt_Modules = [], mt_ModuleDeviceMatches = empty_tree\<rparr>,
                        ms_modIndices = [], ms_modInfoMap = [], ms_i = 0\<rparr> modinfos) (\<lambda>s.
       Inr ((ms_meta s)\<lparr>mt_Modules := map (resolve_depends s) (mt_Modules (ms_meta s))\<rparr>))"

section \<open>The manager\<close>

datatype load_outcome = OpenFailed | Loaded | LoadFailed (eexist: bool)

type_synonym kmod_kernel = "string list \<Rightarrow> string \<Rightarrow> load_outcome"

datatype load_error = ErrNotFound string | ErrOpen | ErrLoad string | ErrPanic string

record manager =
  mg_meta :: kmod_meta
  mg_moduleIndexes :: "(string, nat) gmap"
  mg_loadedModules :: "nat set"
  mg_trace :: "string list"

definition module_indexes :: "kmod_module list \<Rightarrow> (string, nat) gmap" where
  "module_indexes ms = foldl (\<lambda>d (i, m). AList.update (md_Name m) i d) [] (enumerate 0 ms)"

text \<open>\<open>procModules\<close> is the text of \<^verbatim>\<open>/proc/modules\<close> by lines, \<open>None\<close> if it cannot be opened.\<close>

definition NewManager :: "kmod_meta \<Rightarrow> string list option \<Rightarrow> (load_error, manager) result" where
  "NewManager meta procModules =
     (case procModules of
        None \<Rightarrow> Inl ErrOpen
      | Some lines \<Rightarrow>
          (let indexes = module_indexes (mt_Modules meta) in
           Inr \<lparr>mg_meta = meta, mg_moduleIndexes = indexes,
                mg_loadedModules =
                  foldl (\<lambda>loaded line.
                      case go_fields line of
                        [] \<Rightarrow> loaded
                      | name # _ \<Rightarrow> (case map_of indexes name of None \<Rightarrow> loaded | Some i \<Rightarrow> insert i loaded)) {} lines,
                mg_trace = []\<rparr>))"

text \<open>The function returns the error, if any, and the manager with what was loaded until then.\<close>

fun loadModuleRecursive :: "kmod_kernel \<Rightarrow> nat \<Rightarrow> manager \<Rightarrow> nat \<Rightarrow> (load_error option \<times> manager) option"
  and load_deps :: "kmod_kernel \<Rightarrow> nat \<Rightarrow> manager \<Rightarrow> nat list \<Rightarrow> (load_error option \<times> manager) option" where
  "loadModuleRecursive kern 0 s modIdx = None"
| "loadModuleRecursive kern (Suc fuel) s modIdx =
     (if modIdx \<in> mg_loadedModules s then Some (None, s)
      else if modIdx \<ge> length (mt_Modules (mg_meta s)) then Some (Some (ErrPanic ''index out of range''), s)
      else
        (let modMeta = mt_Modules (mg_meta s) ! modIdx in
         if md_Path modMeta = [] then Some (None, s)
         else
           (case load_deps kern fuel s (md_Depends modMeta) of
              None \<Rightarrow> None
            | Some (Some err, s1) \<Rightarrow> Some (Some err, s1)
            | Some (None, s1) \<Rightarrow>
                (let s2 = s1\<lparr>mg_trace := md_Path modMeta # mg_trace s1\<rparr>;
                     done = s2\<lparr>mg_loadedModules := insert modIdx (mg_loadedModules s2)\<rparr> in
                 case kern (mg_trace s1) (md_Path modMeta) of
                   OpenFailed \<Rightarrow> Some (Some ErrOpen, s2)
                 | Loaded \<Rightarrow> Some (None, done)
                 | LoadFailed is_EEXIST \<Rightarrow>
                     (if is_EEXIST then Some (Some (ErrLoad (md_Name modMeta)), s2) else Some (None, done))))))"
| "load_deps kern fuel s [] = Some (None, s)"
| "load_deps kern fuel s (dep # deps) =
     (case loadModuleRecursive kern fuel s dep of
        None \<Rightarrow> None
      | Some (Some err, s1) \<Rightarrow> Some (Some err, s1)
      | Some (None, s1) \<Rightarrow> load_deps kern fuel s1 deps)"

definition mgr_LoadModule :: "kmod_kernel \<Rightarrow> nat \<Rightarrow> manager \<Rightarrow> string \<Rightarrow> (load_error option \<times> manager) option" where
  "mgr_LoadModule kern fuel s name =
     (case map_of (mg_moduleIndexes s) name of
        None \<Rightarrow> Some (Some (ErrNotFound name), s)
      | Some modIdx \<Rightarrow> loadModuleRecursive kern fuel s modIdx)"

text \<open>\<open>order\<close> lists the keys of the Go map of matches in the order of its iteration.\<close>

definition LoadModulesForDevice ::
    "kmod_kernel \<Rightarrow> nat \<Rightarrow> (nat set \<Rightarrow> nat list) \<Rightarrow> manager \<Rightarrow> string \<Rightarrow> (load_error option \<times> manager) option" where
  "LoadModulesForDevice kern fuel order s devModalias =
     (let matches = lookupModulesRec (mt_ModuleDeviceMatches (mg_meta s)) devModalias {} in
      load_deps kern fuel s (order matches))"

section \<open>Entries survive being read in pieces\<close>

lemma index_of_first: "x \<notin> set a \<Longrightarrow> index_of x (a @ x # b) = Some (length a)"
  by (induction a) auto

lemma nullByteSplit_found:
  "e \<noteq> [] \<Longrightarrow> NUL \<notin> set e \<Longrightarrow> nullByteSplit (e @ NUL # b) eof = (Suc (length e), Some e)"
proof -
  assume e: "e \<noteq> []" "NUL \<notin> set e"
  then have "dropWhile (\<lambda>c. c = NUL) e = e"
    by (cases e) auto
  with e show ?thesis
    by (simp add: nullByteSplit_def index_of_first)
qed

lemma nullByteSplit_none: "NUL \<notin> set b \<Longrightarrow> nullByteSplit b False = (0, None)"
  by (auto simp: nullByteSplit_def)

lemma nullByteSplit_eof: "NUL \<notin> set b \<Longrightarrow> b \<noteq> [] \<Longrightarrow> nullByteSplit b True = (length b, Some b)"
  by (auto simp: nullByteSplit_def)

lemma prefix_with_sep:
  assumes "buf @ rest = e @ x # rst" and "x \<notin> set e" and "x \<in> set buf"
  obtains b where "buf = e @ x # b" "b @ rest = rst"
proof -
  have "length e < length buf"
  proof (rule ccontr)
    assume "\<not> length e < length buf"
    then have "buf = take (length buf) e"
      using assms(1) by (metis append_eq_append_conv_if not_less)
    with assms(2,3) show False
      by (metis in_set_takeD)
  qed
  then show thesis
    using assms(1) that by (auto simp: append_eq_append_conv2 append_eq_Cons_conv)
qed

lemma nullByteSplit_end: "nullByteSplit [] True = (0, None)"
  by (simp add: nullByteSplit_def)

lemma scan_at_end: "scan_tokens cs [] True = []"
  by (subst scan_tokens.simps) (simp add: nullByteSplit_end)

definition terminated :: "string list \<Rightarrow> string \<Rightarrow> string" where
  "terminated es t = concat (map (\<lambda>e. e @ [NUL]) es) @ t"

definition entry_ok :: "string \<Rightarrow> bool" where
  "entry_ok e \<longleftrightarrow> e \<noteq> [] \<and> NUL \<notin> set e"

lemma scan_tokens_terminated:
  assumes "buf @ concat chunks = terminated es t" and "list_all entry_ok es" and "NUL \<notin> set t"
    and "eof \<Longrightarrow> chunks = []"
  shows "scan_tokens chunks buf eof = es @ (if t = [] then [] else [t])"
  using assms
proof (induction chunks buf eof arbitrary: es rule: scan_tokens.induct)
  case (1 chunks buf eof)
  show ?case
  proof (cases "NUL \<in> set buf")
    case True
    then obtain e es' where es: "es = e # es'"
      using "1.prems" by (cases es) (auto simp: terminated_def)
    have e: "e \<noteq> []" "NUL \<notin> set e"
      using "1.prems"(2) es by (auto simp: entry_ok_def)
    obtain b where b: "buf = e @ NUL # b" "b @ concat chunks = terminated es' t"
      using prefix_with_sep [OF _ e(2) True] "1.prems"(1) es by (auto simp: terminated_def)
    have split: "nullByteSplit buf eof = (Suc (length e), Some e)"
      unfolding b(1) using e by (rule nullByteSplit_found)
    have split': "(if buf \<noteq> [] \<or> eof then nullByteSplit buf eof else (0, None)) = (Suc (length e), Some e)"
      using True split by auto
    have drop: "drop (Suc (length e)) buf = b"
      by (simp add: b(1))
    have "scan_tokens chunks b eof = es' @ (if t = [] then [] else [t])"
      using "1.IH"(3) [OF split' [symmetric] refl drop [symmetric] refl b(2)] "1.prems"(2-4) es by simp
    then show ?thesis
      by (subst scan_tokens.simps) (simp only: split' drop Let_def prod.case option.case es append_Cons)
  next
    case False
    show ?thesis
    proof (cases eof)
      case True
      with "1.prems" False have "es = []" "buf = t"
        by (cases es; auto simp: terminated_def)+
      then show ?thesis
        using True False "1.prems"(4)
        by (subst scan_tokens.simps) (auto simp: nullByteSplit_eof nullByteSplit_end scan_at_end)
    next
      case running: False
      have split: "(if buf \<noteq> [] \<or> eof then nullByteSplit buf eof else (0, None)) = (0, None)"
        using running nullByteSplit_none [OF False] by simp
      show ?thesis
      proof (cases chunks)
        case Nil
        have "scan_tokens [] buf True = es @ (if t = [] then [] else [t])"
          using "1.IH"(1) [OF split [symmetric] refl refl refl running Nil] "1.prems" Nil by simp
        then show ?thesis
          by (subst scan_tokens.simps) (simp only: split Let_def prod.case option.case drop_0, simp add: running Nil)
      next
        case (Cons c cs)
        have "scan_tokens cs (buf @ c) False = es @ (if t = [] then [] else [t])"
          using "1.IH"(2) [OF split [symmetric] refl refl refl running Cons] "1.prems" Cons by simp
        then show ?thesis
          by (subst scan_tokens.simps) (simp only: split Let_def prod.case option.case drop_0, simp add: running Cons)
      qed
    qed
  qed
qed

definition entry_text :: "string \<times> string \<Rightarrow> string" where
  "entry_text kv = fst kv @ CHR ''='' # snd kv"

definition kv_ok :: "string \<times> string \<Rightarrow> bool" where
  "kv_ok kv \<longleftrightarrow> CHR ''='' \<notin> set (fst kv) \<and> NUL \<notin> set (fst kv) \<and> NUL \<notin> set (snd kv)"

lemma add_entries:
  assumes "list_all kv_ok kvs"
  shows "gm_get [] (foldl add_entry m (map entry_text kvs)) k = gm_get [] m k @ map snd (filter (\<lambda>kv. fst kv = k) kvs)"
  using assms by (induction kvs arbitrary: m) (auto simp: add_entry_def entry_text_def kv_ok_def)

text \<open>C30: however the reads cut the section into pieces, parsing a \<^verbatim>\<open>.modinfo\<close> section of \<^verbatim>\<open>key=value\<close> entries that are
  separated by exactly one NUL byte, with one or none at the end, yields for every key exactly the values of the entries
  with that key, in their order. Padding with more NUL bytes is excluded: what is read then depends on the cut.\<close>

theorem GetModuleInfo_reads_entries:
  assumes "concat chunks = terminated (map entry_text kvs) [] \<or>
      kvs \<noteq> [] \<and> concat chunks = terminated (map entry_text (butlast kvs)) (entry_text (last kvs))"
    and "list_all kv_ok kvs"
  shows "\<exists>m. GetModuleInfo ((''.modinfo'', chunks) # sections) = Inr m \<and>
           (\<forall>k. gm_get [] m k = map snd (filter (\<lambda>kv. fst kv = k) kvs))"
proof -
  have ok: "list_all entry_ok (map entry_text kvs)"
    using assms(2) by (auto simp: list_all_iff entry_ok_def entry_text_def kv_ok_def)
  have "scan_tokens chunks [] False = map entry_text kvs"
    using assms(1)
  proof
    assume "concat chunks = terminated (map entry_text kvs) []"
    then show ?thesis
      using scan_tokens_terminated [of "[]" chunks "map entry_text kvs" "[]" False] ok by simp
  next
    assume h: "kvs \<noteq> [] \<and> concat chunks = terminated (map entry_text (butlast kvs)) (entry_text (last kvs))"
    then have kvs: "map entry_text kvs = map entry_text (butlast kvs) @ [entry_text (last kvs)]"
      by (metis append_butlast_last_id list.simps(8,9) map_append)
    then have "entry_ok (entry_text (last kvs))" "list_all entry_ok (map entry_text (butlast kvs))"
      using ok by simp_all
    then show ?thesis
      using scan_tokens_terminated [of "[]" chunks "map entry_text (butlast kvs)" "entry_text (last kvs)" False] h kvs
      by (simp add: entry_ok_def)
  qed
  then show ?thesis
    using add_entries [OF assms(2), of "[]"] by simp
qed

lemma GetModuleInfo_reads_entries_witness:
  "\<exists>m. GetModuleInfo [(''.modinfo'', [''alias=a'', [NUL] @ ''alia'', ''s=b='' @ [NUL]])] = Inr m \<and>
     gm_get [] m ''alias'' = [''a'', ''b='']"
  using GetModuleInfo_reads_entries [of "[''alias=a'', [NUL] @ ''alia'', ''s=b='' @ [NUL]]"
      "[(''alias'', ''a''), (''alias'', ''b='')]" "[]"]
  by (auto simp: terminated_def entry_text_def kv_ok_def)

text \<open>An empty entry is not a token, and once the scanner has seen the end of the data it stops at
  the first call that yields no token. So two NULs of padding lose the entries behind them if the
  data arrives in one read, and not if it arrives in two.\<close>

theorem GetModuleInfo_padding_loses_entries:
  "GetModuleInfo [(''.modinfo'', [''a=1'' @ [NUL, NUL, NUL] @ ''b=2'' @ [NUL]])] = Inr [(''a'', [''1''])] \<and>
   GetModuleInfo [(''.modinfo'', [''a=1'' @ [NUL, NUL], [NUL] @ ''b=2'' @ [NUL]])] = Inr [(''a'', [''1'']), (''b'', [''2''])]"
  by code_simp

section \<open>The metadata finds the modules by their aliases\<close>

definition meta_inv :: "module_info list \<Rightarrow> meta_state \<Rightarrow> bool" where
  "meta_inv done s \<longleftrightarrow>
     wf_tree (mt_ModuleDeviceMatches (ms_meta s)) \<and> ms_i s = length done \<and>
     mt_Modules (ms_meta s) = map (\<lambda>m. \<lparr>md_Name = mi_Name m, md_Path = mi_Get m ''path'', md_Depends = []\<rparr>) done \<and>
     (\<forall>s'. look (mt_ModuleDeviceMatches (ms_meta s)) s' =
        {i. i < length done \<and> mi_Get (done ! i) ''path'' \<noteq> [] \<and> (\<exists>p\<in>set (mi_Aliases (done ! i)). glob_match p s')}) \<and>
     (distinct (map mi_Name done) \<longrightarrow>
        map_of (ms_modIndices s) = (\<lambda>n. index_of n (map mi_Name done)) \<and>
        (\<forall>m\<in>set done. map_of (ms_modInfoMap s) (mi_Name m) = Some m))"

definition aliases_ok :: "module_info \<Rightarrow> bool" where
  "aliases_ok m \<longleftrightarrow> (mi_Get m ''path'' = [] \<or> list_all glob_valid (mi_Aliases m))"

lemma add_aliases_look:
  assumes "wf_tree tree" and "mi_Get m ''path'' = [] \<or> list_all glob_valid ps"
  shows "\<exists>tree'. add_aliases tree m ps i = Inr tree' \<and> wf_tree tree' \<and>
           (\<forall>s. look tree' s = look tree s \<union>
                 {j. j = i \<and> mi_Get m ''path'' \<noteq> [] \<and> (\<exists>p\<in>set ps. glob_match p s)})"
  using assms
proof (induction ps arbitrary: tree)
  case (Cons p ps)
  show ?case
  proof (cases "mi_Get m ''path'' = []")
    case False
    then obtain t where t: "AddPattern tree p i = Inr t" "wf_tree t"
        "\<And>s. look t s = look tree s \<union> (if glob_match p s then {i} else {})"
      using AddPattern_cases [OF Cons.prems(1), of p i] Cons.prems(2) by auto
    obtain t' where "add_aliases t m ps i = Inr t'" "wf_tree t'"
        "\<And>s. look t' s = look t s \<union> {j. j = i \<and> mi_Get m ''path'' \<noteq> [] \<and> (\<exists>p\<in>set ps. glob_match p s)}"
      using Cons.IH [OF t(2)] Cons.prems(2) False by auto
    with t False show ?thesis
      by auto
  qed (use Cons in simp)
qed simp

lemma index_of_snoc:
  "index_of n (xs @ [x]) = (if n \<in> set xs then index_of n xs else if n = x then Some (length xs) else None)"
  by (induction xs) auto

lemma meta_step_inv:
  assumes "meta_inv done s" and "aliases_ok m" and "length done < 2 ^ 32 - 1"
  shows "\<exists>s'. meta_step s m = Inr s' \<and> meta_inv (done @ [m]) s'"
proof -
  have wf: "wf_tree (mt_ModuleDeviceMatches (ms_meta s))"
    using assms(1) by (simp add: meta_inv_def)
  obtain t where t: "add_aliases (mt_ModuleDeviceMatches (ms_meta s)) m (mi_Aliases m) (ms_i s) = Inr t" "wf_tree t"
      "\<And>s'. look t s' = look (mt_ModuleDeviceMatches (ms_meta s)) s' \<union>
          {j. j = ms_i s \<and> mi_Get m ''path'' \<noteq> [] \<and> (\<exists>p\<in>set (mi_Aliases m). glob_match p s')}"
    using add_aliases_look [OF wf, of m "mi_Aliases m" "ms_i s"] assms(2) unfolding aliases_ok_def by blast
  have look: "look t s' = {i. i < length (done @ [m]) \<and> mi_Get ((done @ [m]) ! i) ''path'' \<noteq> [] \<and>
        (\<exists>p\<in>set (mi_Aliases ((done @ [m]) ! i)). glob_match p s')}" for s'
    using assms(1) t(3) [of s'] by (auto simp: meta_inv_def nth_append less_Suc_eq)
  show ?thesis
    using assms(1,3) t(1,2) look
    by (auto simp: meta_step_def meta_inv_def index_of_snoc fun_eq_iff image_iff)
qed

lemma meta_steps_inv:
  assumes "meta_inv done s" and "list_all aliases_ok ms" and "length (done @ ms) < 2 ^ 32"
  shows "\<exists>s'. meta_steps s ms = Inr s' \<and> meta_inv (done @ ms) s'"
  using assms
proof (induction ms arbitrary: "done" s)
  case (Cons m ms)
  then obtain s1 where "meta_step s m = Inr s1" "meta_inv (done @ [m]) s1"
    using meta_step_inv [of "done" s m] by auto
  then show ?case
    using Cons.IH [of "done @ [m]" s1] Cons.prems by simp
qed simp

lemma meta_inv_start:
  "meta_inv [] \<lparr>ms_meta = \<lparr>mt_Modules = [], mt_ModuleDeviceMatches = empty_tree\<rparr>,
      ms_modIndices = [], ms_modInfoMap = [], ms_i = 0\<rparr>"
  by (simp add: meta_inv_def fun_eq_iff)

lemma modules_at_ok: "\<forall>i\<in>set ids. i < length ms \<Longrightarrow> modules_at ms ids = Inr (map ((!) ms) ids)"
  by (induction ids) auto

text \<open>What the metadata has to say of a list of modules.\<close>

definition alias_matches :: "string \<Rightarrow> module_info \<Rightarrow> bool" where
  "alias_matches s m \<longleftrightarrow> mi_Get m ''path'' \<noteq> [] \<and> (\<exists>p\<in>set (mi_Aliases m). glob_match p s)"

lemma mset_map_nth_filter:
  assumes "distinct ids" and "set ids = {i. i < length xs \<and> P (xs ! i)}"
  shows "mset (map ((!) xs) ids) = mset (filter P xs)"
proof -
  have "mset ids = mset (filter (\<lambda>i. P (xs ! i)) [0..<length xs])"
    using assms by (intro set_eq_iff_mset_eq_distinct [THEN iffD1]) auto
  then have "mset (map ((!) xs) ids) = mset (map ((!) xs) (filter (\<lambda>i. P (xs ! i)) [0..<length xs]))"
    by simp
  also have "map ((!) xs) (filter (\<lambda>i. P (xs ! i)) [0..<length xs]) = filter P (map ((!) xs) [0..<length xs])"
    by (simp add: filter_map comp_def)
  finally show ?thesis
    by (simp add: map_nth)
qed

lemma LookupModules_cases:
  assumes "look (mt_ModuleDeviceMatches meta) s = {i. i < length infos \<and> P (infos ! i)}" and "map_order order"
    and "map md_Name (mt_Modules meta) = map mi_Name infos"
  shows "\<exists>mods. LookupModules meta s order = Inr mods \<and> sorted (map md_Name mods) \<and>
    mset (map md_Name mods) = mset (map mi_Name (filter P infos))"
proof -
  let ?ids = "order (look (mt_ModuleDeviceMatches meta) s)"
  have len: "length (mt_Modules meta) = length infos"
    using assms(3) by (metis length_map)
  have ids: "distinct ?ids" "set ?ids = {i. i < length infos \<and> P (infos ! i)}"
    using assms(1,2) by (auto simp: map_order_def)
  have "md_Name (mt_Modules meta ! i) = mi_Name (infos ! i)" if "i < length infos" for i
    using assms(3) that len by (metis nth_map)
  then have "map md_Name (map ((!) (mt_Modules meta)) ?ids) = map mi_Name (map ((!) infos) ?ids)"
    using ids(2) by simp
  then have "mset (map md_Name (map ((!) (mt_Modules meta)) ?ids)) = image_mset mi_Name (mset (map ((!) infos) ?ids))"
    by (metis mset_map)
  also have "\<dots> = mset (map mi_Name (filter P infos))"
    unfolding mset_map_nth_filter [OF ids] by simp
  finally have mset: "mset (map md_Name (sort_key md_Name (map ((!) (mt_Modules meta)) ?ids))) = mset (map mi_Name (filter P infos))"
    by (simp add: multiset.map_comp comp_def)
  have "modules_at (mt_Modules meta) ?ids = Inr (map ((!) (mt_Modules meta)) ?ids)"
    using ids(2) len by (intro modules_at_ok) simp
  then show ?thesis
    using mset by (simp add: LookupModules_def Let_def)
qed

text \<open>C29: from any list of modules whose aliases are well-formed patterns (those of built-in modules are
  not looked at) the metadata can be made. Looking up a device identifier in it returns, sorted by
  name and for every iteration order of the Go map, exactly the loadable modules with an alias that
  matches, and if the names are distinct a dependency becomes the index of the module it names. A
  dependency that names no module becomes the index of the first module.\<close>

theorem MakeMeta_lookup:
  assumes "list_all aliases_ok infos" and "length infos < 2 ^ 32" and "map_order order"
  shows "\<exists>meta. MakeMetaFromModuleInfo infos = Inr meta \<and>
     (\<forall>s. \<exists>mods. LookupModules meta s order = Inr mods \<and> sorted (map md_Name mods) \<and>
        mset (map md_Name mods) = mset (map mi_Name (filter (alias_matches s) infos))) \<and>
     (distinct (map mi_Name infos) \<longrightarrow>
        map md_Depends (mt_Modules meta) =
        map (\<lambda>m. map (\<lambda>d. case index_of d (map mi_Name infos) of Some i \<Rightarrow> i | None \<Rightarrow> 0) (mi_GetDependencies m)) infos)"
proof -
  obtain s where s: "meta_steps \<lparr>ms_meta = \<lparr>mt_Modules = [], mt_ModuleDeviceMatches = empty_tree\<rparr>,
      ms_modIndices = [], ms_modInfoMap = [], ms_i = 0\<rparr> infos = Inr s" "meta_inv infos s"
    using meta_steps_inv [OF meta_inv_start assms(1)] assms(2) by auto
  let ?meta = "(ms_meta s)\<lparr>mt_Modules := map (resolve_depends s) (mt_Modules (ms_meta s))\<rparr>"
  have meta: "MakeMetaFromModuleInfo infos = Inr ?meta"
    by (simp add: MakeMetaFromModuleInfo_def s(1))
  have "look (mt_ModuleDeviceMatches ?meta) x = {i. i < length infos \<and> alias_matches x (infos ! i)}" for x
    using s(2) by (simp add: meta_inv_def alias_matches_def)
  moreover have "map md_Name (mt_Modules ?meta) = map mi_Name infos"
    using s(2) by (simp add: meta_inv_def resolve_depends_def)
  ultimately have "\<exists>mods. LookupModules ?meta x order = Inr mods \<and> sorted (map md_Name mods) \<and>
      mset (map md_Name mods) = mset (map mi_Name (filter (alias_matches x) infos))" for x
    using assms(3) by (intro LookupModules_cases)
  moreover have "map md_Depends (mt_Modules ?meta) =
      map (\<lambda>m. map (\<lambda>d. case index_of d (map mi_Name infos) of Some i \<Rightarrow> i | None \<Rightarrow> 0) (mi_GetDependencies m)) infos"
    if "distinct (map mi_Name infos)"
    using s(2) that by (auto simp: meta_inv_def resolve_depends_def gm_get_def fun_eq_iff)
  ultimately show ?thesis
    using meta by blast
qed

lemma map_order_sorted: "map_order sorted_list_of_set"
  by (simp add: map_order_def)

lemma MakeMeta_lookup_witness:
  "\<exists>meta mods. MakeMetaFromModuleInfo
       [[(''name'', [''e1000'']), (''path'', [''e1000.ko'']), (''alias'', [''pci:v8*'', ''pci:v9'']), (''depends'', [''mii''])],
        [(''name'', [''mii'']), (''path'', [''mii.ko''])]] = Inr meta \<and>
     LookupModules meta ''pci:v9'' sorted_list_of_set = Inr mods \<and> map md_Name mods = [''e1000''] \<and>
     map md_Depends (mt_Modules meta) = [[1 + 0], []]"
proof -
  let ?e = "[(''name'', [''e1000'']), (''path'', [''e1000.ko'']), (''alias'', [''pci:v8*'', ''pci:v9'']), (''depends'', [''mii''])]"
  let ?m = "[(''name'', [''mii'']), (''path'', [''mii.ko''])]"
  have names: "mi_Name ?e = ''e1000''" "mi_Name ?m = ''mii''" "mi_GetDependencies ?e = [''mii'']" "mi_GetDependencies ?m = []"
    by (simp_all add: mi_Name_def mi_Get_def gm_get_def mi_GetDependencies_def)
  have al: "aliases_ok ?e" "aliases_ok ?m" "alias_matches ''pci:v9'' ?e" "\<not> alias_matches ''pci:v9'' ?m"
    by (simp_all add: aliases_ok_def alias_matches_def mi_Aliases_def mi_Get_def gm_get_def)
  then have ok: "list_all aliases_ok [?e, ?m]" "length [?e, ?m] < 2 ^ 32"
    by simp_all
  obtain meta where meta: "MakeMetaFromModuleInfo [?e, ?m] = Inr meta"
      "\<forall>s. \<exists>mods. LookupModules meta s sorted_list_of_set = Inr mods \<and> sorted (map md_Name mods) \<and>
        mset (map md_Name mods) = mset (map mi_Name (filter (alias_matches s) [?e, ?m]))"
      "distinct (map mi_Name [?e, ?m]) \<longrightarrow> map md_Depends (mt_Modules meta) =
        map (\<lambda>m. map (\<lambda>d. case index_of d (map mi_Name [?e, ?m]) of Some i \<Rightarrow> i | None \<Rightarrow> 0) (mi_GetDependencies m)) [?e, ?m]"
    using MakeMeta_lookup [OF ok map_order_sorted] by blast
  obtain mods where mods: "LookupModules meta ''pci:v9'' sorted_list_of_set = Inr mods"
      "mset (map md_Name mods) = mset (map mi_Name (filter (alias_matches ''pci:v9'') [?e, ?m]))"
    using meta(2) by blast
  have "mset (map md_Name mods) = {#''e1000''#}"
    unfolding mods(2) using al(3,4) by (simp add: names)
  then have "map md_Name mods = [''e1000'']"
    by (simp only: mset_single_iff)
  moreover have "map md_Depends (mt_Modules meta) = [[1 + 0], []]"
    using meta(3) by (simp add: names)
  ultimately show ?thesis
    using meta(1) mods(1) by (intro exI [of _ meta] exI [of _ mods] conjI)
qed

section \<open>Loading follows the dependencies\<close>

definition available :: "kmod_module list \<Rightarrow> nat set \<Rightarrow> nat \<Rightarrow> bool" where
  "available ms loaded i \<longleftrightarrow> i \<in> loaded \<or> md_Path (ms ! i) = []"

text \<open>A list of load attempts, the latest first, in which every module comes after the modules it
  depends on.\<close>

fun deps_first :: "kmod_module list \<Rightarrow> nat set \<Rightarrow> nat list \<Rightarrow> bool" where
  "deps_first ms loaded [] = True"
| "deps_first ms loaded (i # ids) \<longleftrightarrow>
     deps_first ms loaded ids \<and> list_all (available ms (loaded \<union> set ids)) (md_Depends (ms ! i))"

text \<open>What the kernel answered to every attempt of such a list: it took the module, or it refused it with another error
  than \<^verbatim>\<open>EEXIST\<close>. The files that were attempted before, the latest first, are those of the
  rest of the list and of the trace.\<close>

fun attempts_passed :: "kmod_kernel \<Rightarrow> kmod_module list \<Rightarrow> string list \<Rightarrow> nat list \<Rightarrow> bool" where
  "attempts_passed kern ms trace [] = True"
| "attempts_passed kern ms trace (i # ids) \<longleftrightarrow>
     attempts_passed kern ms trace ids \<and>
     kern (map (\<lambda>i. md_Path (ms ! i)) ids @ trace) (md_Path (ms ! i)) \<in> {Loaded, LoadFailed False}"

definition attempt_failed :: "kmod_kernel \<Rightarrow> kmod_module list \<Rightarrow> string list \<Rightarrow> nat list \<Rightarrow> load_error \<Rightarrow> bool" where
  "attempt_failed kern ms trace ids e \<longleftrightarrow>
     ids \<noteq> [] \<and> attempts_passed kern ms trace (tl ids) \<and>
     (let outcome = kern (map (\<lambda>i. md_Path (ms ! i)) (tl ids) @ trace) (md_Path (ms ! hd ids)) in
      outcome = OpenFailed \<and> e = ErrOpen \<or> outcome = LoadFailed True \<and> e = ErrLoad (md_Name (ms ! hd ids)))"

definition load_run :: "kmod_kernel \<Rightarrow> manager \<Rightarrow> nat list \<Rightarrow> load_error option \<Rightarrow> manager \<Rightarrow> bool" where
  "load_run kern s ids err s' \<longleftrightarrow>
     mg_meta s' = mg_meta s \<and> mg_moduleIndexes s' = mg_moduleIndexes s \<and>
     mg_trace s' = map (\<lambda>i. md_Path (mt_Modules (mg_meta s) ! i)) ids @ mg_trace s \<and>
     distinct ids \<and> set ids \<inter> mg_loadedModules s = {} \<and>
     deps_first (mt_Modules (mg_meta s)) (mg_loadedModules s) ids \<and>
     (case err of
        None \<Rightarrow> mg_loadedModules s' = mg_loadedModules s \<union> set ids \<and> attempts_passed kern (mt_Modules (mg_meta s)) (mg_trace s) ids
      | Some e \<Rightarrow> mg_loadedModules s' = mg_loadedModules s \<union> set (tl ids) \<and> attempt_failed kern (mt_Modules (mg_meta s)) (mg_trace s) ids e)"

definition deps_ranked :: "kmod_module list \<Rightarrow> (nat \<Rightarrow> nat) \<Rightarrow> bool" where
  "deps_ranked ms rank \<longleftrightarrow>
     (\<forall>i < length ms. \<forall>d \<in> set (md_Depends (ms ! i)). d < length ms \<and> rank d < rank i)"

lemma load_run_Nil: "load_run kern s [] None s"
  by (simp add: load_run_def)

lemma deps_first_append:
  "deps_first ms (loaded \<union> set ids) js \<Longrightarrow> deps_first ms loaded ids \<Longrightarrow> deps_first ms loaded (js @ ids)"
  by (induction js) (auto simp: Un_ac)

lemma attempts_passed_append:
  "attempts_passed kern ms (map (\<lambda>i. md_Path (ms ! i)) ids @ trace) js \<Longrightarrow> attempts_passed kern ms trace ids \<Longrightarrow> attempts_passed kern ms trace (js @ ids)"
  by (induction js) auto

lemma attempt_failed_append:
  "attempt_failed kern ms (map (\<lambda>i. md_Path (ms ! i)) ids @ trace) js e \<Longrightarrow> attempts_passed kern ms trace ids \<Longrightarrow> attempt_failed kern ms trace (js @ ids) e"
  by (cases js) (simp_all add: attempt_failed_def attempts_passed_append Let_def)

lemma load_run_trans:
  assumes "load_run kern s ids None s1" and "load_run kern s1 js err s2"
  shows "load_run kern s (js @ ids) err s2"
proof (cases err)
  case None
  then show ?thesis
    using assms deps_first_append attempts_passed_append by (auto simp: load_run_def)
next
  case (Some e)
  then have "js \<noteq> []"
    using assms(2) by (simp add: load_run_def attempt_failed_def)
  then show ?thesis
    using Some assms deps_first_append attempt_failed_append by (auto simp: load_run_def)
qed

lemma available_mono: "available ms a i \<Longrightarrow> a \<subseteq> b \<Longrightarrow> available ms b i"
  by (auto simp: available_def)

lemma load_run_loaded: "load_run kern s ids None s' \<Longrightarrow> mg_loadedModules s' = mg_loadedModules s \<union> set ids"
  "load_run kern s ids err s' \<Longrightarrow> mg_meta s' = mg_meta s"
  by (simp_all add: load_run_def)

lemma load_run_attempt:
  assumes run: "load_run kern s ids None s1" and i: "i \<notin> mg_loadedModules s" "i \<notin> set ids"
    and deps: "list_all (available (mt_Modules (mg_meta s)) (mg_loadedModules s1)) (md_Depends (mt_Modules (mg_meta s) ! i))"
    and s2: "s2 = s1\<lparr>mg_trace := md_Path (mt_Modules (mg_meta s) ! i) # mg_trace s1\<rparr>"
  shows "kern (mg_trace s1) (md_Path (mt_Modules (mg_meta s) ! i)) \<in> {Loaded, LoadFailed False} \<Longrightarrow>
      load_run kern s (i # ids) None (s2\<lparr>mg_loadedModules := insert i (mg_loadedModules s2)\<rparr>)"
    and "kern (mg_trace s1) (md_Path (mt_Modules (mg_meta s) ! i)) = OpenFailed \<Longrightarrow> load_run kern s (i # ids) (Some ErrOpen) s2"
    and "kern (mg_trace s1) (md_Path (mt_Modules (mg_meta s) ! i)) = LoadFailed True \<Longrightarrow>
      load_run kern s (i # ids) (Some (ErrLoad (md_Name (mt_Modules (mg_meta s) ! i)))) s2"
  using assms by (auto simp: load_run_def attempt_failed_def)

lemma loadModule_run:
  "\<lbrakk>deps_ranked (mt_Modules (mg_meta s)) rank; i < length (mt_Modules (mg_meta s)); rank i < fuel\<rbrakk> \<Longrightarrow>
     \<exists>err s' ids. loadModuleRecursive kern fuel s i = Some (err, s') \<and> load_run kern s ids err s' \<and>
       (\<forall>j\<in>set ids. rank j \<le> rank i) \<and> (err = None \<longrightarrow> available (mt_Modules (mg_meta s)) (mg_loadedModules s') i)"
  "\<lbrakk>deps_ranked (mt_Modules (mg_meta s)) rank; \<forall>d\<in>set ds. d < length (mt_Modules (mg_meta s)) \<and> rank d < fuel \<and> rank d < r\<rbrakk> \<Longrightarrow>
     \<exists>err s' ids. load_deps kern fuel s ds = Some (err, s') \<and> load_run kern s ids err s' \<and>
       (\<forall>j\<in>set ids. rank j < r) \<and> (err = None \<longrightarrow> list_all (available (mt_Modules (mg_meta s)) (mg_loadedModules s')) ds)"
proof (induction kern fuel s i and kern fuel s ds arbitrary: and r rule: loadModuleRecursive_load_deps.induct)
  case (1 kern s i)
  then show ?case by simp
next
  case (2 kern fuel s i)
  let ?m = "mt_Modules (mg_meta s) ! i"
  show ?case
  proof (cases "i \<in> mg_loadedModules s \<or> md_Path ?m = []")
    case True
    then show ?thesis
      using "2.prems" load_run_Nil by (auto simp: available_def intro!: exI [of _ "[]"])
  next
    case False
    have deps: "\<forall>d\<in>set (md_Depends ?m). d < length (mt_Modules (mg_meta s)) \<and> rank d < fuel \<and> rank d < rank i"
      using "2.prems" by (auto simp: deps_ranked_def) (meson less_le_trans less_Suc_eq_le)
    obtain err s1 ids where r: "load_deps kern fuel s (md_Depends ?m) = Some (err, s1)" "load_run kern s ids err s1"
        "\<forall>j\<in>set ids. rank j < rank i" "err = None \<longrightarrow> list_all (available (mt_Modules (mg_meta s)) (mg_loadedModules s1)) (md_Depends ?m)"
      using "2.IH" [OF _ _ refl _ "2.prems"(1) deps] False "2.prems"(2) by auto
    show ?thesis
    proof (cases err)
      case None
      have "i \<notin> set ids"
        using r(3) by auto
      define s2 where "s2 = s1\<lparr>mg_trace := md_Path ?m # mg_trace s1\<rparr>"
      define s3 where "s3 = s2\<lparr>mg_loadedModules := insert i (mg_loadedModules s2)\<rparr>"
      note att = load_run_attempt [OF r(2) [unfolded None] _ \<open>i \<notin> set ids\<close> _ s2_def, folded s3_def]
      have av: "available (mt_Modules (mg_meta s)) (mg_loadedModules s3) i"
        by (simp add: available_def s3_def)
      have ranks: "\<forall>j\<in>set (i # ids). rank j \<le> rank i"
        using r(3) by auto
      have run: "loadModuleRecursive kern (Suc fuel) s i =
          (case kern (mg_trace s1) (md_Path ?m) of
             OpenFailed \<Rightarrow> Some (Some ErrOpen, s2)
           | Loaded \<Rightarrow> Some (None, s3)
           | LoadFailed ex \<Rightarrow> if ex then Some (Some (ErrLoad (md_Name ?m)), s2) else Some (None, s3))"
        using r(1) False None "2.prems"(2) by (simp add: s2_def s3_def Let_def split: load_outcome.split)
      show ?thesis
      proof (cases "kern (mg_trace s1) (md_Path ?m)")
        case OpenFailed
        then show ?thesis
          using att(2) run ranks False r(4) None by (intro exI [of _ "Some ErrOpen"] exI [of _ s2] exI [of _ "i # ids"]) simp
      next
        case Loaded
        then show ?thesis
          using att(1) run ranks av False r(4) None by (intro exI [of _ None] exI [of _ s3] exI [of _ "i # ids"]) simp
      next
        case (LoadFailed ex)
        then show ?thesis
          using att(1,3) run ranks av False r(4) None
          by (cases ex) (intro exI [of _ "Some (ErrLoad (md_Name ?m))"] exI [of _ s2] exI [of _ "i # ids"], simp,
              intro exI [of _ None] exI [of _ s3] exI [of _ "i # ids"], simp)
      qed
    next
      case (Some e)
      then have "loadModuleRecursive kern (Suc fuel) s i = Some (Some e, s1)"
        using r(1) False "2.prems"(2) by (simp add: Let_def)
      then show ?thesis
        using r(2,3) Some less_imp_le by blast
    qed
  qed
next
  case (3 kern fuel s)
  then show ?case
    using load_run_Nil by (auto intro!: exI [of _ "[]"])
next
  case (4 kern fuel s d ds)
  obtain err s1 ids where d: "loadModuleRecursive kern fuel s d = Some (err, s1)" "load_run kern s ids err s1"
      "\<forall>j\<in>set ids. rank j < r" "err = None \<longrightarrow> available (mt_Modules (mg_meta s)) (mg_loadedModules s1) d"
    using "4.IH"(1) "4.prems" by (meson le_less_trans list.set_intros(1))
  show ?case
  proof (cases err)
    case None
    have meta: "mg_meta s1 = mg_meta s"
      using d(2) by (rule load_run_loaded)
    obtain err' s' js where ds: "load_deps kern fuel s1 ds = Some (err', s')" "load_run kern s1 js err' s'"
        "\<forall>j\<in>set js. rank j < r" "err' = None \<longrightarrow> list_all (available (mt_Modules (mg_meta s)) (mg_loadedModules s')) ds"
      using "4.IH"(2) [OF d(1) refl None, of r] "4.prems" by (auto simp: meta)
    have "load_run kern s (js @ ids) err' s'"
      using load_run_trans d(2) ds(2) None by blast
    moreover have "err' = None \<longrightarrow> available (mt_Modules (mg_meta s)) (mg_loadedModules s') d"
      using d(4) None ds(2) load_run_loaded(1) available_mono by (metis Un_upper1)
    ultimately show ?thesis
      using d(1,3) ds(1,3,4) None by (intro exI [of _ err'] exI [of _ s'] exI [of _ "js @ ids"]) auto
  qed (use d in auto)
qed

lemma finite_lookup:
  "finite m \<Longrightarrow> finite (lookupModulesRec n s m)"
  "finite m \<Longrightarrow> finite (lookup_children cs s m)"
  "finite m \<Longrightarrow> finite (lookup_child c s m)"
  "finite m \<Longrightarrow> finite (lookup_wildcard c s m)"
proof (induction n s m and cs s m and c s m and c s m
    rule: lookupModulesRec_lookup_children_lookup_child_lookup_wildcard.induct)
  case (1 ty l sb eb cs mi needle matches)
  then show ?case
    by (cases needle; simp only: lookupModulesRec.simps Let_def; simp)
next
  case (4 c needle matches)
  then show ?case
    by (cases "rn_Type c") simp_all
qed simp_all

text \<open>C15: as long as the dependencies have no cycle, loading a module by name or the modules for a
  device returns, and it never indexes outside the module list. The load attempts it makes are each
  for a module that was not recorded as loaded, no module twice, and each after all the modules it depends on
  were recorded as loaded or found built in. Without an error every module asked for is recorded as loaded or built in, and
  the kernel took each attempted module or refused it with another error than \<^verbatim>\<open>EEXIST\<close>: such a refusal is passed over and the module
  recorded as loaded (the inverted test of \<^verbatim>\<open>manager.go\<close>, line 154). An error is that of the last attempt, whose file could not be
  opened or which the kernel refused with \<^verbatim>\<open>EEXIST\<close>; everything attempted before it stays recorded as loaded.\<close>

theorem kmod_loads_dependencies_first:
  assumes "deps_ranked (mt_Modules (mg_meta s)) rank" and "\<forall>i < length (mt_Modules (mg_meta s)). rank i < fuel"
    and "map_of (mg_moduleIndexes s) name = Some i" and "i < length (mt_Modules (mg_meta s))"
    and "\<forall>j \<in> lookupModulesRec (mt_ModuleDeviceMatches (mg_meta s)) dev {}. j < length (mt_Modules (mg_meta s))"
    and "map_order order"
  shows "(\<exists>err s' ids. mgr_LoadModule kern fuel s name = Some (err, s') \<and> load_run kern s ids err s' \<and>
            (err = None \<longrightarrow> available (mt_Modules (mg_meta s)) (mg_loadedModules s') i)) \<and>
         (\<exists>err s' ids. LoadModulesForDevice kern fuel order s dev = Some (err, s') \<and> load_run kern s ids err s' \<and>
            (err = None \<longrightarrow> (\<forall>j \<in> lookupModulesRec (mt_ModuleDeviceMatches (mg_meta s)) dev {}.
               available (mt_Modules (mg_meta s)) (mg_loadedModules s') j)))"
proof
  show "\<exists>err s' ids. mgr_LoadModule kern fuel s name = Some (err, s') \<and> load_run kern s ids err s' \<and>
            (err = None \<longrightarrow> available (mt_Modules (mg_meta s)) (mg_loadedModules s') i)"
    using loadModule_run(1) [OF assms(1,4), of fuel kern] assms(2-4) by (auto simp: mgr_LoadModule_def)
next
  let ?m = "look (mt_ModuleDeviceMatches (mg_meta s)) dev"
  have set: "set (order ?m) = ?m"
    using assms(6) finite_lookup(1) [of "{}"] by (simp add: map_order_def)
  have "\<forall>d\<in>set (order ?m). d < length (mt_Modules (mg_meta s)) \<and> rank d < fuel \<and> rank d < fuel"
    using set assms(2,5) by auto
  from loadModule_run(2) [OF assms(1) this, of kern] show
    "\<exists>err s' ids. LoadModulesForDevice kern fuel order s dev = Some (err, s') \<and> load_run kern s ids err s' \<and>
       (err = None \<longrightarrow> (\<forall>j\<in>?m. available (mt_Modules (mg_meta s)) (mg_loadedModules s') j))"
    using set by (auto simp: LoadModulesForDevice_def list_all_iff)
qed

text \<open>A manager for two modules, the first of which depends on the second.\<close>

definition example_manager :: manager where
  "example_manager =
     \<lparr>mg_meta = \<lparr>mt_Modules = [\<lparr>md_Name = ''a'', md_Path = ''a.ko'', md_Depends = [1]\<rparr>,
                               \<lparr>md_Name = ''b'', md_Path = ''b.ko'', md_Depends = []\<rparr>],
                 mt_ModuleDeviceMatches = RadixNode ROOT [] 0 0 [RadixNode LITERAL ''x'' 0 0 [] [0]] []\<rparr>,
      mg_moduleIndexes = [(''a'', 0), (''b'', 1)], mg_loadedModules = {}, mg_trace = []\<rparr>"

lemma kmod_loads_dependencies_first_witness:
  "\<exists>err s' ids. mgr_LoadModule (\<lambda>_ _. Loaded) 3 example_manager ''a'' = Some (err, s') \<and>
     load_run (\<lambda>_ _. Loaded) example_manager ids err s' \<and>
     (err = None \<longrightarrow> available (mt_Modules (mg_meta example_manager)) (mg_loadedModules s') 0)"
proof -
  have ranked: "deps_ranked (mt_Modules (mg_meta example_manager)) (\<lambda>i. if i = 0 then 1 else 0)"
    by (auto simp: deps_ranked_def example_manager_def less_Suc_eq)
  have "\<forall>j \<in> lookupModulesRec (mt_ModuleDeviceMatches (mg_meta example_manager)) ''x'' {}.
      j < length (mt_Modules (mg_meta example_manager))"
    by (auto simp: example_manager_def here_def split: if_splits)
  from kmod_loads_dependencies_first [OF ranked, of 3 "''a''" 0, OF _ _ _ this map_order_sorted, of "\<lambda>_ _. Loaded"]
  show ?thesis
    by (simp add: example_manager_def)
qed

text \<open>The test of the outcome of a load is inverted. If the kernel refuses a module for any reason
  but its being loaded already, the module is recorded as loaded and no error is returned; if the
  kernel says that the module is loaded already, an error is returned.\<close>

theorem loadModuleRecursive_error_test_inverted:
  assumes "i < length (mt_Modules (mg_meta s))" and "m = mt_Modules (mg_meta s) ! i" and "md_Path m \<noteq> []"
    and "md_Depends m = []" and "i \<notin> mg_loadedModules s"
    and "kern (mg_trace s) (md_Path m) = LoadFailed is_EEXIST"
  shows "\<exists>s'. loadModuleRecursive kern (Suc (Suc fuel)) s i = Some (if is_EEXIST then Some (ErrLoad (md_Name m)) else None, s') \<and>
           (i \<in> mg_loadedModules s' \<longleftrightarrow> \<not> is_EEXIST)"
  using assms by (simp add: Let_def)

lemma loadModuleRecursive_error_test_inverted_witness:
  "\<exists>s'. loadModuleRecursive (\<lambda>_ _. LoadFailed False) 2 example_manager (0 + 1) = Some (None, s') \<and> 0 + 1 \<in> mg_loadedModules s'"
  using loadModuleRecursive_error_test_inverted [of "0 + 1" example_manager _ "\<lambda>_ _. LoadFailed False" False 0, OF _ refl]
  by (simp add: example_manager_def numeral_2_eq_2)

text \<open>An unknown dependency becomes a dependency on the first module. If the first module, here the only one, has one, it depends on
  itself, and loading it then never returns, whatever the kernel does.\<close>

theorem unknown_dependency_never_loads:
  assumes "mi_Name m = name" and "mi_Get m ''path'' \<noteq> []" and "mi_GetDependencies m = [dep]" and "dep \<noteq> name"
    and "mi_Aliases m = []"
  shows "\<exists>meta s. MakeMetaFromModuleInfo [m] = Inr meta \<and> NewManager meta (Some []) = Inr s \<and>
           (\<forall>kern fuel. mgr_LoadModule kern fuel s name = None)"
proof -
  let ?mod = "\<lparr>md_Name = name, md_Path = mi_Get m ''path'', md_Depends = [0]\<rparr>"
  let ?meta = "\<lparr>mt_Modules = [?mod], mt_ModuleDeviceMatches = empty_tree\<rparr>"
  let ?s = "\<lparr>mg_meta = ?meta, mg_moduleIndexes = [(name, 0)], mg_loadedModules = {}, mg_trace = []\<rparr>"
  have "MakeMetaFromModuleInfo [m] = Inr ?meta"
    using assms by (simp add: MakeMetaFromModuleInfo_def meta_step_def resolve_depends_def gm_get_def)
  moreover have "NewManager ?meta (Some []) = Inr ?s"
    by (simp add: NewManager_def module_indexes_def)
  moreover have "loadModuleRecursive kern fuel ?s 0 = None" for kern fuel
    using assms(2) by (induction fuel) (simp_all add: Let_def)
  then have "mgr_LoadModule kern fuel ?s name = None" for kern fuel
    by (simp add: mgr_LoadModule_def)
  ultimately show ?thesis
    by blast
qed

lemma unknown_dependency_never_loads_witness:
  "\<exists>meta s. MakeMetaFromModuleInfo [[(''name'', [''a'']), (''path'', [''a.ko'']), (''depends'', [''b,c''])]] = Inr meta \<and>
     NewManager meta (Some []) = Inr s \<and> (\<forall>kern fuel. mgr_LoadModule kern fuel s ''a'' = None)"
  by (rule unknown_dependency_never_loads [where dep = "''b,c''"])
    (simp_all add: mi_Name_def mi_Get_def mi_GetDependencies_def mi_Aliases_def gm_get_def)

end
