(* ===== verification/Bootparam.thy ===== *)
theory Bootparam
  imports Prelude
begin

text \<open>
  Encoding and decoding of Linux kernel command lines, \<^verbatim>\<open>osbase/bootparam/bootparam.go\<close>. Strings
  are byte strings. The decoder returns what the named results of the source hold when it
  returns: the parameters so far, the rest, and the error if there is one. Its loop over
  \<^verbatim>\<open>cmdline\<close> is a recursion over the bytes from index \<^verbatim>\<open>i\<close> on, with \<^verbatim>\<open>cmdline[lastIdx:i]\<close> as an
  argument.
\<close>

section \<open>Parameters\<close>

record param =
  pm_Param :: string
  pm_Value :: string
  pm_HasValue :: bool

abbreviation QUOTE :: char where
  "QUOTE \<equiv> CHR 0x22"

definition isSpace :: "char \<Rightarrow> bool" where
  "isSpace r \<longleftrightarrow> r \<in> {CHR 0x09, CHR 0x0A, CHR 0x0B, CHR 0x0C, CHR 0x0D, CHR '' '', CHR 0xA0}"

definition TrimLeftSpace :: "string \<Rightarrow> string" where
  "TrimLeftSpace s = dropWhile isSpace s"

definition containsSpace :: "string \<Rightarrow> bool" where
  "containsSpace s \<longleftrightarrow> list_ex isSpace s"

text \<open>\<^verbatim>\<open>strings.HasPrefix\<close>, \<^verbatim>\<open>TrimPrefix\<close> and \<^verbatim>\<open>TrimSuffix\<close> for a single byte.\<close>

definition HasPrefix1 :: "string \<Rightarrow> char \<Rightarrow> bool" where
  "HasPrefix1 s c \<longleftrightarrow> s \<noteq> [] \<and> hd s = c"

definition TrimPrefix1 :: "string \<Rightarrow> char \<Rightarrow> string" where
  "TrimPrefix1 s c = (if HasPrefix1 s c then tl s else s)"

definition TrimSuffix1 :: "string \<Rightarrow> char \<Rightarrow> string" where
  "TrimSuffix1 s c = (if s \<noteq> [] \<and> last s = c then butlast s else s)"

section \<open>Decoding\<close>

definition parseToken :: "string \<Rightarrow> (string, param) result" where
  "parseToken token =
     (if HasPrefix1 token (CHR ''='') \<or> take 2 token = [QUOTE, CHR ''='']
      then Inl ''param contains `=` at first position, this causes broken behavior''
      else
        (let (param, value, hasValue) =
               (case go_cut (CHR ''='') token of Some (a, b) \<Rightarrow> (a, b, True) | None \<Rightarrow> (token, [], False)) in
         Inr \<lparr>pm_Param =
                (if HasPrefix1 param QUOTE
                 then (if \<not> hasValue then TrimSuffix1 (TrimPrefix1 param QUOTE) QUOTE else TrimPrefix1 param QUOTE)
                 else param),
              pm_Value =
                (if hasValue
                 then (if HasPrefix1 value QUOTE then TrimSuffix1 (TrimPrefix1 value QUOTE) QUOTE
                       else if HasPrefix1 param QUOTE then TrimSuffix1 value QUOTE
                       else value)
                 else []),
              pm_HasValue = False\<rparr>))"

fun unmarshal_loop :: "string \<Rightarrow> string \<Rightarrow> bool \<Rightarrow> param list \<Rightarrow> param list \<times> string \<times> string option" where
  "unmarshal_loop [] token inQuote params =
     (if length token > 0 then
        (if TrimLeftSpace token = [] then (params, [], None)
         else case parseToken token of
           Inl err \<Rightarrow> (params, [], Some err)
         | Inr p \<Rightarrow> (if pm_Param p = ''--'' then (params, [], None) else (params @ [p], [], None)))
      else (params, [], None))"
| "unmarshal_loop (c # cs) token inQuote params =
     (if isSpace c \<and> \<not> inQuote then
        (if TrimLeftSpace token = [] then unmarshal_loop cs [] inQuote params
         else case parseToken token of
           Inl err \<Rightarrow> (params, [], Some err)
         | Inr p \<Rightarrow>
             (if pm_Param p = ''--'' then (params, TrimLeftSpace cs, None)
              else unmarshal_loop cs [] (if c = QUOTE then \<not> inQuote else inQuote) (params @ [p])))
      else unmarshal_loop cs (token @ [c]) (if c = QUOTE then \<not> inQuote else inQuote) params)"

definition Unmarshal :: "string \<Rightarrow> param list \<times> string \<times> string option" where
  "Unmarshal cmdline = unmarshal_loop (takeWhile (\<lambda>c. c \<noteq> CHR 0x00) (TrimLeftSpace cmdline)) [] False []"

section \<open>Encoding\<close>

definition quoted :: "string \<Rightarrow> string" where
  "quoted s = (if containsSpace s then [QUOTE] @ s @ [QUOTE] else s)"

definition check_param :: "param \<Rightarrow> string option" where
  "check_param p =
     (if CHR ''='' \<in> set (pm_Param p) then Some ''invalid '=' character in param''
      else if QUOTE \<in> set (pm_Param p) then Some ''invalid quote character in param''
      else if QUOTE \<in> set (pm_Value p) then Some ''invalid quote character in value''
      else if CHR 0x00 \<in> set (pm_Param p) then Some ''invalid null byte in param''
      else if CHR 0x00 \<in> set (pm_Value p) then Some ''invalid null byte in value''
      else if CHR 0xA0 \<in> set (pm_Param p) then Some ''invalid 0xa0 byte in param''
      else if CHR 0xA0 \<in> set (pm_Value p) then Some ''invalid 0xa0 byte in value''
      else if QUOTE \<in> set (pm_Param p) then Some ''invalid quote character in value''
      else if pm_Value p \<noteq> [] \<and> containsSpace (pm_Param p) then Some ''param contains spaces and value, this is unsupported''
      else if pm_Param p = ''--'' then Some ''param '--' is reserved and cannot be used''
      else if pm_Param p = [] then Some ''empty params are not supported''
      else None)"

definition encode_param :: "param \<Rightarrow> string" where
  "encode_param p = quoted (pm_Param p) @ (if pm_Value p \<noteq> [] then CHR ''='' # quoted (pm_Value p) else [])"

fun marshal_loop :: "param list \<Rightarrow> string \<Rightarrow> (string, string) result" where
  "marshal_loop [] strb = Inr strb"
| "marshal_loop (p # ps) strb =
     (case check_param p of
        Some err \<Rightarrow> Inl err
      | None \<Rightarrow> marshal_loop ps (strb @ encode_param p @ '' ''))"

definition Marshal :: "param list \<Rightarrow> string \<Rightarrow> (string, string) result" where
  "Marshal params rest =
     (if CHR 0x00 \<in> set rest then Inl ''rest contains 0x00 byte, this is disallowed''
      else rbind (marshal_loop params []) (\<lambda>strb.
        Inr (if length rest > 0 then strb @ ''-- '' @ TrimLeftSpace rest else strb)))"

section \<open>The decoder inverts the encoder\<close>

text \<open>A token that the decoder takes in whole: quotes are closed and spaces are inside quotes.\<close>

fun closed_token :: "bool \<Rightarrow> string \<Rightarrow> bool" where
  "closed_token q [] \<longleftrightarrow> \<not> q"
| "closed_token q (c # cs) \<longleftrightarrow> (isSpace c \<longrightarrow> q) \<and> closed_token (if c = QUOTE then \<not> q else q) cs"

lemma closed_token_append: "closed_token q a \<Longrightarrow> closed_token False b \<Longrightarrow> closed_token q (a @ b)"
  by (induction a arbitrary: q) auto

lemma unmarshal_token:
  "closed_token q tok \<Longrightarrow> unmarshal_loop (tok @ cs) acc q ps = unmarshal_loop cs (acc @ tok) False ps"
  by (induction tok arbitrary: q acc) auto

lemma isSpace_simps [simp]: "isSpace (CHR '' '')" "\<not> isSpace QUOTE" "\<not> isSpace (CHR ''='')" "\<not> isSpace (CHR ''-'')"
  by (simp_all add: isSpace_def)

lemma closed_in_quotes: "QUOTE \<notin> set s \<Longrightarrow> closed_token True (s @ [QUOTE])"
  by (induction s) auto

lemma closed_no_space: "QUOTE \<notin> set s \<Longrightarrow> \<not> containsSpace s \<Longrightarrow> closed_token False s"
  by (induction s) (auto simp: containsSpace_def)

lemma closed_quoted: "QUOTE \<notin> set s \<Longrightarrow> closed_token False (quoted s)"
  using closed_in_quotes closed_no_space by (auto simp: quoted_def)

lemma check_param_None:
  "check_param p = None \<longleftrightarrow>
     CHR ''='' \<notin> set (pm_Param p) \<and> QUOTE \<notin> set (pm_Param p @ pm_Value p) \<and>
     CHR 0x00 \<notin> set (pm_Param p @ pm_Value p) \<and> CHR 0xA0 \<notin> set (pm_Param p @ pm_Value p) \<and>
     (pm_Value p \<noteq> [] \<longrightarrow> \<not> containsSpace (pm_Param p)) \<and> pm_Param p \<noteq> ''--'' \<and> pm_Param p \<noteq> []"
  by (auto simp: check_param_def)

lemma closed_encode: "check_param p = None \<Longrightarrow> closed_token False (encode_param p)"
  unfolding check_param_None encode_param_def
  by (auto intro!: closed_token_append closed_quoted)

lemma encode_starts:
  assumes "check_param p = None"
  shows "TrimLeftSpace (encode_param p @ s) = encode_param p @ s" "encode_param p \<noteq> []"
proof -
  obtain c cs where c: "pm_Param p = c # cs"
    using assms by (cases "pm_Param p") (auto simp: check_param_None)
  then show "TrimLeftSpace (encode_param p @ s) = encode_param p @ s" "encode_param p \<noteq> []"
    by (auto simp: TrimLeftSpace_def encode_param_def quoted_def containsSpace_def)
qed

lemma no_NUL_encode: "check_param p = None \<Longrightarrow> CHR 0x00 \<notin> set (encode_param p)"
  by (auto simp: check_param_None encode_param_def quoted_def)

lemma trim_simps [simp]:
  "HasPrefix1 (c # s) d \<longleftrightarrow> c = d" "\<not> HasPrefix1 [] d" "TrimPrefix1 (c # s) c = s" "TrimSuffix1 (s @ [c]) c = s"
  by (simp_all add: HasPrefix1_def TrimPrefix1_def TrimSuffix1_def)

lemma HasPrefix1_notin [simp]: "c \<notin> set s \<Longrightarrow> \<not> HasPrefix1 s c"
  by (cases s) (auto simp: HasPrefix1_def)

lemma go_cut_notin: "c \<notin> set s \<Longrightarrow> go_cut c s = None"
  by (simp add: go_cut_def)

lemma encode_not_refused:
  assumes "check_param p = None"
  shows "\<not> HasPrefix1 (encode_param p) (CHR ''='')" "take 2 (encode_param p) \<noteq> [QUOTE, CHR ''='']"
proof -
  obtain c cs where c: "pm_Param p = c # cs"
    using assms by (cases "pm_Param p") (auto simp: check_param_None)
  then show "\<not> HasPrefix1 (encode_param p) (CHR ''='')" "take 2 (encode_param p) \<noteq> [QUOTE, CHR ''='']"
    using assms by (auto simp: check_param_None encode_param_def quoted_def)
qed

lemma trim_quoted_value:
  assumes "QUOTE \<notin> set v" and "v \<noteq> []"
  shows "(if HasPrefix1 (quoted v) QUOTE then TrimSuffix1 (TrimPrefix1 (quoted v) QUOTE) QUOTE else quoted v) = v"
  using assms by (auto simp: quoted_def)

lemma parse_encode:
  assumes "check_param p = None"
  shows "parseToken (encode_param p) = Inr (p\<lparr>pm_HasValue := False\<rparr>)"
proof (cases "pm_Value p = []")
  case True
  then have "go_cut (CHR ''='') (encode_param p) = None"
    using assms by (auto simp: check_param_None encode_param_def quoted_def go_cut_notin)
  moreover have "(if HasPrefix1 (encode_param p) QUOTE then TrimSuffix1 (TrimPrefix1 (encode_param p) QUOTE) QUOTE
      else encode_param p) = pm_Param p"
    using True assms by (auto simp: check_param_None encode_param_def quoted_def)
  ultimately show ?thesis
    using encode_not_refused [OF assms] True by (auto simp: parseToken_def intro!: param.equality)
next
  case False
  then have enc: "encode_param p = pm_Param p @ CHR ''='' # quoted (pm_Value p)"
    using assms by (simp add: encode_param_def check_param_None) (simp add: quoted_def)
  then have "go_cut (CHR ''='') (encode_param p) = Some (pm_Param p, quoted (pm_Value p))"
    using assms by (simp add: check_param_None)
  moreover have "\<not> HasPrefix1 (pm_Param p) QUOTE"
    using assms by (simp add: check_param_None)
  ultimately show ?thesis
    using encode_not_refused [OF assms] trim_quoted_value [of "pm_Value p"] False assms
    by (auto simp: parseToken_def check_param_None intro!: param.equality)
qed

lemma unmarshal_params:
  assumes "list_all (\<lambda>p. check_param p = None) ps"
  shows "unmarshal_loop (concat (map (\<lambda>p. encode_param p @ '' '') ps) @ cs) [] False qs =
         unmarshal_loop cs [] False (qs @ map (\<lambda>p. p\<lparr>pm_HasValue := False\<rparr>) ps)"
  using assms
proof (induction ps arbitrary: qs)
  case (Cons p ps)
  then have p: "check_param p = None"
    by simp
  have "pm_Param p \<noteq> ''--''"
    using p by (simp add: check_param_None)
  then show ?case
    using Cons encode_starts(1) [OF p, of "[]"] encode_starts(2) [OF p] parse_encode [OF p] closed_encode [OF p]
    by (simp add: unmarshal_token)
qed simp

lemma marshal_loop_eq:
  "marshal_loop ps strb =
     (if list_all (\<lambda>p. check_param p = None) ps then Inr (strb @ concat (map (\<lambda>p. encode_param p @ '' '') ps))
      else Inl (the (hd (filter (\<lambda>e. e \<noteq> None) (map check_param ps)))))"
  by (induction ps arbitrary: strb) (auto split: option.splits)

lemma trim_encoded:
  assumes "list_all (\<lambda>p. check_param p = None) ps" and "s = [] \<or> \<not> isSpace (hd s)"
  shows "TrimLeftSpace (concat (map (\<lambda>p. encode_param p @ '' '') ps) @ s) = concat (map (\<lambda>p. encode_param p @ '' '') ps) @ s"
proof (cases ps)
  case Nil
  then show ?thesis
    using assms(2) by (cases s) (auto simp: TrimLeftSpace_def)
next
  case (Cons p qs)
  then show ?thesis
    using assms(1) encode_starts(1) [of p] by simp
qed

lemma takeWhile_all: "x \<notin> set s \<Longrightarrow> takeWhile (\<lambda>c. c \<noteq> x) s = s"
  by (auto simp: takeWhile_eq_all_conv)

lemma no_NUL_params:
  "list_all (\<lambda>p. check_param p = None) ps \<Longrightarrow> CHR 0x00 \<notin> set (concat (map (\<lambda>p. encode_param p @ '' '') ps))"
  using no_NUL_encode by (induction ps) auto

lemma parse_dashes: "parseToken ''--'' = Inr \<lparr>pm_Param = ''--'', pm_Value = [], pm_HasValue = False\<rparr>"
  by (simp add: parseToken_def go_cut_def)

text \<open>C17: the encoder accepts exactly the lists of parameters that name no reserved or unencodable
  parameter with a rest that has no null byte, and the decoder then returns the same names and values
  in the same order and the rest without its leading spaces. The flag \<^verbatim>\<open>HasValue\<close> comes back as
  false, whatever it was.\<close>

theorem Unmarshal_Marshal:
  "(is_ok (Marshal params rest) \<longleftrightarrow> CHR 0x00 \<notin> set rest \<and> list_all (\<lambda>p. check_param p = None) params) \<and>
   (\<forall>s. Marshal params rest = Inr s \<longrightarrow>
      Unmarshal s = (map (\<lambda>p. p\<lparr>pm_HasValue := False\<rparr>) params, TrimLeftSpace rest, None))"
proof (intro conjI allI impI)
  show "is_ok (Marshal params rest) \<longleftrightarrow> CHR 0x00 \<notin> set rest \<and> list_all (\<lambda>p. check_param p = None) params"
    by (simp add: Marshal_def marshal_loop_eq)
next
  fix s
  assume "Marshal params rest = Inr s"
  then have ok: "CHR 0x00 \<notin> set rest" "list_all (\<lambda>p. check_param p = None) params"
    and s: "s = concat (map (\<lambda>p. encode_param p @ '' '') params) @ (if rest = [] then [] else ''-- '' @ TrimLeftSpace rest)"
    by (auto simp: Marshal_def marshal_loop_eq split: if_splits)
  let ?fin = "if rest = [] then [] else ''-- '' @ TrimLeftSpace rest"
  have "CHR 0x00 \<notin> set s"
    using no_NUL_params [OF ok(2)] ok(1) by (auto simp: s TrimLeftSpace_def dest: set_dropWhileD)
  moreover have "TrimLeftSpace s = s"
    unfolding s using ok(2) by (rule trim_encoded) simp
  ultimately have "Unmarshal s = unmarshal_loop ?fin [] False (map (\<lambda>p. p\<lparr>pm_HasValue := False\<rparr>) params)"
    using unmarshal_params [OF ok(2), of ?fin "[]"] by (simp add: Unmarshal_def takeWhile_all s)
  also have "\<dots> = (map (\<lambda>p. p\<lparr>pm_HasValue := False\<rparr>) params, TrimLeftSpace rest, None)"
    using parse_dashes by (simp add: TrimLeftSpace_def)
  finally show "Unmarshal s = (map (\<lambda>p. p\<lparr>pm_HasValue := False\<rparr>) params, TrimLeftSpace rest, None)" .
qed

lemma Unmarshal_Marshal_witness:
  "Unmarshal (''root=\"/dev/sd a\" '' @ ''-- init'') =
     ([\<lparr>pm_Param = ''root'', pm_Value = ''/dev/sd a'', pm_HasValue = False\<rparr>], ''init'', None)"
proof -
  have "Marshal [\<lparr>pm_Param = ''root'', pm_Value = ''/dev/sd a'', pm_HasValue = True\<rparr>] '' init'' =
      Inr (''root=\"/dev/sd a\" '' @ ''-- init'')"
    by (simp add: Marshal_def check_param_def encode_param_def quoted_def containsSpace_def isSpace_def TrimLeftSpace_def)
  with Unmarshal_Marshal [of "[\<lparr>pm_Param = ''root'', pm_Value = ''/dev/sd a'', pm_HasValue = True\<rparr>]" "'' init''"]
  show ?thesis
    by (simp add: TrimLeftSpace_def isSpace_def)
qed

end
