(* ===== verification/Blockdev.thy ===== *)
theory Blockdev
  imports Prelude "HOL-Library.Word"
begin

text \<open>
  Block devices, \<^verbatim>\<open>osbase/blockdev\<close> (\<^verbatim>\<open>blockdev.go\<close>, \<^verbatim>\<open>memory.go\<close>). The Go interface \<^verbatim>\<open>BlockDev\<close> is a
  record of operations over a type of device states; an operation that writes returns the new
  state. \<^verbatim>\<open>Memory\<close> and \<^verbatim>\<open>Section\<close> are two implementations, a section of any device being a device
  again. The locale \<open>block_device\<close> states what a client may rely on.

  A read of \<open>n\<close> bytes returns the bytes it puts at the front of the buffer and the error; a write
  returns the new state, the number of bytes written and the error. Slicing out of range is the
  error \<open>IoPanic\<close>. Byte offsets are unbounded integers: they stay far below \<^verbatim>\<open>2^63\<close> on any device.
\<close>

section \<open>The interface\<close>

type_synonym byte = "8 word"
type_synonym bytes = "byte list"

datatype io_err = EOF | ErrOutOfBounds | ErrRange string | IoPanic

record 'd block_dev =
  BlockSize :: "'d \<Rightarrow> int"
  BlockCount :: "'d \<Rightarrow> int"
  OptimalBlockSize :: "'d \<Rightarrow> int"
  ReadAt :: "'d \<Rightarrow> nat \<Rightarrow> int \<Rightarrow> bytes \<times> io_err option"
  WriteAt :: "'d \<Rightarrow> bytes \<Rightarrow> int \<Rightarrow> 'd \<times> nat \<times> io_err option"
  Discard :: "'d \<Rightarrow> int \<Rightarrow> int \<Rightarrow> 'd \<times> io_err option"
  Zero :: "'d \<Rightarrow> int \<Rightarrow> int \<Rightarrow> 'd \<times> io_err option"

definition overwrite :: "nat \<Rightarrow> 'a list \<Rightarrow> 'a list \<Rightarrow> 'a list" where
  "overwrite off p xs = take off xs @ p @ drop (off + length p) xs"

text \<open>\<^verbatim>\<open>copy(data[off:], p)\<close>\<close>

definition copy_at :: "nat \<Rightarrow> 'a list \<Rightarrow> 'a list \<Rightarrow> 'a list" where
  "copy_at off p xs = overwrite off (take (length xs - off) p) xs"

section \<open>Memory\<close>

record mem =
  mm_blockSize :: int
  mm_blockCount :: int
  mm_data :: bytes

fun OnesCount :: "nat \<Rightarrow> nat" where
  "OnesCount n = (if n = 0 then 0 else n mod 2 + OnesCount (n div 2))"

declare OnesCount.simps [simp del]

definition NewMemory :: "int \<Rightarrow> int \<Rightarrow> (string, mem) result" where
  "NewMemory blockSize blockCount =
     (if blockSize \<le> 0 then Inl ''block size cannot be zero or negative''
      else if OnesCount (nat blockSize) > 1 then Inl ''block size must be a power of two''
      else if blockCount < 0 then Inl ''block count cannot be negative''
      else Inr \<lparr>mm_blockSize = blockSize, mm_blockCount = blockCount,
                mm_data = replicate (nat (blockSize * blockCount)) 0\<rparr>)"

definition mem_ReadAt :: "mem \<Rightarrow> nat \<Rightarrow> int \<Rightarrow> bytes \<times> io_err option" where
  "mem_ReadAt m len off =
     (let devSize = mm_blockSize m * mm_blockCount m in
      if off > devSize then ([], Some EOF)
      else if off < 0 \<or> off > int (length (mm_data m)) then ([], Some IoPanic)
      else
        (let src = drop (nat off) (mm_data m) in
         if length src < len then (src, Some EOF) else (take len src, None)))"

definition mem_WriteAt :: "mem \<Rightarrow> bytes \<Rightarrow> int \<Rightarrow> mem \<times> nat \<times> io_err option" where
  "mem_WriteAt m p off =
     (let devSize = mm_blockSize m * mm_blockCount m in
      if off > devSize then (m, 0, Some EOF)
      else if off < 0 \<or> off > int (length (mm_data m)) then (m, 0, Some IoPanic)
      else
        (let m1 = m\<lparr>mm_data := copy_at (nat off) p (mm_data m)\<rparr>;
             n = length (mm_data m) - nat off in
         if n < length p then (m1, n, Some EOF) else (m1, length p, None)))"

definition mem_validRange :: "mem \<Rightarrow> int \<Rightarrow> int \<Rightarrow> io_err option" where
  "mem_validRange m startByte endByte =
     (let devSize = mm_blockSize m * mm_blockCount m in
      if startByte > endByte then Some (ErrRange ''startByte larger than endByte'')
      else if startByte \<ge> devSize \<or> startByte < 0 then Some (ErrRange ''startByte out of range'')
      else if endByte > devSize \<or> endByte < 0 then Some (ErrRange ''endByte out of range'')
      else if and startByte (mm_blockSize m - 1) \<noteq> 0 then Some (ErrRange ''startByte is not aligned'')
      else if and endByte (mm_blockSize m - 1) \<noteq> 0 then Some (ErrRange ''endByte is not aligned'')
      else None)"

definition fill :: "byte \<Rightarrow> int \<Rightarrow> int \<Rightarrow> bytes \<Rightarrow> bytes" where
  "fill b startByte endByte xs = copy_at (nat startByte) (replicate (nat (endByte - startByte)) b) xs"

definition mem_Discard :: "mem \<Rightarrow> int \<Rightarrow> int \<Rightarrow> mem \<times> io_err option" where
  "mem_Discard m startByte endByte =
     (case mem_validRange m startByte endByte of
        Some err \<Rightarrow> (m, Some err)
      | None \<Rightarrow> (m\<lparr>mm_data := fill 0xAA startByte endByte (mm_data m)\<rparr>, None))"

definition mem_Zero :: "mem \<Rightarrow> int \<Rightarrow> int \<Rightarrow> mem \<times> io_err option" where
  "mem_Zero m startByte endByte =
     (case mem_validRange m startByte endByte of
        Some err \<Rightarrow> (m, Some err)
      | None \<Rightarrow> (m\<lparr>mm_data := fill 0 startByte endByte (mm_data m)\<rparr>, None))"

definition mem_ops :: "mem block_dev" where
  "mem_ops =
     \<lparr>BlockSize = mm_blockSize, BlockCount = mm_blockCount, OptimalBlockSize = mm_blockSize,
      ReadAt = mem_ReadAt, WriteAt = mem_WriteAt, Discard = mem_Discard, Zero = mem_Zero\<rparr>"

section \<open>Sections\<close>

record 'd bd_section =
  sec_b :: 'd
  sec_startBlock :: int
  sec_endBlock :: int

definition NewSection :: "'d \<Rightarrow> int \<Rightarrow> int \<Rightarrow> 'd bd_section" where
  "NewSection b startBlock endBlock = \<lparr>sec_b = b, sec_startBlock = startBlock, sec_endBlock = endBlock\<rparr>"

definition sec_ReadAt :: "'d block_dev \<Rightarrow> 'd bd_section \<Rightarrow> nat \<Rightarrow> int \<Rightarrow> bytes \<times> io_err option" where
  "sec_ReadAt ops s len off =
     (let bs = BlockSize ops (sec_b s);
          bOff = off + sec_startBlock s * bs;
          bytesToEnd = sec_endBlock s * bs - bOff in
      if bytesToEnd \<le> 0 then ([], Some EOF)
      else if bytesToEnd < int len then ReadAt ops (sec_b s) (nat bytesToEnd) bOff
      else ReadAt ops (sec_b s) len bOff)"

definition sec_WriteAt :: "'d block_dev \<Rightarrow> 'd bd_section \<Rightarrow> bytes \<Rightarrow> int \<Rightarrow> 'd bd_section \<times> nat \<times> io_err option" where
  "sec_WriteAt ops s p off =
     (let bs = BlockSize ops (sec_b s);
          bOff = off + sec_startBlock s * bs;
          bytesToEnd = sec_endBlock s * bs - bOff in
      if bytesToEnd \<le> 0 then (s, 0, Some ErrOutOfBounds)
      else if bytesToEnd < int (length p) then
        (case WriteAt ops (sec_b s) (take (nat bytesToEnd) p) (off + sec_startBlock s * bs) of
           (b1, n, Some err) \<Rightarrow> (s\<lparr>sec_b := b1\<rparr>, n, Some err)
         | (b1, n, None) \<Rightarrow> (s\<lparr>sec_b := b1\<rparr>, n, Some ErrOutOfBounds))
      else
        (case WriteAt ops (sec_b s) p (off + sec_startBlock s * bs) of
           (b1, n, err) \<Rightarrow> (s\<lparr>sec_b := b1\<rparr>, n, err)))"

definition sec_BlockCount :: "'d bd_section \<Rightarrow> int" where
  "sec_BlockCount s = sec_endBlock s - sec_startBlock s"

definition sec_BlockSize :: "'d block_dev \<Rightarrow> 'd bd_section \<Rightarrow> int" where
  "sec_BlockSize ops s = BlockSize ops (sec_b s)"

definition sec_inRange :: "'d block_dev \<Rightarrow> 'd bd_section \<Rightarrow> int \<Rightarrow> int \<Rightarrow> io_err option" where
  "sec_inRange ops s startByte endByte =
     (if startByte > endByte then Some (ErrRange ''invalid range: startByte bigger than endByte'')
      else
        (let sectionLen = sec_BlockCount s * sec_BlockSize ops s in
         if startByte \<ge> sectionLen then Some (ErrRange ''startByte out of range'')
         else if endByte > sectionLen then Some (ErrRange ''endBlock out of range'')
         else None))"

definition sec_Discard :: "'d block_dev \<Rightarrow> 'd bd_section \<Rightarrow> int \<Rightarrow> int \<Rightarrow> 'd bd_section \<times> io_err option" where
  "sec_Discard ops s startByte endByte =
     (case sec_inRange ops s startByte endByte of
        Some err \<Rightarrow> (s, Some err)
      | None \<Rightarrow>
          (let offset = sec_startBlock s * BlockSize ops (sec_b s);
               (b1, err) = Discard ops (sec_b s) (offset + startByte) (offset + endByte) in
           (s\<lparr>sec_b := b1\<rparr>, err)))"

definition sec_OptimalBlockSize :: "'d block_dev \<Rightarrow> 'd bd_section \<Rightarrow> int" where
  "sec_OptimalBlockSize ops s = OptimalBlockSize ops (sec_b s)"

definition sec_Zero :: "'d block_dev \<Rightarrow> 'd bd_section \<Rightarrow> int \<Rightarrow> int \<Rightarrow> 'd bd_section \<times> io_err option" where
  "sec_Zero ops s startByte endByte =
     (case sec_inRange ops s startByte endByte of
        Some err \<Rightarrow> (s, Some err)
      | None \<Rightarrow>
          (let offset = sec_startBlock s * BlockSize ops (sec_b s);
               (b1, err) = Zero ops (sec_b s) (offset + startByte) (offset + endByte) in
           (s\<lparr>sec_b := b1\<rparr>, err)))"

definition section_ops :: "'d block_dev \<Rightarrow> 'd bd_section block_dev" where
  "section_ops ops =
     \<lparr>BlockSize = sec_BlockSize ops, BlockCount = sec_BlockCount, OptimalBlockSize = sec_OptimalBlockSize ops,
      ReadAt = sec_ReadAt ops, WriteAt = sec_WriteAt ops, Discard = sec_Discard ops, Zero = sec_Zero ops\<rparr>"

section \<open>Seeking and generic zeroing\<close>

record 'd read_write_seeker =
  rws_b :: 'd
  rws_currPos :: int

datatype whence = SeekStart | SeekCurrent | SeekEnd

definition NewRWS :: "'d \<Rightarrow> 'd read_write_seeker" where
  "NewRWS b = \<lparr>rws_b = b, rws_currPos = 0\<rparr>"

definition rws_Read :: "'d block_dev \<Rightarrow> 'd read_write_seeker \<Rightarrow> nat \<Rightarrow> 'd read_write_seeker \<times> bytes \<times> io_err option" where
  "rws_Read ops s len =
     (let (p, err) = ReadAt ops (rws_b s) len (rws_currPos s) in
      (s\<lparr>rws_currPos := rws_currPos s + int (length p)\<rparr>, p, err))"

definition rws_Write :: "'d block_dev \<Rightarrow> 'd read_write_seeker \<Rightarrow> bytes \<Rightarrow> 'd read_write_seeker \<times> nat \<times> io_err option" where
  "rws_Write ops s p =
     (let (b1, n, err) = WriteAt ops (rws_b s) p (rws_currPos s) in
      (s\<lparr>rws_b := b1, rws_currPos := rws_currPos s + int n\<rparr>, n, err))"

definition rws_Seek :: "'d block_dev \<Rightarrow> 'd read_write_seeker \<Rightarrow> int \<Rightarrow> whence \<Rightarrow> 'd read_write_seeker \<times> int" where
  "rws_Seek ops s offset wh =
     (let pos = (case wh of
                   SeekCurrent \<Rightarrow> rws_currPos s + offset
                 | SeekStart \<Rightarrow> offset
                 | SeekEnd \<Rightarrow> BlockCount ops (rws_b s) * BlockSize ops (rws_b s) - offset) in
      (s\<lparr>rws_currPos := pos\<rparr>, pos))"

text \<open>The loop of \<^verbatim>\<open>GenericZero\<close>; a buffer of no bytes would make it run forever, which \<open>None\<close> stands for.\<close>

function zero_loop :: "'d block_dev \<Rightarrow> 'd \<Rightarrow> int \<Rightarrow> int \<Rightarrow> int \<Rightarrow> ('d \<times> io_err option) option" where
  "zero_loop ops b i endByte bufSize =
     (if i < endByte then
        (if bufSize \<le> 0 then None
         else
           (let len = (if endByte - i < bufSize then endByte - i else bufSize) in
            case WriteAt ops b (replicate (nat len) 0) i of
              (b1, _, Some err) \<Rightarrow> Some (b1, Some err)
            | (b1, _, None) \<Rightarrow> zero_loop ops b1 (i + bufSize) endByte bufSize))
      else Some (b, None))"
  by pat_completeness auto
termination
  by (relation "measure (\<lambda>(_, _, i, endByte, _). nat (endByte - i))") auto

declare zero_loop.simps [simp del]

definition GenericZero :: "'d block_dev \<Rightarrow> 'd \<Rightarrow> int \<Rightarrow> int \<Rightarrow> ('d \<times> io_err option) option" where
  "GenericZero ops b startByte endByte =
     (let bs = BlockSize ops b in
      if startByte mod bs \<noteq> 0 then Some (b, Some (ErrRange ''startByte needs to be aligned to block size''))
      else if endByte mod bs \<noteq> 0 then Some (b, Some (ErrRange ''endByte needs to be aligned to block size''))
      else
        (let bufSizeTarget = (if endByte - startByte < 16 * 1024 * 1024 then endByte - startByte else 16 * 1024 * 1024);
             bufSize = (bufSizeTarget div bs) * bs in
         if bufSize < 0 then Some (b, Some IoPanic)
         else zero_loop ops b startByte endByte bufSize))"

section \<open>What a block device promises\<close>

lemma length_overwrite: "off + length p \<le> length xs \<Longrightarrow> length (overwrite off p xs) = length xs"
  by (simp add: overwrite_def)

lemma copy_at_fits: "off + length p \<le> length xs \<Longrightarrow> copy_at off p xs = overwrite off p xs"
  by (simp add: copy_at_def)

lemma length_copy_at: "off \<le> length xs \<Longrightarrow> length (copy_at off p xs) = length xs"
  by (simp add: copy_at_def overwrite_def)

lemma overwrite_take_drop:
  "a \<le> off \<Longrightarrow> off + length p \<le> b \<Longrightarrow> b \<le> length xs \<Longrightarrow>
     take (b - a) (drop a (overwrite off p xs)) = overwrite (off - a) p (take (b - a) (drop a xs))"
  by (rule nth_equalityI) (auto simp: overwrite_def nth_append intro!: arg_cong [where f = "nth xs"])

lemma overwrite_nth_other:
  "off + length p \<le> length xs \<Longrightarrow> i < length xs \<Longrightarrow> i < off \<or> off + length p \<le> i \<Longrightarrow> overwrite off p xs ! i = xs ! i"
  by (auto simp: overwrite_def nth_append)

lemma overwrite_overwrite:
  "off + length p \<le> length xs \<Longrightarrow> overwrite (off + length p) q (overwrite off p xs) = overwrite off (p @ q) xs"
  by (simp add: overwrite_def add_ac)

lemma overwrite_Nil [simp]: "overwrite off [] xs = xs"
  by (simp add: overwrite_def)

lemma overwrite_read: "off + length p \<le> length xs \<Longrightarrow> take (length p) (drop off (overwrite off p xs)) = p"
  by (simp add: overwrite_def)

lemma take_drop_window:
  assumes "a + off + n \<le> b"
  shows "take n (drop (off + a) xs) = take n (drop off (take (b - a) (drop a xs)))"
proof -
  have "min n (b - (a + off)) = n"
    using assms by simp
  then show ?thesis
    by (simp add: drop_take add.commute)
qed

locale block_device =
  fixes ops :: "'d block_dev" and content :: "'d \<Rightarrow> bytes" and ok :: "'d \<Rightarrow> bool"
  assumes geometry: "ok d \<Longrightarrow>
      BlockSize ops d > 0 \<and> BlockCount ops d \<ge> 0 \<and> int (length (content d)) = BlockSize ops d * BlockCount ops d"
    and read_inside: "ok d \<Longrightarrow> 0 \<le> off \<Longrightarrow> 0 < n \<Longrightarrow> off + int n \<le> int (length (content d)) \<Longrightarrow>
      ReadAt ops d n off = (take n (drop (nat off) (content d)), None)"
    and write_inside: "ok d \<Longrightarrow> 0 \<le> off \<Longrightarrow> 0 < length p \<Longrightarrow> off + int (length p) \<le> int (length (content d)) \<Longrightarrow>
      \<exists>d'. WriteAt ops d p off = (d', length p, None) \<and> ok d' \<and> BlockSize ops d' = BlockSize ops d \<and>
           BlockCount ops d' = BlockCount ops d \<and> content d' = overwrite (nat off) p (content d)"
    and zero_inside: "ok d \<Longrightarrow> 0 \<le> a \<Longrightarrow> a < b \<Longrightarrow> b \<le> int (length (content d)) \<Longrightarrow>
      a mod BlockSize ops d = 0 \<Longrightarrow> b mod BlockSize ops d = 0 \<Longrightarrow>
      \<exists>d'. Zero ops d a b = (d', None) \<and> ok d' \<and> BlockSize ops d' = BlockSize ops d \<and>
           BlockCount ops d' = BlockCount ops d \<and> content d' = overwrite (nat a) (replicate (nat (b - a)) 0) (content d)"
begin

lemma zero_loop_zeroes:
  assumes "ok d" and "0 \<le> i" and "i \<le> e" and "e \<le> int (length (content d))" and "0 < buf"
  shows "\<exists>d'. zero_loop ops d i e buf = Some (d', None) \<and> ok d' \<and> BlockSize ops d' = BlockSize ops d \<and>
           BlockCount ops d' = BlockCount ops d \<and> content d' = overwrite (nat i) (replicate (nat (e - i)) 0) (content d)"
  using assms
proof (induction "nat (e - i)" arbitrary: d i rule: less_induct)
  case less
  show ?case
  proof (cases "i < e")
    case False
    then show ?thesis
      using less.prems by (subst zero_loop.simps) auto
  next
    case True
    define len where "len = (if e - i < buf then e - i else buf)"
    have pos: "0 < len" "i + len \<le> e"
      using True less.prems(5) by (auto simp: len_def)
    obtain d1 where d1: "WriteAt ops d (replicate (nat len) 0) i = (d1, nat len, None)" "ok d1"
        "BlockSize ops d1 = BlockSize ops d" "BlockCount ops d1 = BlockCount ops d"
        "content d1 = overwrite (nat i) (replicate (nat len) 0) (content d)"
      using write_inside [of d i "replicate (nat len) 0"] less.prems pos by auto
    have step: "zero_loop ops d i e buf = zero_loop ops d1 (i + buf) e buf"
      using True less.prems(5) d1(1) by (subst zero_loop.simps) (simp add: Let_def flip: len_def)
    have same: "length (content d1) = length (content d)"
      unfolding d1(5) using less.prems pos by (intro length_overwrite) auto
    show ?thesis
    proof (cases "e - i < buf")
      case last: True
      then have "zero_loop ops d1 (i + buf) e buf = Some (d1, None)"
        by (subst zero_loop.simps) simp
      then show ?thesis
        using step d1 last by (auto simp: len_def)
    next
      case False
      obtain d2 where d2: "zero_loop ops d1 (i + buf) e buf = Some (d2, None)" "ok d2"
          "BlockSize ops d2 = BlockSize ops d" "BlockCount ops d2 = BlockCount ops d"
          "content d2 = overwrite (nat (i + buf)) (replicate (nat (e - (i + buf))) 0) (content d1)"
        using less.hyps [of "i + buf" d1] less.prems True False d1(2-4) same by auto
      have "nat (i + buf) = nat i + length (replicate (nat buf) (0 :: byte))"
        using less.prems by (simp add: nat_add_distrib)
      moreover have "replicate (nat (e - i)) (0 :: byte) = replicate (nat buf) 0 @ replicate (nat (e - (i + buf))) 0"
        using False less.prems by (simp flip: replicate_add add: nat_add_distrib [symmetric])
      ultimately have "content d2 = overwrite (nat i) (replicate (nat (e - i)) 0) (content d)"
        using d2(5) d1(5) False len_def less.prems overwrite_overwrite [of "nat i" "replicate (nat buf) 0" "content d"] by auto
      then show ?thesis
        using step d2 by auto
    qed
  qed
qed

end

definition sec_content :: "'d block_dev \<Rightarrow> ('d \<Rightarrow> bytes) \<Rightarrow> 'd bd_section \<Rightarrow> bytes" where
  "sec_content ops content s =
     take (nat (sec_endBlock s * BlockSize ops (sec_b s)) - nat (sec_startBlock s * BlockSize ops (sec_b s)))
       (drop (nat (sec_startBlock s * BlockSize ops (sec_b s))) (content (sec_b s)))"

definition sec_ok :: "'d block_dev \<Rightarrow> ('d \<Rightarrow> bool) \<Rightarrow> 'd bd_section \<Rightarrow> bool" where
  "sec_ok ops ok s \<longleftrightarrow>
     ok (sec_b s) \<and> 0 \<le> sec_startBlock s \<and> sec_startBlock s \<le> sec_endBlock s \<and> sec_endBlock s \<le> BlockCount ops (sec_b s)"

lemma section_ops_simps [simp]:
  "BlockSize (section_ops ops) = sec_BlockSize ops" "BlockCount (section_ops ops) = sec_BlockCount"
  "ReadAt (section_ops ops) = sec_ReadAt ops" "WriteAt (section_ops ops) = sec_WriteAt ops"
  "Zero (section_ops ops) = sec_Zero ops" "Discard (section_ops ops) = sec_Discard ops"
  by (simp_all add: section_ops_def)

text \<open>The byte range of a section on its device.\<close>

abbreviation sec_from :: "'d block_dev \<Rightarrow> 'd bd_section \<Rightarrow> int" where
  "sec_from ops s \<equiv> sec_startBlock s * BlockSize ops (sec_b s)"

abbreviation sec_to :: "'d block_dev \<Rightarrow> 'd bd_section \<Rightarrow> int" where
  "sec_to ops s \<equiv> sec_endBlock s * BlockSize ops (sec_b s)"

context block_device
begin

lemma GenericZero_zeroes:
  assumes "ok d" and "0 \<le> a" and "a \<le> b" and "b \<le> int (length (content d))"
    and "a mod BlockSize ops d = 0" and "b mod BlockSize ops d = 0" and "BlockSize ops d \<le> 16 * 1024 * 1024"
  shows "\<exists>d'. GenericZero ops d a b = Some (d', None) \<and> ok d' \<and> content d' = overwrite (nat a) (replicate (nat (b - a)) 0) (content d)"
proof (cases "a = b")
  case True
  then show ?thesis
    using assms by (auto simp: GenericZero_def Let_def zero_loop.simps)
next
  case False
  let ?bs = "BlockSize ops d"
  let ?t = "if b - a < 16 * 1024 * 1024 then b - a else 16 * 1024 * 1024"
  have bs: "?bs > 0"
    using geometry [OF assms(1)] by simp
  have "?bs dvd b - a"
    using assms(5,6) by (simp add: dvd_eq_mod_eq_0 [symmetric])
  then have "?bs \<le> b - a"
    using False assms(3) by (intro zdvd_imp_le) auto
  then have "?bs \<le> ?t"
    using assms(7) by auto
  then have "?t div ?bs > 0"
    using bs by (simp add: pos_imp_zdiv_pos_iff)
  then have "?t div ?bs * ?bs > 0"
    using bs by (intro mult_pos_pos)
  then have pos: "\<not> ?t div ?bs * ?bs < 0" "0 < ?t div ?bs * ?bs"
    by simp_all
  have "GenericZero ops d a b = zero_loop ops d a b (?t div ?bs * ?bs)"
    unfolding GenericZero_def Let_def by (simp only: assms(5,6) pos(1) if_False simp_thms)
  then show ?thesis
    using zero_loop_zeroes [OF assms(1-4) pos(2)] by auto
qed

lemma section_geometry:
  assumes "sec_ok ops ok s"
  shows "0 \<le> sec_from ops s" "sec_from ops s \<le> sec_to ops s" "sec_to ops s \<le> int (length (content (sec_b s)))"
    "int (length (sec_content ops content s)) = sec_to ops s - sec_from ops s" "BlockSize ops (sec_b s) > 0"
proof -
  have g: "BlockSize ops (sec_b s) > 0" "int (length (content (sec_b s))) = BlockSize ops (sec_b s) * BlockCount ops (sec_b s)"
    using geometry [of "sec_b s"] assms by (auto simp: sec_ok_def)
  show from_to: "0 \<le> sec_from ops s" "sec_from ops s \<le> sec_to ops s" "sec_to ops s \<le> int (length (content (sec_b s)))"
    using assms g by (auto simp: sec_ok_def mult.commute [of "BlockSize ops (sec_b s)"] intro!: mult_right_mono)
  then show "int (length (sec_content ops content s)) = sec_to ops s - sec_from ops s"
    by (simp add: sec_content_def of_nat_diff)
  show "BlockSize ops (sec_b s) > 0"
    by (rule g)
qed

lemma section_write:
  assumes s: "sec_ok ops ok s" and off: "0 \<le> off" "0 < length p" "off + int (length p) \<le> int (length (sec_content ops content s))"
  shows "\<exists>b'. sec_WriteAt ops s p off = (s\<lparr>sec_b := b'\<rparr>, length p, None) \<and> ok b' \<and>
     BlockSize ops b' = BlockSize ops (sec_b s) \<and> BlockCount ops b' = BlockCount ops (sec_b s) \<and>
     content b' = overwrite (nat (off + sec_from ops s)) p (content (sec_b s))"
proof -
  note g = section_geometry [OF s]
  have "ok (sec_b s)"
    using s by (simp add: sec_ok_def)
  with g off obtain b' where b': "WriteAt ops (sec_b s) p (off + sec_from ops s) = (b', length p, None)" "ok b'"
      "BlockSize ops b' = BlockSize ops (sec_b s)" "BlockCount ops b' = BlockCount ops (sec_b s)"
      "content b' = overwrite (nat (off + sec_from ops s)) p (content (sec_b s))"
    using write_inside [of "sec_b s" "off + sec_from ops s" p] by auto
  moreover have "\<not> sec_to ops s - (off + sec_from ops s) \<le> 0" "\<not> sec_to ops s - (off + sec_from ops s) < int (length p)"
    using off g(4) by linarith+
  ultimately show ?thesis
    unfolding sec_WriteAt_def Let_def by (intro exI [of _ b']) simp
qed

lemma sec_content_overwrite:
  assumes s: "sec_ok ops ok s" and off: "0 \<le> off" "off + int (length p) \<le> int (length (sec_content ops content s))"
    and b': "BlockSize ops b' = BlockSize ops (sec_b s)" "content b' = overwrite (nat (off + sec_from ops s)) p (content (sec_b s))"
  shows "sec_content ops content (s\<lparr>sec_b := b'\<rparr>) = overwrite (nat off) p (sec_content ops content s)"
proof -
  note g = section_geometry [OF s]
  have "nat (off + sec_from ops s) - nat (sec_from ops s) = nat off"
    using off g by (simp add: nat_diff_distrib [symmetric])
  then show ?thesis
    using overwrite_take_drop [of "nat (sec_from ops s)" "nat (off + sec_from ops s)" p "nat (sec_to ops s)" "content (sec_b s)"]
      off g b' by (simp add: sec_content_def nat_le_eq_zle)
qed

lemma section_block_device: "block_device (section_ops ops) (sec_content ops content) (sec_ok ops ok)"
proof
  fix s :: "'d bd_section"
  assume "sec_ok ops ok s"
  then show "BlockSize (section_ops ops) s > 0 \<and> BlockCount (section_ops ops) s \<ge> 0 \<and>
      int (length (sec_content ops content s)) = BlockSize (section_ops ops) s * BlockCount (section_ops ops) s"
    using section_geometry [of s] by (simp add: sec_ok_def sec_BlockSize_def sec_BlockCount_def algebra_simps)
next
  fix s :: "'d bd_section" and off n
  assume s: "sec_ok ops ok s" and off: "0 \<le> off" "0 < n" "off + int n \<le> int (length (sec_content ops content s))"
  note g = section_geometry [OF s]
  have "ReadAt ops (sec_b s) n (off + sec_from ops s) = (take n (drop (nat (off + sec_from ops s)) (content (sec_b s))), None)"
    using s off g by (intro read_inside) (auto simp: sec_ok_def)
  moreover have "take n (drop (nat (off + sec_from ops s)) (content (sec_b s))) = take n (drop (nat off) (sec_content ops content s))"
    using off g take_drop_window [of "nat (sec_from ops s)" "nat off" n "nat (sec_to ops s)" "content (sec_b s)"]
    by (simp add: sec_content_def nat_add_distrib le_nat_iff)
  ultimately show "ReadAt (section_ops ops) s n off = (take n (drop (nat off) (sec_content ops content s)), None)"
    using off(2,3) g(4) by (simp add: sec_ReadAt_def Let_def)
next
  fix s :: "'d bd_section" and off and p :: bytes
  assume s: "sec_ok ops ok s" and off: "0 \<le> off" "0 < length p" "off + int (length p) \<le> int (length (sec_content ops content s))"
  obtain b' where "sec_WriteAt ops s p off = (s\<lparr>sec_b := b'\<rparr>, length p, None)" "ok b'"
     "BlockSize ops b' = BlockSize ops (sec_b s)" "BlockCount ops b' = BlockCount ops (sec_b s)"
     "content b' = overwrite (nat (off + sec_from ops s)) p (content (sec_b s))"
    using section_write [OF s off] by auto
  with sec_content_overwrite [OF s off(1,3)] s show
    "\<exists>s'. WriteAt (section_ops ops) s p off = (s', length p, None) \<and> sec_ok ops ok s' \<and>
      BlockSize (section_ops ops) s' = BlockSize (section_ops ops) s \<and> BlockCount (section_ops ops) s' = BlockCount (section_ops ops) s \<and>
      sec_content ops content s' = overwrite (nat off) p (sec_content ops content s)"
    by (intro exI [of _ "s\<lparr>sec_b := b'\<rparr>"]) (auto simp: sec_ok_def sec_BlockSize_def sec_BlockCount_def)
next
  fix s :: "'d bd_section" and a b
  assume s: "sec_ok ops ok s" and ab: "0 \<le> a" "a < b" "b \<le> int (length (sec_content ops content s))"
    "a mod BlockSize (section_ops ops) s = 0" "b mod BlockSize (section_ops ops) s = 0"
  note g = section_geometry [OF s]
  let ?z = "replicate (nat (b - a)) 0 :: bytes"
  have diff: "sec_from ops s + b - (sec_from ops s + a) = b - a"
    by simp
  have "\<exists>b'. Zero ops (sec_b s) (sec_from ops s + a) (sec_from ops s + b) = (b', None) \<and> ok b' \<and>
     BlockSize ops b' = BlockSize ops (sec_b s) \<and> BlockCount ops b' = BlockCount ops (sec_b s) \<and>
     content b' = overwrite (nat (a + sec_from ops s)) ?z (content (sec_b s))"
    using zero_inside [of "sec_b s" "sec_from ops s + a" "sec_from ops s + b"] s ab g
    unfolding diff by (simp add: sec_ok_def sec_BlockSize_def add.commute)
  then obtain b' where b': "Zero ops (sec_b s) (sec_from ops s + a) (sec_from ops s + b) = (b', None)" "ok b'"
     "BlockSize ops b' = BlockSize ops (sec_b s)" "BlockCount ops b' = BlockCount ops (sec_b s)"
     "content b' = overwrite (nat (a + sec_from ops s)) ?z (content (sec_b s))"
    by auto
  have "sec_inRange ops s a b = None"
    using ab g by (auto simp: sec_inRange_def Let_def sec_BlockCount_def sec_BlockSize_def algebra_simps)
  with b' sec_content_overwrite [OF s ab(1), of ?z b'] s ab show
    "\<exists>s'. Zero (section_ops ops) s a b = (s', None) \<and> sec_ok ops ok s' \<and>
      BlockSize (section_ops ops) s' = BlockSize (section_ops ops) s \<and> BlockCount (section_ops ops) s' = BlockCount (section_ops ops) s \<and>
      sec_content ops content s' = overwrite (nat a) ?z (sec_content ops content s)"
    by (intro exI [of _ "s\<lparr>sec_b := b'\<rparr>"]) (auto simp: sec_ok_def sec_BlockSize_def sec_BlockCount_def sec_Zero_def Let_def)
qed

end

section \<open>Memory devices and their sections keep the promise\<close>

definition mem_ok :: "mem \<Rightarrow> bool" where
  "mem_ok m \<longleftrightarrow> (\<exists>k. mm_blockSize m = 2 ^ k) \<and> mm_blockCount m \<ge> 0 \<and> int (length (mm_data m)) = mm_blockSize m * mm_blockCount m"

lemma OnesCount_pos: "n > 0 \<Longrightarrow> OnesCount n > 0"
proof (induction n rule: OnesCount.induct)
  case (1 n)
  then have "OnesCount n = n mod 2 + OnesCount (n div 2)"
    by (subst OnesCount.simps) simp
  moreover have "n div 2 > 0 \<or> n mod 2 > 0"
    using 1(2) by presburger
  ultimately show ?case
    using 1 by auto
qed

lemma OnesCount_le_1: "n > 0 \<Longrightarrow> OnesCount n \<le> 1 \<Longrightarrow> \<exists>k. n = 2 ^ k"
proof (induction n rule: OnesCount.induct)
  case (1 n)
  show ?case
  proof (cases "n = 1")
    case True
    then show ?thesis
      by (intro exI [of _ 0]) simp
  next
    case False
    then have half: "n div 2 > 0"
      using 1(2) by linarith
    have "OnesCount n = n mod 2 + OnesCount (n div 2)"
      using 1(2) by (subst OnesCount.simps) simp
    then have "n mod 2 = 0" "OnesCount (n div 2) \<le> 1"
      using 1(3) OnesCount_pos [OF half] by linarith+
    then obtain k where "n div 2 = 2 ^ k"
      using 1(1) [of] 1(2) half by auto
    then have "n = 2 ^ Suc k"
      using \<open>n mod 2 = 0\<close> by auto
    then show ?thesis
      by blast
  qed
qed

lemma NewMemory_ok: "NewMemory bs bc = Inr m \<Longrightarrow> mem_ok m \<and> mm_blockSize m = bs \<and> mm_blockCount m = bc \<and> set (mm_data m) \<subseteq> {0}"
  using OnesCount_le_1 [of "nat bs"]
  by (auto simp: NewMemory_def mem_ok_def split: if_splits)

lemma and_mask_mod: "and (x :: int) (2 ^ k - 1) = x mod 2 ^ k"
  by (simp flip: take_bit_eq_mod mask_eq_exp_minus_1 add: take_bit_eq_mask)

lemma mem_Zero_inside:
  assumes "mem_ok m" and "0 \<le> a" "a < b" "b \<le> int (length (mm_data m))" "a mod mm_blockSize m = 0" "b mod mm_blockSize m = 0"
  shows "mem_Zero m a b = (m\<lparr>mm_data := overwrite (nat a) (replicate (nat (b - a)) 0) (mm_data m)\<rparr>, None)"
  using assms by (auto simp: mem_Zero_def mem_validRange_def mem_ok_def Let_def and_mask_mod fill_def copy_at_fits)

lemma mem_WriteAt_inside:
  assumes "mem_ok m" and "0 \<le> off" "off + int (length p) \<le> int (length (mm_data m))"
  shows "mem_WriteAt m p off = (m\<lparr>mm_data := overwrite (nat off) p (mm_data m)\<rparr>, length p, None)"
proof -
  have "nat off + length p \<le> length (mm_data m)"
    using assms(2,3) by linarith
  then show ?thesis
    using assms by (auto simp: mem_WriteAt_def mem_ok_def Let_def copy_at_fits)
qed

lemma mem_ok_overwrite: "mem_ok m \<Longrightarrow> off + length p \<le> length (mm_data m) \<Longrightarrow> mem_ok (m\<lparr>mm_data := overwrite off p (mm_data m)\<rparr>)"
  by (simp add: mem_ok_def length_overwrite)

interpretation mem: block_device mem_ops mm_data mem_ok
proof
  fix m off and n :: nat
  assume "mem_ok m" "0 \<le> off" "0 < n" "off + int n \<le> int (length (mm_data m))"
  then show "ReadAt mem_ops m n off = (take n (drop (nat off) (mm_data m)), None)"
    by (auto simp: mem_ops_def mem_ReadAt_def mem_ok_def Let_def)
next
  fix m off and p :: bytes
  assume "mem_ok m" "0 \<le> off" "0 < length p" "off + int (length p) \<le> int (length (mm_data m))"
  then show "\<exists>m'. WriteAt mem_ops m p off = (m', length p, None) \<and> mem_ok m' \<and> BlockSize mem_ops m' = BlockSize mem_ops m \<and>
      BlockCount mem_ops m' = BlockCount mem_ops m \<and> mm_data m' = overwrite (nat off) p (mm_data m)"
    by (auto simp: mem_ops_def mem_WriteAt_inside intro!: mem_ok_overwrite)
next
  fix m a b
  assume "mem_ok m" "0 \<le> a" "a < b" "b \<le> int (length (mm_data m))" "a mod BlockSize mem_ops m = 0" "b mod BlockSize mem_ops m = 0"
  then show "\<exists>m'. Zero mem_ops m a b = (m', None) \<and> mem_ok m' \<and> BlockSize mem_ops m' = BlockSize mem_ops m \<and>
      BlockCount mem_ops m' = BlockCount mem_ops m \<and> mm_data m' = overwrite (nat a) (replicate (nat (b - a)) 0) (mm_data m)"
    by (auto simp: mem_ops_def mem_Zero_inside intro!: mem_ok_overwrite)
qed (auto simp: mem_ops_def mem_ok_def)

interpretation memsec: block_device "section_ops mem_ops" "sec_content mem_ops mm_data" "sec_ok mem_ops mem_ok"
  by (rule mem.section_block_device)

section \<open>Sections confine writes\<close>

lemma sec_WriteAt_mem:
  assumes "mem_ok m" and "0 \<le> a" "a \<le> b" "b \<le> mm_blockCount m" and "0 \<le> off"
    and "sec_WriteAt mem_ops (NewSection m a b) p off = (s', n, err)"
  shows "\<exists>k \<le> length p. n = k \<and> s' = NewSection (m\<lparr>mm_data := overwrite (nat (off + a * mm_blockSize m)) (take k p) (mm_data m)\<rparr>) a b \<and>
    k = min (length p) (nat (b * mm_blockSize m - (off + a * mm_blockSize m))) \<and>
    err = (if k < length p \<or> off + a * mm_blockSize m \<ge> b * mm_blockSize m then Some ErrOutOfBounds else None)"
proof -
  have bs: "mm_blockSize m > 0" and len: "int (length (mm_data m)) = mm_blockSize m * mm_blockCount m"
    using assms(1) by (auto simp: mem_ok_def)
  have b: "b * mm_blockSize m \<le> int (length (mm_data m))"
    unfolding len using assms(4) bs by (simp add: mult.commute)
  have a: "0 \<le> a * mm_blockSize m"
    using assms(2) bs by simp
  let ?left = "b * mm_blockSize m - (off + a * mm_blockSize m)"
  consider (out) "?left \<le> 0" | (short) "0 < ?left" "?left < int (length p)" | (full) "0 < ?left" "int (length p) \<le> ?left"
    by linarith
  then show ?thesis
  proof cases
    case out
    then show ?thesis
      using assms(6) by (auto simp: sec_WriteAt_def mem_ops_def NewSection_def Let_def intro!: exI [of _ 0])
  next
    case short
    then have "mem_WriteAt m (take (nat ?left) p) (off + a * mm_blockSize m) =
        (m\<lparr>mm_data := overwrite (nat (off + a * mm_blockSize m)) (take (nat ?left) p) (mm_data m)\<rparr>, length (take (nat ?left) p), None)"
      using assms(1,5) a b by (intro mem_WriteAt_inside) auto
    then show ?thesis
      using assms(6) short by (auto simp: sec_WriteAt_def mem_ops_def NewSection_def Let_def intro!: exI [of _ "nat ?left"])
  next
    case full
    then have "mem_WriteAt m p (off + a * mm_blockSize m) =
        (m\<lparr>mm_data := overwrite (nat (off + a * mm_blockSize m)) p (mm_data m)\<rparr>, length p, None)"
      using assms(1,5) a b by (intro mem_WriteAt_inside) auto
    then show ?thesis
      using assms(6) full by (auto simp: sec_WriteAt_def mem_ops_def NewSection_def Let_def intro!: exI [of _ "length p"])
  qed
qed

text \<open>C31: a write through a section of a memory device, at whatever non-negative offset and of whatever
  length, changes no byte outside the section and not the size of the device. It writes, at this offset of the section, the bytes
  from the front of the data, as many as there are up to the section's end, and changes no other byte; it returns this number,
  and reports \<^verbatim>\<open>ErrOutOfBounds\<close> exactly if that is not everything or the offset is not in front of the section's end.\<close>

theorem section_confines_writes:
  assumes "mem_ok m" and "0 \<le> a" "a \<le> b" "b \<le> mm_blockCount m" and "0 \<le> off"
    and "sec_WriteAt mem_ops (NewSection m a b) p off = (s', n, err)"
  shows "length (mm_data (sec_b s')) = length (mm_data m) \<and>
    (\<forall>i < length (mm_data m). int i < a * mm_blockSize m \<or> b * mm_blockSize m \<le> int i \<longrightarrow> mm_data (sec_b s') ! i = mm_data m ! i) \<and>
    n = min (length p) (nat ((b - a) * mm_blockSize m - off)) \<and>
    (\<forall>j < n. mm_data (sec_b s') ! (nat (off + a * mm_blockSize m) + j) = p ! j) \<and>
    (\<forall>i < length (mm_data m). int i < off + a * mm_blockSize m \<or> off + a * mm_blockSize m + int n \<le> int i \<longrightarrow> mm_data (sec_b s') ! i = mm_data m ! i) \<and>
    (err = (if n < length p \<or> off + a * mm_blockSize m \<ge> b * mm_blockSize m then Some ErrOutOfBounds else None))"
proof -
  have bs: "mm_blockSize m > 0" and len: "int (length (mm_data m)) = mm_blockSize m * mm_blockCount m"
    using assms(1) by (auto simp: mem_ok_def)
  have b: "b * mm_blockSize m \<le> int (length (mm_data m))" and a: "0 \<le> a * mm_blockSize m"
    unfolding len using assms(2,4) bs by (simp_all add: mult.commute)
  let ?at = "nat (off + a * mm_blockSize m)"
  from sec_WriteAt_mem [OF assms] have n: "n \<le> length p" "n = min (length p) (nat (b * mm_blockSize m - (off + a * mm_blockSize m)))"
      and s': "s' = NewSection (m\<lparr>mm_data := overwrite ?at (take n p) (mm_data m)\<rparr>) a b"
      and err: "err = (if n < length p \<or> off + a * mm_blockSize m \<ge> b * mm_blockSize m then Some ErrOutOfBounds else None)"
    by auto
  have fits: "n > 0 \<Longrightarrow> off + a * mm_blockSize m + int n \<le> b * mm_blockSize m"
    using n(2) by linarith
  have n_eq: "n = min (length p) (nat ((b - a) * mm_blockSize m - off))"
    using n(2) by (simp add: algebra_simps)
  have data: "mm_data (sec_b s') = overwrite ?at (take n p) (mm_data m)"
    by (simp add: s' NewSection_def)
  show ?thesis
  proof (cases "n = 0")
    case True
    then show ?thesis
      using data err n_eq by simp
  next
    case False
    then have in_range: "?at + length (take n p) \<le> length (mm_data m)"
      using fits b a n(1) assms(5) by auto
    have other: "mm_data (sec_b s') ! i = mm_data m ! i"
      if "i < length (mm_data m)" "int i < off + a * mm_blockSize m \<or> off + a * mm_blockSize m + int n \<le> int i" for i
      unfolding data using in_range that fits False n(1) a assms(5)
      by (intro overwrite_nth_other) (auto simp: zless_nat_eq_int_zless)
    moreover have "mm_data (sec_b s') ! i = mm_data m ! i"
      if "i < length (mm_data m)" "int i < a * mm_blockSize m \<or> b * mm_blockSize m \<le> int i" for i
      using that fits False assms(5) by (intro other) auto
    moreover have "mm_data (sec_b s') ! (?at + j) = p ! j" if "j < n" for j
      unfolding data using in_range that n(1) by (simp add: overwrite_def nth_append)
    moreover have "length (mm_data (sec_b s')) = length (mm_data m)"
      unfolding data using in_range by (rule length_overwrite)
    ultimately show ?thesis
      using n_eq err by blast
  qed
qed

lemma section_confines_writes_witness:
  "\<exists>s' n err. sec_WriteAt mem_ops (NewSection \<lparr>mm_blockSize = 2, mm_blockCount = 4, mm_data = replicate 8 7\<rparr> 1 3) [1, 2, 3] 2 = (s', n, err) \<and>
     mm_data (sec_b s') ! 7 = 7 \<and> err = Some ErrOutOfBounds"
proof -
  let ?m = "\<lparr>mm_blockSize = 2, mm_blockCount = 4, mm_data = replicate 8 7\<rparr>"
  have ok: "mem_ok ?m"
    by (auto simp: mem_ok_def intro!: exI [of _ "Suc 0"])
  obtain s' n err where w: "sec_WriteAt mem_ops (NewSection ?m 1 3) [1, 2, 3] 2 = (s', n, err)"
    by (cases "sec_WriteAt mem_ops (NewSection ?m 1 3) [1, 2, 3] 2")
  have "mm_data (sec_b s') ! 7 = 7 \<and> n = 2 \<and> err = Some ErrOutOfBounds"
    using section_confines_writes [OF ok _ _ _ _ w] by auto
  then show ?thesis
    using w by auto
qed

text \<open>A negative offset is not checked. A write through a section with one changes the bytes in
  front of the section and reports success, and so does zeroing.\<close>

theorem section_negative_offset_escapes:
  "let s = NewSection \<lparr>mm_blockSize = 2, mm_blockCount = 4, mm_data = replicate 8 7\<rparr> 2 3 in
   (case sec_WriteAt mem_ops s [1, 2] (- 2) of (s', n, err) \<Rightarrow> mm_data (sec_b s') = [7, 7, 1, 2, 7, 7, 7, 7] \<and> n = 2 \<and> err = None) \<and>
   (case sec_Zero mem_ops s (- 4) 0 of (s', err) \<Rightarrow> mm_data (sec_b s') = [0, 0, 0, 0, 7, 7, 7, 7] \<and> err = None)"
  by (simp add: sec_WriteAt_def sec_Zero_def sec_inRange_def sec_BlockCount_def sec_BlockSize_def NewSection_def mem_ops_def
      mem_WriteAt_def mem_Zero_def mem_validRange_def fill_def copy_at_def overwrite_def Let_def numeral_eq_Suc)

text \<open>C38: software zeroing of an aligned range of a section of a memory device (blocks of at most 16 MiB)
  terminates, succeeds, and zeroes exactly that range of the section.\<close>

theorem GenericZero_section:
  assumes "mem_ok m" and "0 \<le> a" "a \<le> b" "b \<le> mm_blockCount m" and "mm_blockSize m \<le> 16 * 1024 * 1024"
    and "0 \<le> x" "x \<le> y" "y \<le> (b - a) * mm_blockSize m" and "x mod mm_blockSize m = 0" "y mod mm_blockSize m = 0"
  shows "\<exists>s'. GenericZero (section_ops mem_ops) (NewSection m a b) x y = Some (s', None) \<and>
    sec_content mem_ops mm_data s' = overwrite (nat x) (replicate (nat (y - x)) 0) (sec_content mem_ops mm_data (NewSection m a b))"
proof -
  have ok: "sec_ok mem_ops mem_ok (NewSection m a b)"
    using assms by (simp add: sec_ok_def NewSection_def mem_ops_def)
  have "int (length (sec_content mem_ops mm_data (NewSection m a b))) = (b - a) * mm_blockSize m"
    using mem.section_geometry(4) [OF ok] by (simp add: NewSection_def mem_ops_def algebra_simps)
  then show ?thesis
    using memsec.GenericZero_zeroes [OF ok assms(6,7)] assms by (auto simp: sec_BlockSize_def NewSection_def mem_ops_def)
qed

lemma GenericZero_section_witness:
  "\<exists>s'. GenericZero (section_ops mem_ops) (NewSection \<lparr>mm_blockSize = 2, mm_blockCount = 4, mm_data = replicate 8 7\<rparr> 1 3) 2 4 = Some (s', None) \<and>
     sec_content mem_ops mm_data s' = [7, 7, 0, 0]"
proof -
  let ?m = "\<lparr>mm_blockSize = 2, mm_blockCount = 4, mm_data = replicate 8 7\<rparr>"
  have ok: "mem_ok ?m"
    by (auto simp: mem_ok_def intro!: exI [of _ "Suc 0"])
  have "sec_content mem_ops mm_data (NewSection ?m 1 3) = [7, 7, 7, 7]"
    by (simp add: sec_content_def NewSection_def mem_ops_def numeral_eq_Suc)
  with GenericZero_section [OF ok, of 1 3 2 4] show ?thesis
    by (simp add: overwrite_def numeral_eq_Suc)
qed

end
