(* ===== verification/Gpt.thy ===== *)
theory Gpt
  imports Blockdev "HOL-Library.Signed_Division"
begin

text \<open>
  GUID partition tables, \<^verbatim>\<open>osbase/gpt/gpt.go\<close>: the table in memory, finding free space and placing a
  partition. The geometry of the block device (\<^verbatim>\<open>BlockSize\<close>, \<^verbatim>\<open>BlockCount\<close>) is an argument. Go's
  \<^verbatim>\<open>/\<close> and \<^verbatim>\<open>%\<close> on signed integers truncate towards zero; they are \<open>sdiv\<close> and \<open>smod\<close>. Block numbers
  are integers; the conversions to \<^verbatim>\<open>uint64\<close> and \<^verbatim>\<open>int64\<close> are written out. A random UUID
  (\<^verbatim>\<open>uuid.New\<close>) is an argument. Partition names are sequences of Unicode code points.
\<close>

section \<open>Tables and partitions\<close>

type_synonym uuid = bytes

definition uuid_Nil :: uuid where
  "uuid_Nil = replicate 16 0"

definition to_uint64 :: "int \<Rightarrow> int" where
  "to_uint64 x = x mod 2 ^ 64"

definition to_int64 :: "int \<Rightarrow> int" where
  "to_int64 x = (x + 2 ^ 63) mod 2 ^ 64 - 2 ^ 63"

record partition =
  pt_Name :: "nat list"
  pt_Type :: uuid
  pt_ID :: uuid
  pt_FirstBlock :: int
  pt_LastBlock :: int
  pt_Attributes :: "64 word"
  pt_Section :: "(int \<times> int) option"

record gpt_table =
  gt_ID :: uuid
  gt_BootCode :: bytes
  gt_Partitions :: "partition option list"

datatype gpt_err = GptErr string | GptPanic string

definition New :: gpt_table where
  "New = \<lparr>gt_ID = uuid_Nil, gt_BootCode = [], gt_Partitions = []\<rparr>"

definition SizeBlocks :: "partition \<Rightarrow> int" where
  "SizeBlocks p = to_uint64 (1 + pt_LastBlock p - pt_FirstBlock p)"

definition IsUnused :: "partition option \<Rightarrow> bool" where
  "IsUnused p = (case p of None \<Rightarrow> True | Some p \<Rightarrow> pt_Type p = uuid_Nil)"

definition PerTypeAttrs :: "64 word \<Rightarrow> 32 word" where
  "PerTypeAttrs a = ucast (drop_bit 48 a)"

definition SetPerTypeAttrs :: "64 word \<Rightarrow> 32 word \<Rightarrow> 64 word" where
  "SetPerTypeAttrs a v = or (and a 0x000000FFFFFFFFFF) (push_bit 48 (ucast v))"

definition FirstUsableBlock :: "int \<Rightarrow> int" where
  "FirstUsableBlock blockSize = 2 + (16384 + blockSize - 1) sdiv blockSize"

definition LastUsableBlock :: "int \<Rightarrow> int \<Rightarrow> int" where
  "LastUsableBlock blockSize blockCount = blockCount - (2 + (16384 + blockSize - 1) sdiv blockSize)"

definition Overhead :: "int \<Rightarrow> int" where
  "Overhead blockSize = 3 + 2 * ((16384 + blockSize - 1) sdiv blockSize)"

section \<open>Free space\<close>

text \<open>The start and end blocks of the occupied intervals.\<close>

fun occupied :: "int \<Rightarrow> partition option list \<Rightarrow> int list \<times> int list \<Rightarrow> (gpt_err, int list \<times> int list) result" where
  "occupied blockCount [] acc = Inr acc"
| "occupied blockCount (part # parts) (startBlocks, endBlocks) =
     (if IsUnused part then occupied blockCount parts (startBlocks, endBlocks)
      else
        (let p = the part in
         if pt_FirstBlock p > pt_LastBlock p then Inl (GptErr ''partition has a LastBlock smaller than its FirstBlock'')
         else if pt_FirstBlock p \<ge> to_uint64 blockCount \<or> pt_LastBlock p \<ge> to_uint64 blockCount
         then Inl (GptErr ''partition exceeds the block count of the block device'')
         else occupied blockCount parts
                (startBlocks @ [to_int64 (pt_FirstBlock p)], endBlocks @ [to_int64 (pt_LastBlock p) + 1])))"

definition set_last_end :: "int \<Rightarrow> (int \<times> int) list \<Rightarrow> (int \<times> int) list" where
  "set_last_end e fs = butlast fs @ [(fst (last fs), e)]"

text \<open>The loop over the sorted boundaries; the arguments are \<^verbatim>\<open>startBlocks\<close>, \<^verbatim>\<open>endBlocks\<close>,
  \<^verbatim>\<open>currentIntervals\<close>, \<^verbatim>\<open>freeSpaces\<close> and \<^verbatim>\<open>hasOverlap\<close>.\<close>

function sweep :: "int list \<Rightarrow> int list \<Rightarrow> int \<Rightarrow> (int \<times> int) list \<Rightarrow> bool \<Rightarrow> (int \<times> int) list \<times> bool" where
  "sweep ss es cur free ov =
     (if ss = [] \<and> es = [] then (free, ov)
      else if ss \<noteq> [] \<and> es \<noteq> [] \<and> hd ss = hd es then sweep (tl ss) (tl es) cur free ov
      else if (ss \<noteq> [] \<and> es \<noteq> [] \<and> hd ss < hd es) \<or> es = [] then
        sweep (tl ss) es (cur + 1)
          (if cur = 0 \<and> free \<noteq> [] then set_last_end (hd ss) free else free) (ov \<or> cur + 1 > 1)
      else
        sweep ss (tl es) (cur - 1)
          (if cur - 1 = 0 \<and> ss \<noteq> [] then free @ [(hd es, 0)] else free) ov)"
  by pat_completeness auto
termination
  by (relation "measure (\<lambda>(ss, es, _). length ss + length es)") (auto simp: neq_Nil_conv)

declare sweep.simps [simp del]

definition GetFreeSpaces :: "int \<Rightarrow> int \<Rightarrow> gpt_table \<Rightarrow> (gpt_err, (int \<times> int) list \<times> bool) result" where
  "GetFreeSpaces blockSize blockCount t =
     rbind (occupied blockCount (gt_Partitions t)
              ([0, LastUsableBlock blockSize blockCount + 1], [FirstUsableBlock blockSize, blockCount]))
       (\<lambda>(startBlocks, endBlocks). Inr (sweep (sort startBlocks) (sort endBlocks) 0 [] False))"

section \<open>Placing a partition\<close>

record add_options =
  ao_preferEnd :: bool
  ao_keepEmptyEntries :: bool
  ao_alignment :: int

datatype add_option = WithPreferEnd | WithKeepEmptyEntries | WithAlignment int

fun apply_option :: "add_option \<Rightarrow> add_options \<Rightarrow> add_options" where
  "apply_option WithPreferEnd opts = opts\<lparr>ao_preferEnd := True\<rparr>"
| "apply_option WithKeepEmptyEntries opts = opts\<lparr>ao_keepEmptyEntries := True\<rparr>"
| "apply_option (WithAlignment alignment) opts = opts\<lparr>ao_alignment := alignment\<rparr>"

definition add_opts :: "int \<Rightarrow> add_option list \<Rightarrow> add_options" where
  "add_opts blockSize options =
     fold apply_option options
       \<lparr>ao_preferEnd = False, ao_keepEmptyEntries = False,
        ao_alignment = (if blockSize > 1024 * 1024 then blockSize else 1024 * 1024)\<rparr>"

definition largest_free :: "(int \<times> int) list \<Rightarrow> int" where
  "largest_free fs = foldl (\<lambda>m (a, b). if b - a > m then b - a else m) 0 fs"

fun first_unused :: "nat \<Rightarrow> partition option list \<Rightarrow> nat option" where
  "first_unused i [] = None"
| "first_unused i (p # ps) = (if IsUnused p then Some i else first_unused (Suc i) ps)"

definition insert_partition :: "bool \<Rightarrow> partition option list \<Rightarrow> partition \<Rightarrow> partition option list" where
  "insert_partition keepEmptyEntries parts p =
     (case (if keepEmptyEntries then None else first_unused 0 parts) of
        None \<Rightarrow> parts @ [Some p]
      | Some i \<Rightarrow> parts[i := Some p])"

text \<open>Where the partition goes in a free interval that is big enough.\<close>

definition place :: "add_options \<Rightarrow> int \<Rightarrow> int \<Rightarrow> int \<Rightarrow> int \<Rightarrow> int \<times> int" where
  "place opts blockSize start endB blocks =
     (if \<not> ao_preferEnd opts then (to_uint64 start, to_uint64 (start + blocks - 1))
      else
        (let moveLeft = (endB - blocks - 1) smod (ao_alignment opts sdiv blockSize) in
         (to_uint64 (endB - (blocks + 1 + moveLeft)), to_uint64 (endB - (2 + moveLeft)))))"

fun find_space :: "add_options \<Rightarrow> int \<Rightarrow> int \<Rightarrow> (int \<times> int) list \<Rightarrow> (gpt_err, int \<times> int) result" where
  "find_space opts blockSize blocks [] = Inl (GptErr ''no space for partition'')"
| "find_space opts blockSize blocks ((start, endB) # fs) =
     (let alignTo = ao_alignment opts sdiv blockSize in
      if alignTo = 0 then Inl (GptPanic ''integer divide by zero'')
      else
        (let paddingBlocks = ((alignTo - start) smod alignTo) smod alignTo;
             freeBlocks = (endB - start) - paddingBlocks;
             start1 = start + paddingBlocks in
         if freeBlocks \<ge> blocks then Inr (place opts blockSize start1 endB blocks)
         else find_space opts blockSize blocks fs))"

text \<open>The result is the partition with what was written back to it, and the error or the new table.\<close>

definition AddPartition ::
    "int \<Rightarrow> int \<Rightarrow> uuid \<Rightarrow> gpt_table \<Rightarrow> partition \<Rightarrow> int \<Rightarrow> add_option list \<Rightarrow> partition \<times> (gpt_err, gpt_table) result" where
  "AddPartition blockSize blockCount fresh t p sz options =
     (let opts = add_opts blockSize options in
      if blockSize = 0 then (p, Inl (GptPanic ''integer divide by zero''))
      else if ao_alignment opts smod blockSize \<noteq> 0
      then (p, Inl (GptErr ''requested alignment is not an integer multiple of the block size''))
      else
        (let p1 = (if pt_ID p = uuid_Nil then p\<lparr>pt_ID := fresh\<rparr> else p) in
         case GetFreeSpaces blockSize blockCount t of
           Inl err \<Rightarrow> (p1, Inl err)
         | Inr (fs0, _) \<Rightarrow>
             (let fs = (if ao_preferEnd opts then rev fs0 else fs0);
                  blocks = (if sz = - 1 then largest_free fs else (sz + blockSize - 1) sdiv blockSize) in
              case find_space opts blockSize blocks fs of
                Inl err \<Rightarrow> (p1, Inl err)
              | Inr (firstB, lastB) \<Rightarrow>
                  (let p2 = p1\<lparr>pt_FirstBlock := firstB, pt_LastBlock := lastB,
                               pt_Section := Some (to_int64 firstB, to_int64 lastB + 1)\<rparr> in
                   (p2, Inr (t\<lparr>gt_Partitions := insert_partition (ao_keepEmptyEntries opts) (gt_Partitions t) p2\<rparr>))))))"

section \<open>The sweep finds the gaps\<close>

definition depth :: "int list \<Rightarrow> int list \<Rightarrow> int \<Rightarrow> int \<Rightarrow> int" where
  "depth ss es cur x = cur + int (length (filter (\<lambda>s. s \<le> x) ss)) - int (length (filter (\<lambda>e. e \<le> x) es))"

definition in_spaces :: "int \<Rightarrow> (int \<times> int) list \<Rightarrow> bool" where
  "in_spaces x fs \<longleftrightarrow> (\<exists>(a, b) \<in> set fs. a \<le> x \<and> x < b)"

text \<open>The gaps from \<open>l\<close> on between the intervals with the remaining boundaries \<open>ss\<close> and \<open>es\<close>, \<open>cur\<close> of which
  are open at \<open>l\<close>.\<close>

definition gaps :: "int \<Rightarrow> int list \<Rightarrow> int list \<Rightarrow> int \<Rightarrow> (int \<times> int) list \<Rightarrow> bool" where
  "gaps l ss es cur fs \<longleftrightarrow>
     sorted_wrt (\<lambda>p q. snd p \<le> fst q) fs \<and> (\<forall>(a, b) \<in> set fs. l \<le> a \<and> a < b) \<and>
     (\<forall>x\<ge>l. in_spaces x fs \<longleftrightarrow> depth ss es cur x = 0 \<and> (\<exists>s\<in>set ss. x < s))"

definition sweep_ok :: "int \<Rightarrow> int list \<Rightarrow> int list \<Rightarrow> int \<Rightarrow> bool \<Rightarrow> bool" where
  "sweep_ok l ss es cur ov \<longleftrightarrow>
     sorted ss \<and> sorted es \<and> 0 \<le> cur \<and> cur + int (length ss) = int (length es) \<and> (\<forall>v \<in> set ss \<union> set es. l \<le> v) \<and>
     (\<forall>y. int (length (filter (\<lambda>e. e \<le> y) es)) \<le> cur + int (length (filter (\<lambda>s. s < y) ss))) \<and>
     (cur = 0 \<longrightarrow> ss \<noteq> [] \<longrightarrow> l < hd ss) \<and> (cur > 1 \<longrightarrow> ov)"

definition pending :: "int \<Rightarrow> int list \<Rightarrow> int \<Rightarrow> (int \<times> int) list" where
  "pending l ss cur = (if cur = 0 \<and> ss \<noteq> [] then [(l, 0)] else [])"

definition sweep_result :: "int \<Rightarrow> int list \<Rightarrow> int list \<Rightarrow> int \<Rightarrow> (int \<times> int) list \<Rightarrow> bool \<Rightarrow> (int \<times> int) list \<times> bool \<Rightarrow> bool" where
  "sweep_result l ss es cur fs0 ov res \<longleftrightarrow>
     (\<exists>new. fst res = fs0 @ new \<and> gaps l ss es cur new) \<and> (snd res \<longleftrightarrow> ov \<or> (\<exists>x\<ge>l. depth ss es cur x > 1))"

lemma filter_none: "(\<And>v. v \<in> set xs \<Longrightarrow> \<not> P v) \<Longrightarrow> filter P xs = []"
  by (simp add: filter_empty_conv)

lemma depth_before: "(\<And>v. v \<in> set ss \<union> set es \<Longrightarrow> x < v) \<Longrightarrow> depth ss es cur x = cur"
  by (auto simp: depth_def filter_none not_le)

lemma depth_Cons:
  "depth (s # ss) es cur x = depth ss es (if s \<le> x then cur + 1 else cur) x"
  "depth ss (e # es) cur x = depth ss es (if e \<le> x then cur - 1 else cur) x"
  by (simp_all add: depth_def)

lemma sweep_result_step:
  assumes "sweep_result l' ss' es' cur' fs0' ov' res" and "l \<le> l'"
    and "fs0' = fs0 @ old" and "old = [] \<or> old = [(l, l')]" and "l < l' \<or> old = []"
    and "\<And>x. l \<le> x \<Longrightarrow> x < l' \<Longrightarrow> (depth ss es cur x = 0 \<and> (\<exists>s\<in>set ss. x < s) \<longleftrightarrow> old \<noteq> []) \<and> (depth ss es cur x > 1 \<longrightarrow> ov)"
    and "\<And>x. l' \<le> x \<Longrightarrow> depth ss es cur x = depth ss' es' cur' x \<and> ((\<exists>s\<in>set ss. x < s) \<longleftrightarrow> (\<exists>s\<in>set ss'. x < s))"
    and "ov \<Longrightarrow> ov'" and "ov' \<Longrightarrow> ov \<or> depth ss es cur l' > 1"
  shows "sweep_result l ss es cur fs0 ov res"
proof -
  obtain new where new: "fst res = fs0' @ new" "gaps l' ss' es' cur' new"
    using assms(1) by (auto simp: sweep_result_def)
  have lo: "\<And>a b. (a, b) \<in> set new \<Longrightarrow> l' \<le> a \<and> a < b"
    using new(2) unfolding gaps_def by blast
  have "in_spaces x (old @ new) \<longleftrightarrow> depth ss es cur x = 0 \<and> (\<exists>s\<in>set ss. x < s)" if "l \<le> x" for x
  proof (cases "x < l'")
    case True
    then have "\<not> in_spaces x new"
      using lo by (force simp: in_spaces_def)
    moreover have "in_spaces x old \<longleftrightarrow> old \<noteq> []"
      using assms(4) that True by (auto simp: in_spaces_def)
    moreover have "in_spaces x (old @ new) \<longleftrightarrow> in_spaces x old \<or> in_spaces x new"
      by (auto simp: in_spaces_def)
    ultimately show ?thesis
      using assms(6) [OF that True] by blast
  next
    case False
    then have "in_spaces x (old @ new) \<longleftrightarrow> in_spaces x new"
      using assms(4) by (auto simp: in_spaces_def)
    then show ?thesis
      using new(2) assms(7) [of x] False by (simp add: gaps_def)
  qed
  moreover have "sorted_wrt (\<lambda>p q. snd p \<le> fst q) (old @ new)"
    using assms(4) new(2) lo by (auto simp: gaps_def)
  moreover have "\<forall>(a, b) \<in> set (old @ new). l \<le> a \<and> a < b"
    using assms(2,4,5) lo by fastforce
  ultimately have "gaps l ss es cur (old @ new)"
    by (simp add: gaps_def)
  moreover have "snd res \<longleftrightarrow> ov \<or> (\<exists>x\<ge>l. depth ss es cur x > 1)"
    using assms(1,2,6-9) unfolding sweep_result_def by (metis linorder_not_less order_trans order_refl)
  ultimately show ?thesis
    using new(1) assms(3) by (auto simp: sweep_result_def)
qed

lemma sweep_ok_lists:
  assumes "sweep_ok l ss es cur ov"
  shows "sorted ss" "sorted es" "0 \<le> cur" "cur + int (length ss) = int (length es)"
    "\<And>v. v \<in> set ss \<Longrightarrow> l \<le> v" "\<And>v. v \<in> set es \<Longrightarrow> l \<le> v"
    "\<And>y. int (length (filter (\<lambda>e. e \<le> y) es)) \<le> cur + int (length (filter (\<lambda>s. s < y) ss))"
    "cur = 0 \<Longrightarrow> ss \<noteq> [] \<Longrightarrow> l < hd ss" "cur > 1 \<Longrightarrow> ov"
  using assms unfolding sweep_ok_def by auto

text \<open>The first remaining boundary is an end only if an interval is open.\<close>

lemma sweep_ok_open:
  assumes "sweep_ok l ss (e # es) cur ov" and "\<And>s. s \<in> set ss \<Longrightarrow> e \<le> s"
  shows "1 \<le> cur"
proof -
  have "filter (\<lambda>s. s < e) ss = []"
    using assms(2) by (intro filter_none) (simp add: not_less)
  then have "1 + int (length (filter (\<lambda>x. x \<le> e) es)) \<le> cur"
    using sweep_ok_lists(7) [OF assms(1), of e] by simp
  then show ?thesis
    by linarith
qed

lemma sweep_both:
  assumes ok: "sweep_ok l (v # ss) (v # es) cur ov" and res: "sweep_result v ss es cur fs0 ov res"
  shows "sweep_result l (v # ss) (v # es) cur fs0 ov res"
proof -
  note k = sweep_ok_lists [OF ok]
  have cur: "1 \<le> cur"
    using sweep_ok_open [OF ok] k(1) by auto
  have before: "depth (v # ss) (v # es) cur x = cur" if "x < v" for x
    using that k(1,2) by (intro depth_before) auto
  show ?thesis
    using res k(5,9) cur before by (intro sweep_result_step [where old = "[]", OF res]) (auto simp: depth_Cons)
qed

lemma sweep_ok_both:
  assumes ok: "sweep_ok l (v # ss) (v # es) cur ov"
  shows "sweep_ok v ss es cur ov"
proof -
  note k = sweep_ok_lists [OF ok]
  have cur: "1 \<le> cur"
    using sweep_ok_open [OF ok] k(1) by auto
  have "int (length (filter (\<lambda>e. e \<le> y) es)) \<le> cur + int (length (filter (\<lambda>s. s < y) ss))" for y
  proof (cases "v \<le> y")
    case True
    then show ?thesis
      using k(7) [of y] by (auto split: if_splits)
  next
    case False
    then have "filter (\<lambda>e. e \<le> y) es = []"
      using k(2) by (intro filter_none) auto
    then show ?thesis
      using cur by simp
  qed
  then show ?thesis
    using k cur by (auto simp: sweep_ok_def)
qed

lemma sweep_start:
  assumes ok: "sweep_ok l (s # ss) es cur ov" and e: "\<And>e. e \<in> set es \<Longrightarrow> s < e"
    and old: "old = (if cur = 0 then [(l, s)] else [])"
    and res: "sweep_result s ss es (cur + 1) (fs0 @ old) (ov \<or> cur + 1 > 1) res"
  shows "sweep_result l (s # ss) es cur fs0 ov res"
proof -
  note k = sweep_ok_lists [OF ok]
  have before: "depth (s # ss) es cur x = cur" if "x < s" for x
    using that k(1) e by (intro depth_before) force
  have "depth (s # ss) es cur s = cur + 1 + int (length (filter (\<lambda>t. t \<le> s) ss))"
    using e by (force simp: depth_def intro!: filter_none)
  then have "(cur + 1 > 1) = (cur > 0)" "cur > 0 \<Longrightarrow> depth (s # ss) es cur s > 1"
    using k(3) by auto
  then show ?thesis
    using res k(3,5,8,9) before old by (intro sweep_result_step [where old = old, OF res]) (auto simp: depth_Cons)
qed

lemma sweep_ok_start:
  assumes ok: "sweep_ok l (s # ss) es cur ov" and e: "\<And>e. e \<in> set es \<Longrightarrow> s < e"
  shows "sweep_ok s ss es (cur + 1) (ov \<or> cur + 1 > 1)"
proof -
  note k = sweep_ok_lists [OF ok]
  have "int (length (filter (\<lambda>e. e \<le> y) es)) \<le> cur + 1 + int (length (filter (\<lambda>s. s < y) ss))" for y
    using k(7) [of y] by (auto split: if_splits)
  then show ?thesis
    using k e by (auto simp: sweep_ok_def less_imp_le)
qed

lemma sweep_end:
  assumes ok: "sweep_ok l ss (e # es) cur ov" and s: "\<And>s. s \<in> set ss \<Longrightarrow> e < s"
    and res: "sweep_result e ss es (cur - 1) fs0 ov res"
  shows "sweep_result l ss (e # es) cur fs0 ov res"
proof -
  note k = sweep_ok_lists [OF ok]
  have cur: "1 \<le> cur"
    using sweep_ok_open [OF ok] s by (simp add: less_imp_le)
  have before: "depth ss (e # es) cur x = cur" if "x < e" for x
    using that k(2) s by (intro depth_before) force
  show ?thesis
    using res k(6,9) cur before s by (intro sweep_result_step [where old = "[]", OF res]) (auto simp: depth_Cons)
qed

lemma sweep_ok_end:
  assumes ok: "sweep_ok l ss (e # es) cur ov" and s: "\<And>s. s \<in> set ss \<Longrightarrow> e < s"
  shows "sweep_ok e ss es (cur - 1) ov"
proof -
  note k = sweep_ok_lists [OF ok]
  have cur: "1 \<le> cur"
    using sweep_ok_open [OF ok] s by (simp add: less_imp_le)
  have "int (length (filter (\<lambda>e. e \<le> y) es)) \<le> cur - 1 + int (length (filter (\<lambda>s. s < y) ss))" for y
  proof (cases "e \<le> y")
    case True
    then show ?thesis
      using k(7) [of y] by simp
  next
    case False
    then have "filter (\<lambda>e. e \<le> y) es = []"
      using k(2) by (intro filter_none) auto
    then show ?thesis
      using cur by simp
  qed
  then show ?thesis
    using k cur s by (auto simp: sweep_ok_def less_imp_le)
qed

lemma sweep_gaps:
  assumes "sweep_ok l ss es cur ov"
  shows "sweep_result l ss es cur fs0 ov (sweep ss es cur (fs0 @ pending l ss cur) ov)"
  using assms
proof (induction "length ss + length es" arbitrary: l ss es cur fs0 ov rule: less_induct)
  case less
  note k = sweep_ok_lists [OF less.prems]
  show ?case
  proof (cases es)
    case Nil
    then have "cur + int (length ss) = 0"
      using k(4) by simp
    then have "int (length ss) = 0" "cur = 0"
      using k(3) by linarith+
    with Nil show ?thesis
      by (subst sweep.simps) (simp add: sweep_result_def gaps_def in_spaces_def depth_def pending_def)
  next
    case (Cons e es')
    consider (both) ss' where "ss = e # ss'" | (start) s ss' where "ss = s # ss'" "s < e" | (fin) "ss = [] \<or> e < hd ss"
      by (cases ss) (use linorder_less_linear in auto)
    then show ?thesis
    proof cases
      case both
      then have ok: "sweep_ok l (e # ss') (e # es') cur ov"
        using less.prems Cons by simp
      have "1 \<le> cur"
        using sweep_ok_open [OF ok] k(1) both by auto
      then show ?thesis
        using sweep_both [OF ok less.hyps [OF _ sweep_ok_both [OF ok]]] both Cons
        by (subst sweep.simps) (simp add: pending_def)
    next
      case start
      have ok: "sweep_ok l (s # ss') es cur ov" and e: "\<And>x. x \<in> set es \<Longrightarrow> s < x"
        using less.prems start Cons k(2) by auto
      let ?old = "if cur = 0 then [(l, s)] else []"
      have "sweep_result s ss' es (cur + 1) (fs0 @ ?old) (ov \<or> cur + 1 > 1)
          (sweep ss' es (cur + 1) ((fs0 @ ?old) @ pending s ss' (cur + 1)) (ov \<or> cur + 1 > 1))"
        by (rule less.hyps [OF _ sweep_ok_start [OF ok e]]) (simp add: start)
      from sweep_start [OF ok e refl this] show ?thesis
        using start Cons k(3) by (subst sweep.simps) (auto simp: pending_def set_last_end_def)
    next
      case fin
      then have ok: "sweep_ok l ss (e # es') cur ov" and s: "\<And>s. s \<in> set ss \<Longrightarrow> e < s"
        using less.prems Cons k(1) by (cases ss; auto)+
      have "1 \<le> cur"
        using sweep_ok_open [OF ok] s by (simp add: less_imp_le)
      then show ?thesis
        using sweep_end [OF ok s less.hyps [OF _ sweep_ok_end [OF ok s]]] fin Cons
        by (subst sweep.simps) (auto simp: pending_def)
    qed
  qed
qed

section \<open>Free space is what no interval covers\<close>

definition used_partitions :: "gpt_table \<Rightarrow> partition list" where
  "used_partitions t = map the (filter (\<lambda>p. \<not> IsUnused p) (gt_Partitions t))"

abbreviation part_interval :: "partition \<Rightarrow> int \<times> int" where
  "part_interval p \<equiv> (pt_FirstBlock p, pt_LastBlock p + 1)"

text \<open>The intervals of blocks that a table occupies, each without its end.\<close>

definition intervals :: "int \<Rightarrow> int \<Rightarrow> gpt_table \<Rightarrow> (int \<times> int) list" where
  "intervals blockSize blockCount t =
     (0, FirstUsableBlock blockSize) # (LastUsableBlock blockSize blockCount + 1, blockCount) #
     map part_interval (used_partitions t)"

definition covering :: "int \<Rightarrow> (int \<times> int) list \<Rightarrow> (int \<times> int) list" where
  "covering x ivs = filter (\<lambda>(a, b). a \<le> x \<and> x < b) ivs"

definition part_valid :: "int \<Rightarrow> partition \<Rightarrow> bool" where
  "part_valid blockCount p \<longleftrightarrow> pt_FirstBlock p \<le> pt_LastBlock p \<and> pt_LastBlock p < blockCount"

definition gpt_typed :: "gpt_table \<Rightarrow> bool" where
  "gpt_typed t \<longleftrightarrow> (\<forall>p \<in> set (used_partitions t). 0 \<le> pt_FirstBlock p \<and> 0 \<le> pt_LastBlock p)"

lemma to_int64_id: "0 \<le> x \<Longrightarrow> x < 2 ^ 63 \<Longrightarrow> to_int64 x = x"
  by (simp add: to_int64_def)

lemma to_uint64_id: "0 \<le> x \<Longrightarrow> x < 2 ^ 64 \<Longrightarrow> to_uint64 x = x"
  by (simp add: to_uint64_def)

lemma occupied_eq:
  assumes "0 \<le> bc" and "bc < 2 ^ 63" and "\<forall>p \<in> set (map the (filter (\<lambda>p. \<not> IsUnused p) ps)). 0 \<le> pt_FirstBlock p \<and> 0 \<le> pt_LastBlock p"
  shows "if list_all (part_valid bc) (map the (filter (\<lambda>p. \<not> IsUnused p) ps))
    then occupied bc ps (ss, es) =
      Inr (ss @ map (fst \<circ> part_interval) (map the (filter (\<lambda>p. \<not> IsUnused p) ps)),
           es @ map (snd \<circ> part_interval) (map the (filter (\<lambda>p. \<not> IsUnused p) ps)))
    else \<exists>e. occupied bc ps (ss, es) = Inl (GptErr e)"
  using assms(3)
proof (induction ps arbitrary: ss es)
  case (Cons p ps)
  have u: "to_uint64 bc = bc"
    using assms(1,2) by (simp add: to_uint64_id)
  show ?case
  proof (cases "IsUnused p")
    case True
    then show ?thesis
      using Cons by simp
  next
    case False
    then have "0 \<le> pt_FirstBlock (the p)" "0 \<le> pt_LastBlock (the p)"
      using Cons.prems by auto
    then show ?thesis
      using Cons.IH [of "ss @ [pt_FirstBlock (the p)]" "es @ [pt_LastBlock (the p) + 1]"] Cons.prems False assms(2)
      by (auto simp: Let_def part_valid_def u to_int64_id not_le)
  qed
qed simp

lemma depth_covering:
  "(\<forall>(a, b) \<in> set ivs. a < b) \<Longrightarrow> depth (map fst ivs) (map snd ivs) 0 x = int (length (covering x ivs))"
  by (induction ivs) (auto simp: depth_def covering_def)

lemma ends_after_starts:
  "(\<forall>(a, b) \<in> set ivs. a < b) \<Longrightarrow>
     length (filter (\<lambda>e. e \<le> y) (map snd ivs)) \<le> length (filter (\<lambda>s. s < y) (map fst ivs))" for y :: int
  by (induction ivs) auto

lemma length_filter_sort: "length (filter P (sort xs)) = length (filter P xs)"
  by (metis mset_filter mset_sort size_mset)

lemma sort_head_zero:
  assumes "0 \<in> set xs" and "\<forall>x \<in> set xs. 0 \<le> x"
  obtains ss where "sort xs = (0 :: int) # ss"
proof (cases "sort xs")
  case Nil
  then have "set xs = {}"
    by (metis set_sort list.set(1))
  with assms(1) show ?thesis
    by simp
next
  case (Cons a ss)
  have "0 \<in> set (a # ss)" "a \<in> set xs" "sorted (a # ss)"
    using assms(1) set_sort [of "\<lambda>x. x" xs] sorted_sort [of xs] unfolding Cons by auto
  then have "a = 0"
    using assms(2) by fastforce
  with Cons that show ?thesis
    by blast
qed

lemma sweep_intervals_start:
  assumes pos: "\<forall>(a, b) \<in> set ivs. 0 \<le> a \<and> a < b" and S: "sort (map fst ivs) = 0 # ss" and E: "E = sort (map snd ivs)"
  shows "sweep_ok 0 ss E 1 False" "sweep (0 # ss) E 0 [] False = sweep ss E 1 [] False"
    "\<And>x. 0 \<le> x \<Longrightarrow> depth ss E 1 x = int (length (covering x ivs))"
proof -
  have "map fst ivs \<noteq> []"
    using S by (metis list.discI sort_key_simps(1))
  then have ne: "E \<noteq> []"
    by (metis E length_0_conv length_map length_sort)
  have setE: "set E = snd ` set ivs" and "set (0 # ss) = fst ` set ivs" and len: "length (0 # ss) = length E"
    unfolding E S [symmetric] by simp_all
  then have lo: "\<And>e. e \<in> set E \<Longrightarrow> 0 < e" "\<forall>v \<in> set (0 # ss). 0 \<le> v"
    using pos by force+
  have "0 < hd E"
    using lo(1) ne by simp
  with ne show "sweep (0 # ss) E 0 [] False = sweep ss E 1 [] False"
    by (subst sweep.simps) simp
  have "int (length (filter (\<lambda>e. e \<le> y) E)) \<le> 1 + int (length (filter (\<lambda>s. s < y) ss))" for y
  proof -
    have "length (filter (\<lambda>e. e \<le> y) E) \<le> length (filter (\<lambda>s. s < y) (0 # ss))"
      unfolding E S [symmetric] length_filter_sort using pos by (intro ends_after_starts) auto
    then show ?thesis
      by (auto split: if_splits)
  qed
  moreover have "sorted (0 # ss)" "sorted E"
    unfolding E S [symmetric] by simp_all
  ultimately show "sweep_ok 0 ss E 1 False"
    using lo len unfolding sweep_ok_def by (auto simp: less_imp_le)
  show "depth ss E 1 x = int (length (covering x ivs))" if "0 \<le> x" for x
  proof -
    have "depth (0 # ss) E 0 x = int (length (covering x ivs))"
      unfolding E S [symmetric] using depth_covering [of ivs x] pos by (auto simp: depth_def length_filter_sort)
    then show ?thesis
      using that by (simp add: depth_Cons)
  qed
qed

lemma sweep_intervals:
  assumes pos: "\<forall>(a, b) \<in> set ivs. 0 \<le> a \<and> a < b" and zero: "(0, c) \<in> set ivs"
    and top: "(d, n) \<in> set ivs" "0 < d" "\<forall>(a, b) \<in> set ivs. a < n"
    and res: "sweep (sort (map fst ivs)) (sort (map snd ivs)) 0 [] False = (fs, ov)"
  shows "sorted_wrt (\<lambda>p q. snd p \<le> fst q) fs" "\<forall>(a, b) \<in> set fs. 0 \<le> a \<and> a < b"
    "in_spaces x fs \<longleftrightarrow> 0 \<le> x \<and> x < n \<and> covering x ivs = []" "ov \<longleftrightarrow> (\<exists>x. length (covering x ivs) > 1)"
proof -
  let ?E = "sort (map snd ivs)"
  obtain ss where S: "sort (map fst ivs) = 0 # ss"
    by (rule sort_head_zero [of "map fst ivs"]) (use zero pos in force)+
  note k = sweep_intervals_start [OF pos S refl]
  have "sweep_result 0 ss ?E 1 [] False (fs, ov)"
    using sweep_gaps [OF k(1), of "[]"] res k(2) S by (simp add: pending_def)
  then have gaps: "gaps 0 ss ?E 1 fs" and ov: "ov \<longleftrightarrow> (\<exists>x\<ge>0. depth ss ?E 1 x > 1)"
    by (auto simp: sweep_result_def)
  from gaps show "sorted_wrt (\<lambda>p q. snd p \<le> fst q) fs" and lo: "\<forall>(a, b) \<in> set fs. 0 \<le> a \<and> a < b"
    by (auto simp: gaps_def)
  have starts: "insert 0 (set ss) = fst ` set ivs"
    using S by (metis list.set_map list.simps(15) set_sort)
  have later: "(\<exists>s\<in>set ss. x < s) \<longleftrightarrow> x < n" if "0 \<le> x" "covering x ivs = []"
  proof
    assume "x < n"
    moreover have "\<not> (d \<le> x \<and> x < n)"
      using that(2) top(1) by (auto simp: covering_def filter_empty_conv)
    moreover have "d \<in> set ss"
      using top(1,2) starts by (metis fst_conv image_eqI insertE less_irrefl)
    ultimately show "\<exists>s\<in>set ss. x < s"
      by (meson linorder_not_less)
  next
    assume "\<exists>s\<in>set ss. x < s"
    then obtain s where "s \<in> fst ` set ivs" "x < s"
      using starts by blast
    then show "x < n"
      using top(3) by fastforce
  qed
  show "in_spaces x fs \<longleftrightarrow> 0 \<le> x \<and> x < n \<and> covering x ivs = []"
  proof (cases "0 \<le> x")
    case True
    then have "in_spaces x fs \<longleftrightarrow> covering x ivs = [] \<and> (\<exists>s\<in>set ss. x < s)"
      using gaps k(3) [of x] by (simp add: gaps_def)
    then show ?thesis
      using later True by blast
  next
    case False
    then show ?thesis
      using lo by (force simp: in_spaces_def)
  qed
  have "covering x ivs = []" if "x < 0" for x
    using pos that by (force simp: covering_def filter_empty_conv)
  then have "0 \<le> x \<and> depth ss ?E 1 x > 1 \<longleftrightarrow> length (covering x ivs) > 1" for x
    using k(3) [of x] by (cases "0 \<le> x") auto
  then show "ov \<longleftrightarrow> (\<exists>x. length (covering x ivs) > 1)"
    unfolding ov by blast
qed

lemma usable_blocks:
  assumes "0 < bs" and "Overhead bs \<le> bc"
  shows "2 < FirstUsableBlock bs" "FirstUsableBlock bs \<le> LastUsableBlock bs bc + 1" "LastUsableBlock bs bc + 1 < bc"
proof -
  have "(16384 + bs - 1) sdiv bs = (16384 + bs - 1) div bs"
    using assms(1) by (simp add: signed_divide_int_def)
  moreover have "1 \<le> (16384 + bs - 1) div bs"
    using assms(1) by (simp add: div_add_self2 [symmetric] int_one_le_iff_zero_less pos_imp_zdiv_pos_iff)
  ultimately have "1 \<le> (16384 + bs - 1) sdiv bs"
    by simp
  then show "2 < FirstUsableBlock bs" "FirstUsableBlock bs \<le> LastUsableBlock bs bc + 1" "LastUsableBlock bs bc + 1 < bc"
    using assms(2) by (auto simp: FirstUsableBlock_def LastUsableBlock_def Overhead_def)
qed

lemma GetFreeSpaces_cases:
  assumes "0 < bs" and "Overhead bs \<le> bc" and "bc < 2 ^ 63" and "gpt_typed t"
  shows "if list_all (part_valid bc) (used_partitions t)
    then \<exists>fs ov. GetFreeSpaces bs bc t = Inr (fs, ov) \<and>
      sorted_wrt (\<lambda>p q. snd p \<le> fst q) fs \<and> (\<forall>(a, b) \<in> set fs. 0 \<le> a \<and> a < b) \<and>
      (\<forall>x. in_spaces x fs \<longleftrightarrow> 0 \<le> x \<and> x < bc \<and> covering x (intervals bs bc t) = []) \<and>
      (ov \<longleftrightarrow> (\<exists>x. length (covering x (intervals bs bc t)) > 1))
    else \<exists>e. GetFreeSpaces bs bc t = Inl (GptErr e)"
proof -
  note u = usable_blocks [OF assms(1,2)]
  have bc: "0 \<le> bc"
    using u by linarith
  have parts: "\<forall>p \<in> set (map the (filter (\<lambda>p. \<not> IsUnused p) (gt_Partitions t))). 0 \<le> pt_FirstBlock p \<and> 0 \<le> pt_LastBlock p"
    using assms(4) by (simp add: gpt_typed_def used_partitions_def)
  note occ = occupied_eq [OF bc assms(3) parts, of "[0, LastUsableBlock bs bc + 1]" "[FirstUsableBlock bs, bc]"]
  show ?thesis
  proof (cases "list_all (part_valid bc) (used_partitions t)")
    case True
    let ?ivs = "intervals bs bc t"
    have "occupied bc (gt_Partitions t) ([0, LastUsableBlock bs bc + 1], [FirstUsableBlock bs, bc]) = Inr (map fst ?ivs, map snd ?ivs)"
      using occ True by (simp add: used_partitions_def intervals_def comp_def)
    then have eq: "GetFreeSpaces bs bc t = Inr (sweep (sort (map fst ?ivs)) (sort (map snd ?ivs)) 0 [] False)"
      by (simp add: GetFreeSpaces_def)
    obtain fs ov where res: "sweep (sort (map fst ?ivs)) (sort (map snd ?ivs)) 0 [] False = (fs, ov)"
      by fastforce
    have pos: "\<forall>(a, b) \<in> set ?ivs. 0 \<le> a \<and> a < b" and top: "\<forall>(a, b) \<in> set ?ivs. a < bc"
      using u True assms(4) by (auto simp: intervals_def list_all_iff part_valid_def gpt_typed_def)
    have "(0, FirstUsableBlock bs) \<in> set ?ivs" "(LastUsableBlock bs bc + 1, bc) \<in> set ?ivs" "0 < LastUsableBlock bs bc + 1"
      using u by (auto simp: intervals_def)
    from sweep_intervals [OF pos this(1) this(2,3) top res] show ?thesis
      using eq res True by auto
  next
    case False
    then show ?thesis
      using occ by (auto simp: GetFreeSpaces_def used_partitions_def)
  qed
qed

text \<open>C11: on a device that has room for the two tables, finding free space fails exactly if some used
  partition ends before it starts or does not fit on the device. Otherwise it returns non-empty
  intervals in ascending order that contain exactly the blocks of the device that neither the two
  tables nor a used partition occupy, and it reports an overlap exactly if some block is occupied
  twice.\<close>

theorem GetFreeSpaces_correct:
  assumes "0 < bs" and "Overhead bs \<le> bc" and "bc < 2 ^ 63" and "gpt_typed t"
  shows "if list_all (part_valid bc) (used_partitions t)
    then \<exists>fs ov. GetFreeSpaces bs bc t = Inr (fs, ov) \<and>
      sorted_wrt (\<lambda>p q. snd p \<le> fst q) fs \<and> (\<forall>(a, b) \<in> set fs. 0 \<le> a \<and> a < b) \<and>
      (\<forall>x. in_spaces x fs \<longleftrightarrow> 0 \<le> x \<and> x < bc \<and> covering x (intervals bs bc t) = []) \<and>
      (ov \<longleftrightarrow> (\<exists>x. length (covering x (intervals bs bc t)) > 1))
    else \<exists>e. GetFreeSpaces bs bc t = Inl (GptErr e)"
  using assms by (rule GetFreeSpaces_cases)

lemma GetFreeSpaces_correct_witness:
  "\<exists>fs ov. GetFreeSpaces 512 100 New = Inr (fs, ov) \<and> in_spaces 34 fs \<and> \<not> in_spaces 33 fs \<and> in_spaces 66 fs \<and> \<not> in_spaces 67 fs"
proof -
  have blocks: "Overhead 512 = 67" "FirstUsableBlock 512 = 34" "LastUsableBlock 512 100 = 66"
    by (simp_all add: Overhead_def FirstUsableBlock_def LastUsableBlock_def signed_divide_int_def)
  have t: "gpt_typed New" "list_all (part_valid 100) (used_partitions New)"
    and ivs: "intervals 512 100 New = [(0, 34), (67, 100)]"
    by (simp_all add: gpt_typed_def used_partitions_def New_def intervals_def blocks)
  obtain fs ov where "GetFreeSpaces 512 100 New = Inr (fs, ov)"
      "\<forall>x. in_spaces x fs \<longleftrightarrow> 0 \<le> x \<and> x < 100 \<and> covering x (intervals 512 100 New) = []"
    using GetFreeSpaces_correct [of 512 100 New] t blocks(1) by auto
  then show ?thesis
    unfolding ivs by (simp add: covering_def)
qed

section \<open>Placing a partition in aligned free space\<close>










text \<open>A partition of some type without a place.\<close>

definition example_partition :: partition where
  "example_partition =
     \<lparr>pt_Name = [], pt_Type = replicate 16 1, pt_ID = replicate 16 2, pt_FirstBlock = 0, pt_LastBlock = 0,
      pt_Attributes = 0, pt_Section = None\<rparr>"


text \<open>In general adding partitions does make them overlap. On an empty table with 512-byte blocks, a
  partition of one block is placed at block 2048 and a second partition on top of it, because the
  padding of an unaligned start behind the first boundary is negative; the table then reports the
  overlap. Asking for all the free space from the end of the device places the partition one block
  too far to the left, on the last block of the partition entries.\<close>

theorem AddPartition_overlaps:
  "(case AddPartition 512 100000 [] New example_partition 512 [] of
      (p1, Inr t1) \<Rightarrow>
        (case AddPartition 512 100000 [] t1 example_partition 1048576 [] of
           (p2, Inr t2) \<Rightarrow> part_interval p1 = (2048, 2049) \<and> part_interval p2 = (2048, 4096) \<and> map_sum (\<lambda>_. ()) snd (GetFreeSpaces 512 100000 t2) = Inr True
         | _ \<Rightarrow> False)
    | _ \<Rightarrow> False) \<and>
   (case AddPartition 512 100 [] New example_partition (33 * 512) [WithPreferEnd, WithAlignment 512] of
      (p1, Inr t1) \<Rightarrow> part_interval p1 = (33, 66) \<and> GetFreeSpaces 512 100 New = Inr ([(34, 67)], False)
    | _ \<Rightarrow> False)"
  by code_simp

section \<open>Per-type attributes\<close>

text \<open>Setting the per-type attributes and reading them back yields their lower 16 bits. Setting them
  keeps the lower 40 attribute bits and clears bits 40 to 47, which belong to the specification.\<close>

theorem SetPerTypeAttrs_bits:
  "PerTypeAttrs (SetPerTypeAttrs a v) = take_bit 16 v \<and>
   take_bit 40 (SetPerTypeAttrs a v) = take_bit 40 a \<and>
   take_bit 8 (drop_bit 40 (SetPerTypeAttrs a v)) = 0"
proof (intro conjI bit_eqI)
  fix n :: nat
  have mask: "(0xFFFFFFFFFF :: 64 word) = mask 40"
    by (simp add: mask_eq_exp_minus_1)
  show "bit (PerTypeAttrs (SetPerTypeAttrs a v)) n = bit (take_bit 16 v) n"
    unfolding PerTypeAttrs_def SetPerTypeAttrs_def mask by (auto simp: bit_simps)
  show "bit (take_bit 40 (SetPerTypeAttrs a v)) n = bit (take_bit 40 a) n"
    unfolding SetPerTypeAttrs_def mask by (auto simp: bit_simps)
  show "bit (take_bit 8 (drop_bit 40 (SetPerTypeAttrs a v))) n = bit 0 n"
    unfolding SetPerTypeAttrs_def mask by (auto simp: bit_simps)
qed

end
