(* ===== verification/GptDisk.thy ===== *)
theory GptDisk
  imports Gpt
begin

text \<open>
  The on-disk format of GUID partition tables: \<^verbatim>\<open>Write\<close>, \<^verbatim>\<open>Read\<close> and \<^verbatim>\<open>readSingleGPT\<close> of
  \<^verbatim>\<open>osbase/gpt/gpt.go\<close>, the protective MBR of \<^verbatim>\<open>osbase/gpt/mbr.go\<close> and the mixed-endian UUIDs of
  \<^verbatim>\<open>osbase/msguid/msguid.go\<close>. The functions are written against the operations of any block device;
  their lemmas are proved in the locale \<open>block_device\<close> and hold for memory devices and sections by
  its interpretations.

  Structures are records whose unsigned fields are integers, with one function that encodes a
  structure (\<^verbatim>\<open>binary.Write\<close>, little endian) and one that decodes it (\<^verbatim>\<open>binary.Read\<close>). \<^verbatim>\<open>crc32\<close> and
  \<^verbatim>\<open>utf16\<close> of the standard library are written out. Random UUIDs are an argument, a function from the
  place they are for.
\<close>

section \<open>Mixed-endian UUIDs\<close>

definition mixedEndianTranspose :: "nat list" where
  "mixedEndianTranspose = [3, 2, 1, 0, 5, 4, 7, 6, 8, 9, 10, 11, 12, 13, 14, 15]"

definition msguid_From :: "uuid \<Rightarrow> bytes" where
  "msguid_From u = map (\<lambda>from. u ! from) mixedEndianTranspose"

fun scatter :: "nat list \<Rightarrow> bytes \<Rightarrow> bytes \<Rightarrow> bytes" where
  "scatter (dest # dests) (b # bs) out = scatter dests bs (out[dest := b])"
| "scatter _ _ out = out"

definition msguid_To :: "bytes \<Rightarrow> uuid" where
  "msguid_To i = scatter mixedEndianTranspose i (replicate 16 0)"

section \<open>Encodings of the standard library\<close>

fun le :: "nat \<Rightarrow> int \<Rightarrow> bytes" where
  "le 0 x = []"
| "le (Suc n) x = word_of_int x # le n (x div 256)"

fun unle :: "bytes \<Rightarrow> int" where
  "unle [] = 0"
| "unle (b # bs) = uint b + 256 * unle bs"

definition slice :: "nat \<Rightarrow> nat \<Rightarrow> 'a list \<Rightarrow> 'a list" where
  "slice off n xs = take n (drop off xs)"

text \<open>CRC-32 with the IEEE polynomial, bit by bit.\<close>

fun crc_bits :: "nat \<Rightarrow> 32 word \<Rightarrow> 32 word" where
  "crc_bits 0 c = c"
| "crc_bits (Suc n) c = crc_bits n (if bit c 0 then xor (drop_bit 1 c) 0xEDB88320 else drop_bit 1 c)"

definition crc_update :: "32 word \<Rightarrow> bytes \<Rightarrow> 32 word" where
  "crc_update c bs = foldl (\<lambda>c b. crc_bits 8 (xor c (ucast b))) c bs"

definition ChecksumIEEE :: "bytes \<Rightarrow> int" where
  "ChecksumIEEE bs = uint (not (crc_update (not 0) bs))"

text \<open>UTF-16, with the replacement character for what cannot be represented.\<close>

definition utf16_encode_rune :: "nat \<Rightarrow> nat list" where
  "utf16_encode_rune r =
     (if r < 0xD800 \<or> (0xE000 \<le> r \<and> r < 0x10000) then [r]
      else if 0x10000 \<le> r \<and> r \<le> 0x10FFFF
      then [0xD800 + (r - 0x10000) div 0x400, 0xDC00 + (r - 0x10000) mod 0x400]
      else [0xFFFD])"

definition utf16_Encode :: "nat list \<Rightarrow> nat list" where
  "utf16_Encode rs = concat (map utf16_encode_rune rs)"

fun utf16_Decode :: "nat list \<Rightarrow> nat list" where
  "utf16_Decode [] = []"
| "utf16_Decode [u] = [if u < 0xD800 \<or> 0xE000 \<le> u then u else 0xFFFD]"
| "utf16_Decode (u # v # us) =
     (if u < 0xD800 \<or> 0xE000 \<le> u then u # utf16_Decode (v # us)
      else if u < 0xDC00 \<and> 0xDC00 \<le> v \<and> v < 0xE000
      then (0x10000 + (u - 0xD800) * 0x400 + (v - 0xDC00)) # utf16_Decode us
      else 0xFFFD # utf16_Decode (v # us))"

definition TrimRight :: "'a \<Rightarrow> 'a list \<Rightarrow> 'a list" where
  "TrimRight c xs = rev (dropWhile (\<lambda>x. x = c) (rev xs))"

text \<open>A device error is wrapped into an error; a panic of the device goes through.\<close>

definition io_fail :: "io_err \<Rightarrow> string \<Rightarrow> gpt_err" where
  "io_fail err msg = (if err = IoPanic then GptPanic msg else GptErr msg)"

text \<open>A zeroed buffer of \<open>n\<close> bytes after a read.\<close>

definition read_buf :: "nat \<Rightarrow> bytes \<Rightarrow> bytes" where
  "read_buf n bs = bs @ replicate (n - length bs) 0"

section \<open>The protective MBR\<close>

record mbr_record =
  mr_BootIndicator :: byte
  mr_StartingCHS :: bytes
  mr_Type :: byte
  mr_EndingCHS :: bytes
  mr_StartingBlock :: int
  mr_SizeInBlocks :: int

record mbr =
  mb_BootCode :: bytes
  mb_DiskSignature :: bytes
  mb_PartitionRecords :: "mbr_record list"
  mb_Signature :: bytes

definition mbrSignature :: bytes where
  "mbrSignature = [0x55, 0xAA]"

definition toCHS :: "int \<Rightarrow> bytes" where
  "toCHS lba =
     (let maxCylinders = 1023; maxHeadsPerCylinder = 255; maxSectorsPerTrack = 62;
          cylinder = lba sdiv (maxHeadsPerCylinder * maxSectorsPerTrack);
          head = (lba sdiv maxSectorsPerTrack) smod maxHeadsPerCylinder;
          sector = lba smod maxSectorsPerTrack + 1;
          (cylinder, head, sector) =
            (if cylinder > maxCylinders then (maxCylinders, maxHeadsPerCylinder, maxSectorsPerTrack + 1)
             else (cylinder, head, sector)) in
      [word_of_int head,
       or (word_of_int sector) (and (word_of_int (drop_bit 2 cylinder)) 0xC0),
       word_of_int cylinder])"

definition empty_record :: mbr_record where
  "empty_record =
     \<lparr>mr_BootIndicator = 0, mr_StartingCHS = [0, 0, 0], mr_Type = 0, mr_EndingCHS = [0, 0, 0],
      mr_StartingBlock = 0, mr_SizeInBlocks = 0\<rparr>"

definition enc_mbr_record :: "mbr_record \<Rightarrow> bytes" where
  "enc_mbr_record r =
     [mr_BootIndicator r] @ mr_StartingCHS r @ [mr_Type r] @ mr_EndingCHS r @ le 4 (mr_StartingBlock r) @ le 4 (mr_SizeInBlocks r)"

definition enc_mbr :: "mbr \<Rightarrow> bytes" where
  "enc_mbr m =
     mb_BootCode m @ mb_DiskSignature m @ [0, 0] @ concat (map enc_mbr_record (mb_PartitionRecords m)) @ mb_Signature m"

definition dec_mbr_record :: "bytes \<Rightarrow> mbr_record" where
  "dec_mbr_record bs =
     \<lparr>mr_BootIndicator = bs ! 0, mr_StartingCHS = slice 1 3 bs, mr_Type = bs ! 4, mr_EndingCHS = slice 5 3 bs,
      mr_StartingBlock = unle (slice 8 4 bs), mr_SizeInBlocks = unle (slice 12 4 bs)\<rparr>"

definition dec_mbr :: "bytes \<Rightarrow> mbr" where
  "dec_mbr bs =
     \<lparr>mb_BootCode = slice 0 440 bs, mb_DiskSignature = slice 440 4 bs,
      mb_PartitionRecords = map (\<lambda>i. dec_mbr_record (slice (446 + 16 * i) 16 bs)) [0, 1, 2, 3],
      mb_Signature = slice 510 2 bs\<rparr>"

definition makeProtectiveMBR :: "int \<Rightarrow> bytes \<Rightarrow> (gpt_err, bytes) result" where
  "makeProtectiveMBR blockCount bootCode =
     (let representedBlockCount = (if blockCount < 2 ^ 32 - 1 then blockCount mod 2 ^ 32 else 2 ^ 32 - 1) in
      if length bootCode > 440 then Inl (GptErr ''BootCode is too long'')
      else
        Inr (enc_mbr
          \<lparr>mb_BootCode = bootCode @ replicate (440 - length bootCode) 0, mb_DiskSignature = [0, 0, 0, 0],
           mb_PartitionRecords =
             [\<lparr>mr_BootIndicator = 0, mr_StartingCHS = toCHS 1, mr_Type = 0xEE, mr_EndingCHS = toCHS (to_int64 (blockCount + 1)),
               mr_StartingBlock = 1, mr_SizeInBlocks = (representedBlockCount - 1) mod 2 ^ 32\<rparr>,
              empty_record, empty_record, empty_record],
           mb_Signature = mbrSignature\<rparr>))"

section \<open>Headers and partition entries\<close>

record header =
  hd_Signature :: bytes
  hd_Revision :: int
  hd_HeaderSize :: int
  hd_HeaderCRC32 :: int
  hd_HeaderBlock :: int
  hd_AlternateHeaderBlock :: int
  hd_FirstUsableBlock :: int
  hd_LastUsableBlock :: int
  hd_ID :: bytes
  hd_PartitionEntriesStartBlock :: int
  hd_PartitionEntryCount :: int
  hd_PartitionEntrySize :: int
  hd_PartitionEntriesCRC32 :: int

definition gptSignature :: bytes where
  "gptSignature = [0x45, 0x46, 0x49, 0x20, 0x50, 0x41, 0x52, 0x54]"

definition enc_header :: "header \<Rightarrow> bytes" where
  "enc_header h =
     hd_Signature h @ le 4 (hd_Revision h) @ le 4 (hd_HeaderSize h) @ le 4 (hd_HeaderCRC32 h) @ [0, 0, 0, 0] @
     le 8 (hd_HeaderBlock h) @ le 8 (hd_AlternateHeaderBlock h) @ le 8 (hd_FirstUsableBlock h) @ le 8 (hd_LastUsableBlock h) @
     hd_ID h @ le 8 (hd_PartitionEntriesStartBlock h) @ le 4 (hd_PartitionEntryCount h) @ le 4 (hd_PartitionEntrySize h) @
     le 4 (hd_PartitionEntriesCRC32 h)"

definition dec_header :: "bytes \<Rightarrow> header" where
  "dec_header bs =
     \<lparr>hd_Signature = slice 0 8 bs, hd_Revision = unle (slice 8 4 bs), hd_HeaderSize = unle (slice 12 4 bs),
      hd_HeaderCRC32 = unle (slice 16 4 bs), hd_HeaderBlock = unle (slice 24 8 bs),
      hd_AlternateHeaderBlock = unle (slice 32 8 bs), hd_FirstUsableBlock = unle (slice 40 8 bs),
      hd_LastUsableBlock = unle (slice 48 8 bs), hd_ID = slice 56 16 bs,
      hd_PartitionEntriesStartBlock = unle (slice 72 8 bs), hd_PartitionEntryCount = unle (slice 80 4 bs),
      hd_PartitionEntrySize = unle (slice 84 4 bs), hd_PartitionEntriesCRC32 = unle (slice 88 4 bs)\<rparr>"

record raw_partition =
  rw_Type :: bytes
  rw_ID :: bytes
  rw_FirstBlock :: int
  rw_LastBlock :: int
  rw_Attributes :: int
  rw_Name :: "nat list"

definition enc_partition :: "raw_partition \<Rightarrow> bytes" where
  "enc_partition p =
     rw_Type p @ rw_ID p @ le 8 (rw_FirstBlock p) @ le 8 (rw_LastBlock p) @ le 8 (rw_Attributes p) @
     concat (map (\<lambda>u. le 2 (int u)) (rw_Name p))"

definition dec_partition :: "bytes \<Rightarrow> raw_partition" where
  "dec_partition bs =
     \<lparr>rw_Type = slice 0 16 bs, rw_ID = slice 16 16 bs, rw_FirstBlock = unle (slice 32 8 bs),
      rw_LastBlock = unle (slice 40 8 bs), rw_Attributes = unle (slice 48 8 bs),
      rw_Name = map (\<lambda>i. nat (unle (slice (56 + 2 * i) 2 bs))) [0..<36]\<rparr>"

section \<open>Writing\<close>

definition pad_block :: "int \<Rightarrow> bytes \<Rightarrow> bytes" where
  "pad_block blockSize bs = bs @ replicate (nat ((- int (length bs)) mod blockSize)) 0"

definition raw_of :: "partition \<Rightarrow> raw_partition" where
  "raw_of p =
     \<lparr>rw_Type = msguid_From (pt_Type p), rw_ID = msguid_From (pt_ID p), rw_FirstBlock = pt_FirstBlock p,
      rw_LastBlock = pt_LastBlock p, rw_Attributes = uint (pt_Attributes p),
      rw_Name = (let u = take 36 (utf16_Encode (pt_Name p)) in u @ replicate (36 - length u) 0)\<rparr>"

text \<open>The entry of slot \<open>i\<close>, and the table with the IDs that writing assigns.\<close>

definition assign_ID :: "(nat \<Rightarrow> uuid) \<Rightarrow> nat \<Rightarrow> partition option \<Rightarrow> partition option" where
  "assign_ID fresh i p = map_option (\<lambda>p. if pt_ID p = uuid_Nil then p\<lparr>pt_ID := fresh (Suc i)\<rparr> else p) p"

definition assign_IDs :: "(nat \<Rightarrow> uuid) \<Rightarrow> gpt_table \<Rightarrow> gpt_table" where
  "assign_IDs fresh t =
     t\<lparr>gt_ID := (if gt_ID t = uuid_Nil then fresh 0 else gt_ID t),
       gt_Partitions := map (\<lambda>(i, p). assign_ID fresh i p) (enumerate 0 (gt_Partitions t))\<rparr>"

definition entry_bytes :: "partition option list \<Rightarrow> nat \<Rightarrow> bytes" where
  "entry_bytes parts i =
     (if length parts \<le> i then replicate 128 0
      else case parts ! i of None \<Rightarrow> replicate 128 0 | Some p \<Rightarrow> enc_partition (raw_of p))"

definition entries_bytes :: "partition option list \<Rightarrow> bytes" where
  "entries_bytes parts = concat (map (entry_bytes parts) [0..<128])"

definition base_header :: "int \<Rightarrow> int \<Rightarrow> gpt_table \<Rightarrow> header" where
  "base_header blockSize blockCount t =
     (let peb = (16384 + blockSize - 1) sdiv blockSize in
      \<lparr>hd_Signature = gptSignature, hd_Revision = 0x00010000, hd_HeaderSize = 92, hd_HeaderCRC32 = 0,
       hd_HeaderBlock = 0, hd_AlternateHeaderBlock = 0, hd_FirstUsableBlock = to_uint64 (2 + peb),
       hd_LastUsableBlock = to_uint64 (blockCount - (2 + peb)), hd_ID = msguid_From (gt_ID t),
       hd_PartitionEntriesStartBlock = 0, hd_PartitionEntryCount = 128, hd_PartitionEntrySize = 128,
       hd_PartitionEntriesCRC32 = ChecksumIEEE (entries_bytes (gt_Partitions t))\<rparr>)"

definition with_checksum :: "header \<Rightarrow> header" where
  "with_checksum h = h\<lparr>hd_HeaderCRC32 := ChecksumIEEE (enc_header (h\<lparr>hd_HeaderCRC32 := 0\<rparr>))\<rparr>"

definition alternate_header :: "int \<Rightarrow> int \<Rightarrow> gpt_table \<Rightarrow> header" where
  "alternate_header blockSize blockCount t =
     with_checksum ((base_header blockSize blockCount t)
       \<lparr>hd_HeaderBlock := to_uint64 (blockCount - 1), hd_AlternateHeaderBlock := 1,
        hd_PartitionEntriesStartBlock := to_uint64 (blockCount - (1 + (16384 + blockSize - 1) sdiv blockSize))\<rparr>)"

definition primary_header :: "int \<Rightarrow> int \<Rightarrow> gpt_table \<Rightarrow> header" where
  "primary_header blockSize blockCount t =
     with_checksum ((base_header blockSize blockCount t)
       \<lparr>hd_HeaderBlock := 1, hd_AlternateHeaderBlock := to_uint64 (blockCount - 1), hd_PartitionEntriesStartBlock := 2\<rparr>)"

text \<open>Writing returns the device and the table as it leaves them, and the error.\<close>

definition gpt_Write :: "'d block_dev \<Rightarrow> (nat \<Rightarrow> uuid) \<Rightarrow> 'd \<Rightarrow> gpt_table \<Rightarrow> 'd \<times> gpt_table \<times> gpt_err option" where
  "gpt_Write ops fresh d t =
     (let blockSize = BlockSize ops d; blockCount = BlockCount ops d in
      if blockSize < 512 then (d, t, Some (GptErr ''block size is smaller than 512 bytes, this is unsupported''))
      else if length (gt_Partitions t) > 128 then (d, t, Some (GptErr ''bigger-than default GPTs are unimplemented''))
      else if blockCount < 3 + 2 * ((16384 + blockSize - 1) sdiv blockSize) then (d, t, Some (GptErr ''not enough blocks to write GPT''))
      else
        (let t1 = assign_IDs fresh t;
             entries = pad_block blockSize (entries_bytes (gt_Partitions t1));
             alt = alternate_header blockSize blockCount t1 in
         case WriteAt ops d entries (to_int64 (hd_PartitionEntriesStartBlock alt) * blockSize) of
           (d1, _, Some err) \<Rightarrow> (d1, t1, Some (io_fail err ''failed to write alternate partition entries''))
         | (d1, _, None) \<Rightarrow>
             (case WriteAt ops d1 (pad_block blockSize (enc_header alt)) ((blockCount - 1) * blockSize) of
                (d2, _, Some err) \<Rightarrow> (d2, t1, Some (io_fail err ''failed to write alternate header''))
              | (d2, _, None) \<Rightarrow>
                  (case makeProtectiveMBR blockCount (gt_BootCode t1) of
                     Inl err \<Rightarrow> (d2, t1, Some err)
                   | Inr m \<Rightarrow>
                       (let raw = pad_block blockSize (pad_block blockSize (pad_block blockSize m @
                                    enc_header (primary_header blockSize blockCount t1)) @ entries) in
                        case WriteAt ops d2 raw 0 of
                          (d3, _, Some err) \<Rightarrow> (d3, t1, Some (io_fail err ''failed to write primary GPT''))
                        | (d3, _, None) \<Rightarrow> (d3, t1, None))))))"

section \<open>Reading\<close>

definition part_of_raw :: "raw_partition \<Rightarrow> partition option" where
  "part_of_raw r =
     (if rw_Type r = uuid_Nil then None
      else Some \<lparr>pt_Name = TrimRight 0 (utf16_Decode (rw_Name r)), pt_Type = msguid_To (rw_Type r), pt_ID = msguid_To (rw_ID r),
                 pt_FirstBlock = rw_FirstBlock r, pt_LastBlock = rw_LastBlock r,
                 pt_Attributes = word_of_int (rw_Attributes r), pt_Section = None\<rparr>)"

definition max_valid :: "partition option list \<Rightarrow> nat" where
  "max_valid parts = foldl (\<lambda>m (i, p). if \<not> IsUnused p then i else m) 0 (enumerate 0 parts)"

definition readSingleGPT :: "'d block_dev \<Rightarrow> 'd \<Rightarrow> int \<Rightarrow> (gpt_err, gpt_table) result" where
  "readSingleGPT ops r headerBlockPos =
     (let bs = BlockSize ops r in
      case ReadAt ops r (nat bs) (bs * headerBlockPos) of
        (_, Some err) \<Rightarrow> Inl (io_fail err ''failed to read GPT header block'')
      | (rd, None) \<Rightarrow>
          (let hdrBlock = read_buf (nat bs) rd; hdr = dec_header hdrBlock in
           if length hdrBlock < 92 then Inl (GptPanic ''unexpected EOF'')
           else if hd_Signature hdr \<noteq> gptSignature then Inl (GptErr ''no GPT signature found'')
           else if hd_HeaderSize hdr < 92 then Inl (GptErr ''GPT header size is too small, likely corrupted'')
           else if hd_HeaderSize hdr > bs then Inl (GptErr ''GPT header size is bigger than block size, likely corrupted'')
           else
             (let reservedBytes = slice 92 (nat (hd_HeaderSize hdr) - 92) hdrBlock in
              if ChecksumIEEE (enc_header (hdr\<lparr>hd_HeaderCRC32 := 0\<rparr>) @ reservedBytes) \<noteq> hd_HeaderCRC32 hdr
              then Inl (GptErr ''GPT header checksum mismatch, probably corrupted'')
              else if hd_HeaderBlock hdr \<noteq> to_uint64 headerBlockPos then Inl (GptErr ''GPT header indicates wrong block'')
              else if hd_PartitionEntrySize hdr < 128 then Inl (GptErr ''partition entry size too small'')
              else if hd_PartitionEntriesStartBlock hdr > to_uint64 (BlockCount ops r)
              then Inl (GptErr ''partition entry start block is out of range'')
              else if hd_PartitionEntryCount hdr * hd_PartitionEntrySize hdr > 4 * 1024 * 1024
              then Inl (GptErr ''partition entry area bigger than 4MiB, refusing to read'')
              else
                (let sz = nat (hd_PartitionEntrySize hdr); count = nat (hd_PartitionEntryCount hdr) in
                 case ReadAt ops r (sz * count) (bs * to_int64 (hd_PartitionEntriesStartBlock hdr)) of
                   (_, Some err) \<Rightarrow> Inl (io_fail err ''failed to read partition entries'')
                 | (rd2, None) \<Rightarrow>
                     (let partitionEntryData = read_buf (sz * count) rd2 in
                      if ChecksumIEEE partitionEntryData \<noteq> hd_PartitionEntriesCRC32 hdr
                      then Inl (GptErr ''GPT partition entry table checksum mismatch'')
                      else
                        (let parts = map (\<lambda>i. part_of_raw (dec_partition (slice (i * sz) sz partitionEntryData))) [0..<count] in
                         if parts = [] then Inl (GptPanic ''slice bounds out of range'')
                         else Inr \<lparr>gt_ID = msguid_To (hd_ID hdr), gt_BootCode = [],
                                   gt_Partitions = take (max_valid parts + 1) parts\<rparr>))))))"

definition gpt_Read :: "'d block_dev \<Rightarrow> 'd \<Rightarrow> (gpt_err, gpt_table) result" where
  "gpt_Read ops r =
     (if BlockSize ops r = 0 then Inl (GptPanic ''integer divide by zero'')
      else if Overhead (BlockSize ops r) > BlockCount ops r
      then Inl (GptErr ''disk cannot contain a GPT as the block count is too small to store one'')
      else if BlockSize ops r < 0 then Inl (GptPanic ''makeslice: len out of range'')
      else
        (case ReadAt ops r (nat (BlockSize ops r)) 0 of
           (_, Some err) \<Rightarrow> Inl (io_fail err ''failed to read first block'')
         | (rd, None) \<Rightarrow>
             (let zeroBlock = read_buf (nat (BlockSize ops r)) rd in
              if length zeroBlock < 512 then Inl (GptPanic ''slice bounds out of range'')
              else
                (let m = dec_mbr (take 512 zeroBlock); hasDOSBootSig = (mb_Signature m = mbrSignature) in
                 if hasDOSBootSig \<and> \<not> list_ex (\<lambda>p. mr_Type p = 0xEE) (mb_PartitionRecords m)
                 then Inl (GptErr ''block device contains an MBR table without a GPT marker or a raw FAT filesystem'')
                 else
                   (let bootCode = (if hasDOSBootSig then TrimRight 0 (mb_BootCode m) else []) in
                    case readSingleGPT ops r 1 of
                      Inr primaryGPT \<Rightarrow> Inr (primaryGPT\<lparr>gt_BootCode := bootCode\<rparr>)
                    | Inl (GptPanic p) \<Rightarrow> Inl (GptPanic p)
                    | Inl (GptErr err) \<Rightarrow>
                        (case readSingleGPT ops r (BlockCount ops r - 1) of
                           Inr alternateGPT \<Rightarrow> Inr (alternateGPT\<lparr>gt_BootCode := bootCode\<rparr>)
                         | Inl (GptPanic p) \<Rightarrow> Inl (GptPanic p)
                         | Inl (GptErr err2) \<Rightarrow> Inl (GptErr ''failed to read both GPTs'')))))))"

section \<open>Round trips of the encodings\<close>

named_theorems layout "lengths and slices of encoded structures"

lemma length_le [layout]: "length (le n x) = n"
  by (induction n arbitrary: x) auto

lemma unle_le: "unle (le n x) = x mod 256 ^ n"
proof (induction n arbitrary: x)
  case (Suc n)
  have "uint (word_of_int x :: byte) = x mod 256"
    by (simp add: uint_word_of_int)
  then show ?case
    using Suc [of "x div 256"] zmod_zmult2_eq [of "256 ^ n" x 256] by simp
qed simp

lemma unle_le_id: "0 \<le> x \<Longrightarrow> x < 256 ^ n \<Longrightarrow> unle (le n x) = x"
  by (simp add: unle_le)

lemma slice_skip [layout]: "length xs \<le> off \<Longrightarrow> slice off n (xs @ ys) = slice (off - length xs) n ys"
  by (simp add: slice_def)

lemma slice_Cons [layout]: "0 < off \<Longrightarrow> slice off n (x # xs) = slice (off - 1) n xs"
  by (cases off) (simp_all add: slice_def)

lemma slice_whole [layout]: "length xs = n \<Longrightarrow> slice 0 n (xs @ ys) = xs" "length xs = n \<Longrightarrow> slice 0 n xs = xs"
  by (simp_all add: slice_def)

lemma slice_concat:
  assumes "\<And>x. x \<in> set xs \<Longrightarrow> length (f x) = k" and "i < length xs"
  shows "slice (i * k) k (concat (map f xs) @ ys) = f (xs ! i)"
  using assms
proof (induction xs arbitrary: i)
  case (Cons x xs)
  then show ?case
  proof (cases i)
    case (Suc j)
    then show ?thesis
      using Cons by (simp add: slice_skip)
  qed (simp add: slice_whole)
qed simp

lemma length_16E:
  assumes "length u = (16 :: nat)"
  obtains a b c d e f g h i j k l m n o' p where "u = [a, b, c, d, e, f, g, h, i, j, k, l, m, n, o', p]"
  using assms by (auto simp: numeral_eq_Suc length_Suc_conv)

lemma length_msguid_From [layout]: "length (msguid_From u) = 16"
  by (simp add: msguid_From_def mixedEndianTranspose_def)

lemma msguid_To_From: "length u = 16 \<Longrightarrow> msguid_To (msguid_From u) = u"
  by (erule length_16E) (simp add: msguid_To_def msguid_From_def mixedEndianTranspose_def numeral_eq_Suc)

lemma msguid_From_Nil: "msguid_From uuid_Nil = uuid_Nil"
  by (simp add: msguid_From_def mixedEndianTranspose_def uuid_Nil_def numeral_eq_Suc)

lemma msguid_From_eq_Nil: "length u = 16 \<Longrightarrow> msguid_From u = uuid_Nil \<longleftrightarrow> u = uuid_Nil"
  by (metis msguid_From_Nil msguid_To_From length_replicate uuid_Nil_def)

definition header_typed :: "header \<Rightarrow> bool" where
  "header_typed h \<longleftrightarrow>
     length (hd_Signature h) = 8 \<and> length (hd_ID h) = 16 \<and>
     (\<forall>x \<in> {hd_Revision h, hd_HeaderSize h, hd_HeaderCRC32 h, hd_PartitionEntryCount h, hd_PartitionEntrySize h, hd_PartitionEntriesCRC32 h}.
        0 \<le> x \<and> x < 256 ^ 4) \<and>
     (\<forall>x \<in> {hd_HeaderBlock h, hd_AlternateHeaderBlock h, hd_FirstUsableBlock h, hd_LastUsableBlock h, hd_PartitionEntriesStartBlock h}.
        0 \<le> x \<and> x < 256 ^ 8)"

lemma length_enc_header [layout]: "header_typed h \<Longrightarrow> length (enc_header h) = 92"
  by (simp add: header_typed_def enc_header_def length_le)

lemma dec_enc_header:
  assumes "header_typed h"
  shows "dec_header (enc_header h @ rest) = h"
  using assms unfolding header_typed_def dec_header_def enc_header_def
  by (simp add: layout unle_le_id)

definition raw_typed :: "raw_partition \<Rightarrow> bool" where
  "raw_typed r \<longleftrightarrow>
     length (rw_Type r) = 16 \<and> length (rw_ID r) = 16 \<and> length (rw_Name r) = 36 \<and> (\<forall>u \<in> set (rw_Name r). u < 65536) \<and>
     (\<forall>x \<in> {rw_FirstBlock r, rw_LastBlock r, rw_Attributes r}. 0 \<le> x \<and> x < 256 ^ 8)"

lemma length_concat_le: "length (concat (map (\<lambda>u. le k (f u)) us)) = k * length us"
  by (induction us) (auto simp: length_le)

lemma length_enc_partition [layout]: "raw_typed r \<Longrightarrow> length (enc_partition r) = 128"
  by (simp add: raw_typed_def enc_partition_def length_le length_concat_le)

lemma dec_enc_partition:
  assumes "raw_typed r"
  shows "dec_partition (enc_partition r) = r"
proof -
  let ?us = "concat (map (\<lambda>u. le 2 (int u)) (rw_Name r))"
  have "nat (unle (slice (56 + 2 * i) 2 (enc_partition r))) = rw_Name r ! i" if "i < 36" for i
  proof -
    have "slice (56 + 2 * i) 2 (enc_partition r) = slice (i * 2) 2 (?us @ [])"
      using assms by (simp add: enc_partition_def raw_typed_def layout mult.commute)
    also have "\<dots> = le 2 (int (rw_Name r ! i))"
      using assms that by (intro slice_concat) (auto simp: raw_typed_def length_le)
    finally show ?thesis
      using assms that by (simp add: raw_typed_def unle_le)
  qed
  then have "map (\<lambda>i. nat (unle (slice (56 + 2 * i) 2 (enc_partition r)))) [0..<36] = rw_Name r"
    using assms by (intro nth_equalityI) (simp_all add: raw_typed_def del: upt_Suc upt_rec_numeral)
  then show ?thesis
    unfolding dec_partition_def using assms
    by (simp only:) (simp add: enc_partition_def raw_typed_def layout unle_le_id)
qed

subsection \<open>Names\<close>

definition scalar :: "nat \<Rightarrow> bool" where
  "scalar r \<longleftrightarrow> r < 0xD800 \<or> (0xE000 \<le> r \<and> r \<le> 0x10FFFF)"

lemma decode_bmp: "u < 0xD800 \<or> 0xE000 \<le> u \<Longrightarrow> utf16_Decode (u # us) = u # utf16_Decode us"
  by (cases us) auto

lemma decode_encode_rune:
  assumes "scalar r"
  shows "utf16_Decode (utf16_encode_rune r @ us) = r # utf16_Decode us"
proof (cases "r < 0x10000")
  case True
  then show ?thesis
    using assms by (auto simp: utf16_encode_rune_def scalar_def decode_bmp)
next
  case False
  define k where "k = r - 0x10000"
  have k: "k < 0x100000" "r = 0x10000 + k"
    using False assms by (auto simp: k_def scalar_def)
  have "k div 0x400 < 0x400" "k mod 0x400 < 0x400" "k div 0x400 * 0x400 + k mod 0x400 = k"
    using k by auto
  then show ?thesis
    using k by (simp add: utf16_encode_rune_def)
qed

lemma decode_encode: "\<forall>r \<in> set rs. scalar r \<Longrightarrow> utf16_Decode (utf16_Encode rs @ us) = rs @ utf16_Decode us"
  by (induction rs) (auto simp: utf16_Encode_def decode_encode_rune)

lemma decode_zeros: "utf16_Decode (replicate n 0) = replicate n 0"
  by (induction n) (auto simp: decode_bmp)

lemma encode_rune_units:
  assumes "u \<in> set (utf16_encode_rune r)"
  shows "u < 65536"
proof -
  have "(r - 0x10000) div 0x400 < 0x400" if "r \<le> 0x10FFFF"
    using that by (intro less_mult_imp_div_less) simp
  moreover have "(r - 0x10000) mod 0x400 < 0x400"
    by simp
  ultimately show ?thesis
    using assms unfolding utf16_encode_rune_def
    by (simp only: split: if_splits) fastforce+
qed

lemma encode_units: "u \<in> set (utf16_Encode rs) \<Longrightarrow> u < 65536"
  unfolding utf16_Encode_def by (auto dest: encode_rune_units)

lemma TrimRight_replicate: "TrimRight c (xs @ replicate n c) = TrimRight c xs"
proof -
  have "dropWhile (\<lambda>x. x = c) (replicate n c @ ys) = dropWhile (\<lambda>x. x = c) ys" for ys
    by (induction n) auto
  then show ?thesis
    by (simp add: TrimRight_def)
qed

lemma TrimRight_id: "xs = [] \<or> last xs \<noteq> c \<Longrightarrow> TrimRight c xs = xs"
  by (cases xs rule: rev_cases) (auto simp: TrimRight_def)

subsection \<open>Partition entries\<close>

text \<open>What a partition must be to be stored exactly: fields of their types, and a name of at most 36
  UTF-16 units without trailing NULs.\<close>

definition storable :: "partition \<Rightarrow> bool" where
  "storable p \<longleftrightarrow>
     length (pt_Type p) = 16 \<and> length (pt_ID p) = 16 \<and> 0 \<le> pt_FirstBlock p \<and> pt_FirstBlock p < 2 ^ 64 \<and>
     0 \<le> pt_LastBlock p \<and> pt_LastBlock p < 2 ^ 64 \<and> list_all scalar (pt_Name p) \<and>
     length (utf16_Encode (pt_Name p)) \<le> 36 \<and> (pt_Name p = [] \<or> last (pt_Name p) \<noteq> 0)"

definition storable_parts :: "partition option list \<Rightarrow> bool" where
  "storable_parts parts \<longleftrightarrow> list_all (\<lambda>p. case p of None \<Rightarrow> True | Some p \<Rightarrow> storable p) parts"

text \<open>What is left of a slot once it has been written and read.\<close>

definition stored :: "partition option \<Rightarrow> partition option" where
  "stored p = (if IsUnused p then None else map_option (\<lambda>p. p\<lparr>pt_Section := None\<rparr>) p)"

definition stored_parts :: "partition option list \<Rightarrow> partition option list" where
  "stored_parts parts = (if list_all IsUnused parts then [None] else TrimRight None (map stored parts))"

lemma raw_typed_raw_of: "storable p \<Longrightarrow> raw_typed (raw_of p)"
  using uint_lt2p [of "pt_Attributes p"] encode_units
  by (auto simp: raw_typed_def raw_of_def storable_def layout Let_def dest!: in_set_takeD)

lemma name_round_trip:
  assumes "storable p"
  shows "TrimRight 0 (utf16_Decode (rw_Name (raw_of p))) = pt_Name p"
  using assms
  by (simp add: raw_of_def storable_def list_all_iff decode_encode decode_zeros TrimRight_replicate TrimRight_id Let_def)

lemma part_of_raw_of: "storable p \<Longrightarrow> part_of_raw (raw_of p) = stored (Some p)"
  using name_round_trip [of p]
  by (auto simp: part_of_raw_def stored_def IsUnused_def)
    (auto simp: raw_of_def storable_def msguid_From_eq_Nil msguid_To_From)

lemma part_of_zeros: "part_of_raw (dec_partition (replicate 128 0)) = None"
  by (simp add: part_of_raw_def dec_partition_def slice_def uuid_Nil_def)

lemma length_entry_bytes: "storable_parts parts \<Longrightarrow> length (entry_bytes parts i) = 128"
  by (auto simp: entry_bytes_def storable_parts_def list_all_length not_le split: option.splits
      intro!: length_enc_partition raw_typed_raw_of)

lemma read_entry:
  assumes "storable_parts parts"
  shows "part_of_raw (dec_partition (entry_bytes parts i)) = (if i < length parts then stored (parts ! i) else None)"
  using assms
  by (auto simp: entry_bytes_def storable_parts_def list_all_length part_of_zeros dec_enc_partition raw_typed_raw_of
      part_of_raw_of stored_def IsUnused_def split: option.splits)

lemma length_entries_bytes: "storable_parts parts \<Longrightarrow> length (entries_bytes parts) = 16384"
  by (simp add: entries_bytes_def length_concat length_entry_bytes comp_def sum_list_triv del: upt_rec_numeral)

lemma read_entries:
  assumes "storable_parts parts" and "length parts \<le> 128"
  shows "map (\<lambda>i. part_of_raw (dec_partition (slice (i * 128) 128 (entries_bytes parts)))) [0..<128] =
    map stored parts @ replicate (128 - length parts) None"
proof (rule nth_equalityI)
  fix i
  assume "i < length (map (\<lambda>i. part_of_raw (dec_partition (slice (i * 128) 128 (entries_bytes parts)))) [0..<128])"
  then have i: "i < 128"
    by simp
  have "slice (i * 128) 128 (entries_bytes parts @ []) = entry_bytes parts ([0..<128] ! i)"
    unfolding entries_bytes_def using assms i by (intro slice_concat) (auto simp: length_entry_bytes)
  then show "map (\<lambda>i. part_of_raw (dec_partition (slice (i * 128) 128 (entries_bytes parts)))) [0..<128] ! i =
      (map stored parts @ replicate (128 - length parts) None) ! i"
    using i read_entry [OF assms(1), of i] by (simp add: nth_append del: upt_rec_numeral)
qed (use assms(2) in simp)

lemma max_valid_snoc: "max_valid (ps @ [p]) = (if IsUnused p then max_valid ps else length ps)"
  by (simp add: max_valid_def enumerate_append_eq)

lemma max_valid_Nil: "max_valid [] = 0"
  by (simp add: max_valid_def)

lemma max_valid_less: "ps \<noteq> [] \<Longrightarrow> max_valid ps < length ps"
proof (induction ps rule: rev_induct)
  case (snoc p ps)
  then show ?case
    by (cases "ps = []") (auto simp: max_valid_snoc max_valid_snoc [of "[]", simplified] max_valid_Nil)
qed simp

lemma take_max_valid:
  assumes "\<And>p. p \<in> set ps \<Longrightarrow> IsUnused p \<longleftrightarrow> p = None" and "ps \<noteq> []"
  shows "take (max_valid ps + 1) ps = (if set ps = {None} then [None] else TrimRight None ps)"
  using assms
proof (induction ps rule: rev_induct)
  case (snoc p ps)
  show ?case
  proof (cases "p = None")
    case False
    then show ?thesis
      using snoc.prems by (auto simp: max_valid_snoc TrimRight_def)
  next
    case True
    then have trim: "TrimRight None (ps @ [p]) = TrimRight None ps"
      by (simp add: TrimRight_def)
    show ?thesis
    proof (cases "ps = []")
      case True
      then show ?thesis
        using \<open>p = None\<close> by simp
    next
      case False
      have "set (ps @ [p]) = {None} \<longleftrightarrow> set ps = {None}"
        using False True by (cases ps) auto
      moreover have "IsUnused p"
        using True by (simp add: IsUnused_def)
      ultimately show ?thesis
        using snoc False max_valid_less [OF False] trim by (auto simp: max_valid_snoc)
    qed
  qed
qed simp

lemma IsUnused_stored: "IsUnused (stored p) \<longleftrightarrow> stored p = None"
  by (cases p) (auto simp: IsUnused_def stored_def)

lemma stored_None_iff: "stored p = None \<longleftrightarrow> IsUnused p"
  by (cases p) (auto simp: IsUnused_def stored_def)

lemma trim_stored:
  assumes "length parts \<le> 128"
  shows "take (Suc (max_valid (map stored parts @ replicate (128 - length parts) None)))
      (map stored parts @ replicate (128 - length parts) None) = stored_parts parts"
proof -
  let ?ps = "map stored parts @ replicate (128 - length parts) None"
  have "?ps \<noteq> []"
    using assms by (cases parts) auto
  moreover have "IsUnused p \<longleftrightarrow> p = None" if "p \<in> set ?ps" for p
    using that IsUnused_stored by (auto simp: IsUnused_def [of None])
  ultimately have "take (max_valid ?ps + 1) ?ps = (if set ?ps = {None} then [None] else TrimRight None ?ps)"
    by (intro take_max_valid) auto
  moreover have "set ?ps = {None} \<longleftrightarrow> list_all IsUnused parts"
  proof
    assume "set ?ps = {None}"
    then show "list_all IsUnused parts"
      by (auto simp: list_all_iff simp flip: stored_None_iff)
  next
    assume "list_all IsUnused parts"
    then have "set ?ps \<subseteq> {None}"
      by (auto simp: list_all_iff stored_None_iff)
    then show "set ?ps = {None}"
      using \<open>?ps \<noteq> []\<close> by (meson set_empty subset_singletonD)
  qed
  ultimately show ?thesis
    by (simp add: stored_parts_def TrimRight_replicate)
qed

section \<open>What is on the disk\<close>

lemma ChecksumIEEE_bounds: "0 \<le> ChecksumIEEE bs" "ChecksumIEEE bs < 4294967296"
  using uint_lt2p [of "not (crc_update (not 0) bs)"] by (simp_all add: ChecksumIEEE_def)

text \<open>\<open>h\<close> is a header for table \<open>t\<close> in block \<open>pos\<close>, with the entries from block \<open>start\<close> on.\<close>

definition describes :: "header \<Rightarrow> gpt_table \<Rightarrow> int \<Rightarrow> int \<Rightarrow> bool" where
  "describes h t pos start \<longleftrightarrow>
     header_typed h \<and> hd_Signature h = gptSignature \<and> hd_HeaderSize h = 92 \<and>
     ChecksumIEEE (enc_header (h\<lparr>hd_HeaderCRC32 := 0\<rparr>)) = hd_HeaderCRC32 h \<and> hd_HeaderBlock h = pos \<and>
     hd_PartitionEntriesStartBlock h = start \<and> hd_ID h = msguid_From (gt_ID t) \<and>
     hd_PartitionEntryCount h = 128 \<and> hd_PartitionEntrySize h = 128 \<and>
     hd_PartitionEntriesCRC32 h = ChecksumIEEE (entries_bytes (gt_Partitions t))"

definition entry_blocks :: "int \<Rightarrow> int" where
  "entry_blocks bs = (16384 + bs - 1) sdiv bs"

lemma entry_blocks_bounds:
  assumes "512 \<le> bs"
  shows "16384 \<le> entry_blocks bs * bs" "entry_blocks bs * bs < 16384 + bs" "0 < entry_blocks bs"
proof -
  have eq: "entry_blocks bs = (16383 + bs) div bs"
    using assms by (simp add: entry_blocks_def signed_divide_int_def)
  have "16384 \<le> q * bs \<and> q * bs < 16384 + bs" if "q * bs + r = 16383 + bs" "0 \<le> r" "r < bs" for q r
    using that by linarith
  from this [OF div_mult_mod_eq pos_mod_sign pos_mod_bound]
  show ge: "16384 \<le> entry_blocks bs * bs" and "entry_blocks bs * bs < 16384 + bs"
    using assms by (simp_all only: eq)
  show "0 < entry_blocks bs"
    using ge assms by (smt (verit) mult_nonpos_nonneg)
qed

lemma describes_with_checksum:
  assumes "header_typed (h\<lparr>hd_HeaderCRC32 := 0\<rparr>)" and "hd_Signature h = gptSignature" "hd_HeaderSize h = 92"
    "hd_ID h = msguid_From (gt_ID t)" "hd_PartitionEntryCount h = 128" "hd_PartitionEntrySize h = 128"
    "hd_PartitionEntriesCRC32 h = ChecksumIEEE (entries_bytes (gt_Partitions t))"
    "hd_HeaderBlock h = pos" "hd_PartitionEntriesStartBlock h = start"
  shows "describes (with_checksum h) t pos start"
  using assms ChecksumIEEE_bounds
  by (simp add: describes_def with_checksum_def header_typed_def)

lemma headers_describe:
  assumes "512 \<le> bs" and "3 + 2 * entry_blocks bs \<le> bc" and "bc < 2 ^ 63"
  shows "describes (primary_header bs bc t) t 1 2"
    and "describes (alternate_header bs bc t) t (bc - 1) (bc - (1 + entry_blocks bs))"
proof -
  have peb: "0 < entry_blocks bs"
    by (rule entry_blocks_bounds(3) [OF assms(1)])
  have u: "to_uint64 (bc - 1) = bc - 1" "to_uint64 (bc - (1 + entry_blocks bs)) = bc - (1 + entry_blocks bs)"
    using assms peb by (simp_all add: to_uint64_id)
  have typed: "header_typed ((base_header bs bc t)\<lparr>hd_HeaderBlock := a, hd_AlternateHeaderBlock := b, hd_PartitionEntriesStartBlock := c, hd_HeaderCRC32 := 0\<rparr>)"
    if "0 \<le> a" "a < 2 ^ 63" "0 \<le> b" "b < 2 ^ 63" "0 \<le> c" "c < 2 ^ 63" for a b c
    using that ChecksumIEEE_bounds
    by (simp add: base_header_def header_typed_def gptSignature_def layout Let_def to_uint64_def)
  show "describes (primary_header bs bc t) t 1 2"
    unfolding primary_header_def u(1)
    by (rule describes_with_checksum)
      (use typed [of 1 "bc - 1" 2] assms peb in \<open>simp_all add: base_header_def Let_def\<close>)
  show "describes (alternate_header bs bc t) t (bc - 1) (bc - (1 + entry_blocks bs))"
    unfolding alternate_header_def entry_blocks_def [symmetric] u
    by (rule describes_with_checksum)
      (use typed [of "bc - 1" 1 "bc - (1 + entry_blocks bs)"] assms peb in \<open>simp_all add: base_header_def Let_def\<close>)
qed

lemma length_pad_block_small: "0 < length xs \<Longrightarrow> int (length xs) \<le> bs \<Longrightarrow> int (length (pad_block bs xs)) = bs"
proof -
  assume "0 < length xs" "int (length xs) \<le> bs"
  then have "(- int (length xs)) mod bs = bs - int (length xs)"
    by (cases "int (length xs) = bs") (auto simp: zmod_zminus1_eq_if)
  then show ?thesis
    using \<open>int (length xs) \<le> bs\<close> by (simp add: pad_block_def)
qed

lemma length_pad_entries:
  assumes "512 \<le> bs" and "length xs = 16384"
  shows "int (length (pad_block bs xs)) = entry_blocks bs * bs"
proof -
  have "(- 16384) mod bs = (entry_blocks bs * bs - 16384) mod bs"
    using mod_mult_self1 [of "- 16384" "entry_blocks bs" bs] by (simp add: algebra_simps)
  also have "\<dots> = entry_blocks bs * bs - 16384"
    using entry_blocks_bounds [OF assms(1)] by (intro mod_pos_pos_trivial) auto
  finally have "(- 16384) mod bs = entry_blocks bs * bs - 16384" .
  then show ?thesis
    using entry_blocks_bounds [OF assms(1)] assms(2) by (simp add: pad_block_def)
qed

lemma pad_block_multiple: "int (length xs) mod bs = 0 \<Longrightarrow> pad_block bs xs = xs"
  by (simp add: pad_block_def zmod_zminus1_eq_if)

lemma slice_pad: "n \<le> length xs \<Longrightarrow> slice 0 n (pad_block bs xs) = take n xs"
  by (simp add: pad_block_def slice_def)

lemma slice_slice: "a + n \<le> m \<Longrightarrow> slice a n (slice b m xs) = slice (b + a) n xs"
  by (simp add: slice_def drop_take min_def add.commute)

lemma slice_overwrite_inside:
  "off \<le> a \<Longrightarrow> a + n \<le> off + length p \<Longrightarrow> off + length p \<le> length xs \<Longrightarrow> slice a n (overwrite off p xs) = slice (a - off) n p"
  by (simp add: slice_def overwrite_def)

lemma slice_overwrite_before: "off + length p \<le> length xs \<Longrightarrow> a + n \<le> off \<Longrightarrow> slice a n (overwrite off p xs) = slice a n xs"
  by (auto simp: slice_def overwrite_def drop_take min_def)

lemma slice_overwrite_after: "off + length p \<le> length xs \<Longrightarrow> off + length p \<le> a \<Longrightarrow> slice a n (overwrite off p xs) = slice a n xs"
  by (simp add: slice_def overwrite_def)

subsection \<open>The protective MBR\<close>

lemma length_toCHS: "length (toCHS lba) = 3"
  by (simp add: toCHS_def Let_def)

lemma length_enc_record: "length (mr_StartingCHS r) = 3 \<Longrightarrow> length (mr_EndingCHS r) = 3 \<Longrightarrow> length (enc_mbr_record r) = 16"
  by (simp add: enc_mbr_record_def length_le)

lemma slice_nth: "i < n \<Longrightarrow> a + i < length xs \<Longrightarrow> slice a n xs ! i = xs ! (a + i)"
  by (simp add: slice_def add.commute)

lemma protective_MBR:
  assumes "length boot \<le> 440"
  obtains m where "makeProtectiveMBR bc boot = Inr m" "length m = 512" "mb_Signature (dec_mbr m) = mbrSignature"
    "mb_BootCode (dec_mbr m) = boot @ replicate (440 - length boot) 0"
    "list_ex (\<lambda>p. mr_Type p = 0xEE) (mb_PartitionRecords (dec_mbr m))"
proof
  let ?r = "\<lparr>mr_BootIndicator = 0, mr_StartingCHS = toCHS 1, mr_Type = 0xEE, mr_EndingCHS = toCHS (to_int64 (bc + 1)),
    mr_StartingBlock = 1, mr_SizeInBlocks = ((if bc < 2 ^ 32 - 1 then bc mod 2 ^ 32 else 2 ^ 32 - 1) - 1) mod 2 ^ 32\<rparr>"
  let ?b = "boot @ replicate (440 - length boot) 0"
  let ?e = "enc_mbr_record empty_record"
  let ?m = "?b @ [0, 0, 0, 0] @ [0, 0] @ enc_mbr_record ?r @ ?e @ ?e @ ?e @ mbrSignature"
  have len: "length (enc_mbr_record ?r) = 16" "length ?e = 16" "length ?b = 440" "length mbrSignature = 2"
    using assms by (simp_all add: length_enc_record length_toCHS empty_record_def mbrSignature_def)
  show "makeProtectiveMBR bc boot = Inr ?m"
    using assms by (simp add: makeProtectiveMBR_def enc_mbr_def Let_def)
  show "length ?m = 512"
    using len by simp
  show "mb_Signature (dec_mbr ?m) = mbrSignature" "mb_BootCode (dec_mbr ?m) = ?b"
    unfolding dec_mbr_def mbr.simps using len by (simp_all only: layout) (simp_all add: layout len del: append_assoc)
  have "slice 446 16 ?m = enc_mbr_record ?r"
    using len by (simp add: layout del: append_assoc)
  then have "mr_Type (dec_mbr_record (slice (446 + 16 * 0) 16 ?m)) = 0xEE"
    by (simp add: dec_mbr_record_def enc_mbr_record_def nth_append length_toCHS)
  then show "list_ex (\<lambda>p. mr_Type p = 0xEE) (mb_PartitionRecords (dec_mbr ?m))"
    unfolding dec_mbr_def mbr.simps list.map list_ex_iff list.set by blast
qed

subsection \<open>Reading a copy\<close>

text \<open>The bytes \<open>c\<close> hold a copy of \<open>t\<close>: a header in block \<open>pos\<close> and the entries from block \<open>start\<close> on.\<close>

definition gpt_copy :: "bytes \<Rightarrow> int \<Rightarrow> gpt_table \<Rightarrow> header \<Rightarrow> int \<Rightarrow> int \<Rightarrow> bool" where
  "gpt_copy c bs t h pos start \<longleftrightarrow>
     describes h t pos start \<and> slice (nat (pos * bs)) (nat bs) c = pad_block bs (enc_header h) \<and>
     slice (nat (start * bs)) 16384 c = entries_bytes (gt_Partitions t) \<and>
     0 \<le> pos \<and> pos < 2 ^ 63 \<and> pos * bs + bs \<le> int (length c) \<and> 0 \<le> start \<and> start < 2 ^ 63 \<and> start * bs + 16384 \<le> int (length c)"

definition storable_table :: "gpt_table \<Rightarrow> bool" where
  "storable_table t \<longleftrightarrow> length (gt_ID t) = 16 \<and> storable_parts (gt_Partitions t) \<and> length (gt_Partitions t) \<le> 128 \<and> length (gt_BootCode t) \<le> 440"

context block_device
begin

lemma readSingleGPT_copy:
  assumes "ok r" and "BlockSize ops r = bs" "512 \<le> bs" and "gpt_copy (content r) bs t h pos start"
    and "storable_table t" and "BlockCount ops r < 2 ^ 63"
  shows "readSingleGPT ops r pos = Inr \<lparr>gt_ID = gt_ID t, gt_BootCode = [], gt_Partitions = stored_parts (gt_Partitions t)\<rparr>"
proof -
  note c = assms(4) [unfolded gpt_copy_def describes_def]
  have pos: "0 \<le> pos * bs" "0 \<le> start * bs"
    using c assms(3) by auto
  let ?hb = "pad_block bs (enc_header h)"
  have len: "length (enc_header h) = 92"
    using c by (simp add: length_enc_header)
  have hb: "read_buf (nat bs) ?hb = ?hb" "length ?hb = nat bs"
    using length_pad_block_small [of "enc_header h" bs] len assms(3) by (simp_all add: read_buf_def)
  have hdr: "dec_header ?hb = h"
    unfolding pad_block_def using c by (simp add: dec_enc_header)
  have rd: "ReadAt ops r (nat bs) (bs * pos) = (?hb, None)"
    using read_inside [of r "pos * bs" "nat bs"] assms(1,3) c pos by (simp add: slice_def mult.commute)
  let ?es = "entries_bytes (gt_Partitions t)"
  have les: "length ?es = 16384"
    using assms(5) by (simp add: storable_table_def length_entries_bytes)
  have rd2: "ReadAt ops r (128 * 128) (bs * start) = (?es, None)"
    using read_inside [of r "start * bs" "16384"] assms(1,3) c pos by (simp add: slice_def mult.commute)
  have geo: "int (length (content r)) = bs * BlockCount ops r" "0 \<le> BlockCount ops r"
    using geometry [OF assms(1)] assms(2) by auto
  have "start * bs \<le> BlockCount ops r * bs"
    using c geo(1) by (simp add: mult.commute)
  then have start: "start \<le> BlockCount ops r"
    using assms(3) by (simp add: mult_le_cancel_right)
  have "to_uint64 pos = pos" "to_int64 start = start" "to_uint64 (BlockCount ops r) = BlockCount ops r"
    using c geo(2) assms(6) by (simp_all add: to_uint64_id to_int64_id)
  moreover have "map (\<lambda>i. part_of_raw (dec_partition (slice (i * 128) 128 ?es))) [0..<128] =
      map stored (gt_Partitions t) @ replicate (128 - length (gt_Partitions t)) None"
    using assms(5) by (intro read_entries) (auto simp: storable_table_def)
  moreover have "map stored (gt_Partitions t) @ replicate (128 - length (gt_Partitions t)) None \<noteq> []"
    using assms(5) by (cases "gt_Partitions t") auto
  moreover have "slice 92 0 ?hb = []" "\<not> nat bs < 92"
    using assms(3) by (simp_all add: slice_def)
  moreover have "read_buf (128 * 128) ?es = ?es"
    using les by (simp add: read_buf_def)
  ultimately show ?thesis
    unfolding readSingleGPT_def assms(2) Let_def rd prod.case option.case hb(1) hdr
    using c assms(3,5) start hb(2) rd2
    by (simp add: trim_stored storable_table_def msguid_To_From del: upt_rec_numeral append_is_Nil_conv take_append)
qed

end

section \<open>Writing and reading back\<close>

text \<open>The layout of a device that holds table \<open>t\<close>: the protective MBR and the two copies.\<close>

definition gpt_alternate :: "bytes \<Rightarrow> int \<Rightarrow> int \<Rightarrow> gpt_table \<Rightarrow> bool" where
  "gpt_alternate c bs bc t \<longleftrightarrow> gpt_copy c bs t (alternate_header bs bc t) (bc - 1) (bc - (1 + entry_blocks bs))"

definition gpt_primary :: "bytes \<Rightarrow> int \<Rightarrow> int \<Rightarrow> gpt_table \<Rightarrow> bool" where
  "gpt_primary c bs bc t \<longleftrightarrow> gpt_copy c bs t (primary_header bs bc t) 1 2"

definition mbr_block :: "bytes \<Rightarrow> int \<Rightarrow> gpt_table \<Rightarrow> bool" where
  "mbr_block c bc t \<longleftrightarrow> (\<exists>m. makeProtectiveMBR bc (gt_BootCode t) = Inr m \<and> slice 0 512 c = m)"

text \<open>What reading such a device returns.\<close>

definition read_back :: "gpt_table \<Rightarrow> gpt_table" where
  "read_back t = \<lparr>gt_ID = gt_ID t, gt_BootCode = TrimRight 0 (gt_BootCode t), gt_Partitions = stored_parts (gt_Partitions t)\<rparr>"

context block_device
begin

lemma gpt_Read_layout:
  assumes "ok r" and "BlockSize ops r = bs" "512 \<le> bs" and "BlockCount ops r = bc" "3 + 2 * entry_blocks bs \<le> bc" "bc < 2 ^ 63"
    and "storable_table t" and "mbr_block (content r) bc t"
    and "gpt_primary (content r) bs bc t \<or>
      (\<exists>e. readSingleGPT ops r 1 = Inl (GptErr e)) \<and> gpt_alternate (content r) bs bc t"
  shows "gpt_Read ops r = Inr (read_back t)"
proof -
  obtain m where m: "makeProtectiveMBR bc (gt_BootCode t) = Inr m" "length m = 512" "mb_Signature (dec_mbr m) = mbrSignature"
    "mb_BootCode (dec_mbr m) = gt_BootCode t @ replicate (440 - length (gt_BootCode t)) 0"
    "list_ex (\<lambda>p. mr_Type p = 0xEE) (mb_PartitionRecords (dec_mbr m))"
    using protective_MBR [of "gt_BootCode t" bc] assms(7) by (auto simp: storable_table_def)
  have len: "int (length (content r)) = bs * bc"
    using geometry [OF assms(1)] assms(2,4) by auto
  have "bs * 1 \<le> bs * bc"
    using assms(3,5) entry_blocks_bounds(3) [OF assms(3)] by (intro mult_left_mono) auto
  then have fits: "bs \<le> int (length (content r))"
    by (simp add: len)
  have rd: "ReadAt ops r (nat bs) 0 = (take (nat bs) (content r), None)"
    using read_inside [of r 0 "nat bs"] assms(1,3) fits by simp
  have buf: "read_buf (nat bs) (take (nat bs) (content r)) = take (nat bs) (content r)" "length (take (nat bs) (content r)) = nat bs"
    using fits assms(3) by (auto simp: read_buf_def)
  have "512 \<le> nat bs"
    using assms(3) by simp
  then have mbr: "take 512 (take (nat bs) (content r)) = m"
    using assms(8) m(1) by (auto simp: mbr_block_def slice_def min_def)
  have single: "(readSingleGPT ops r 1 = Inr \<lparr>gt_ID = gt_ID t, gt_BootCode = [], gt_Partitions = stored_parts (gt_Partitions t)\<rparr>) \<or>
      (\<exists>e. readSingleGPT ops r 1 = Inl (GptErr e)) \<and>
      (readSingleGPT ops r (bc - 1) = Inr \<lparr>gt_ID = gt_ID t, gt_BootCode = [], gt_Partitions = stored_parts (gt_Partitions t)\<rparr>)"
    using assms(9) readSingleGPT_copy [OF assms(1,2,3) _ assms(7)] assms(4,6)
    unfolding gpt_primary_def gpt_alternate_def by blast
  have "\<not> Overhead bs > bc" "\<not> nat bs < 512" "bs \<noteq> 0" "\<not> bs < 0"
    using assms(3,5) by (auto simp: Overhead_def entry_blocks_def)
  then show ?thesis
    unfolding gpt_Read_def assms(2,4) rd Let_def prod.case option.case buf mbr
    using single m(3-5) by (auto simp: TrimRight_replicate read_back_def)
qed

end

lemma pad_block_append:
  assumes "int (length xs) mod bs = 0"
  shows "pad_block bs (xs @ ys) = xs @ pad_block bs ys"
proof -
  have "bs dvd int (length xs)"
    using assms by (simp add: dvd_eq_mod_eq_0)
  then have "(- int (length (xs @ ys))) mod bs = (- int (length ys)) mod bs"
    by (simp add: mod_eq_dvd_iff)
  then show ?thesis
    by (simp only: pad_block_def append_assoc)
qed

lemma slice_0: "slice 0 n xs = take n xs"
  by (simp add: slice_def)

lemma length_primary_area:
  assumes "512 \<le> bs" and "length m = 512" and "length h = 92" and "int (length es) mod bs = 0"
  shows "pad_block bs (pad_block bs (pad_block bs m @ h) @ es) = pad_block bs m @ pad_block bs h @ es"
proof -
  have len: "int (length (pad_block bs m)) = bs" "int (length (pad_block bs h)) = bs"
    using assms by (auto intro: length_pad_block_small)
  then have "pad_block bs (pad_block bs m @ h) = pad_block bs m @ pad_block bs h"
    by (intro pad_block_append) simp
  moreover have "int (length (pad_block bs m @ pad_block bs h @ es)) mod bs = 0"
    using len assms(4) by simp
  ultimately show ?thesis
    by (simp add: pad_block_multiple)
qed

text \<open>The three writes do not overlap, so each leaves what the others wrote.\<close>

lemma three_writes:
  assumes "length es = k" "length hb = n" "length m = n" "length ph = n" "2 * n + k \<le> a" "a + k = b" "b + n = length c"
    and "x \<le> k" "y \<le> n"
  defines "c3 \<equiv> overwrite 0 (m @ ph @ es) (overwrite b hb (overwrite a es c))"
  shows "slice a x c3 = take x es" "slice b n c3 = hb" "slice 0 y c3 = take y m"
    "slice n n c3 = ph" "slice (2 * n) x c3 = take x es" "length c3 = length c"
proof -
  have len: "length (overwrite a es c) = length c" "length (overwrite b hb (overwrite a es c)) = length c"
    using assms(1-7) by (simp_all add: length_overwrite)
  show "length c3 = length c"
    using assms(1-7) len unfolding c3_def by (subst length_overwrite) simp_all
  have "slice a x c3 = slice a x (overwrite a es c)"
    unfolding c3_def using assms(1-9) len by (simp add: slice_overwrite_after slice_overwrite_before)
  then show "slice a x c3 = take x es"
    using assms(1-9) by (simp add: slice_overwrite_inside slice_0)
  have "slice b n c3 = slice b n (overwrite b hb (overwrite a es c))"
    unfolding c3_def using assms(1-9) len by (simp add: slice_overwrite_after)
  then show "slice b n c3 = hb"
    using assms(1-9) len by (simp add: slice_overwrite_inside slice_0)
  have front: "slice i l c3 = slice i l (m @ ph @ es)" if "i + l \<le> 2 * n + k" for i l
    unfolding c3_def using assms(1-9) len that by (subst slice_overwrite_inside) simp_all
  show "slice 0 y c3 = take y m"
    using assms(1-9) by (subst front) (simp_all add: slice_0)
  show "slice n n c3 = ph" "slice (2 * n) x c3 = take x es"
    using assms(1-9) by (simp_all add: front slice_skip slice_0)
qed

context block_device
begin

lemma write_at:
  assumes "ok d" and "0 < length p" and "off + length p \<le> length (content d)"
  obtains d' where "WriteAt ops d p (int off) = (d', length p, None)" "ok d'" "BlockSize ops d' = BlockSize ops d"
    "BlockCount ops d' = BlockCount ops d" "content d' = overwrite off p (content d)"
  using write_inside [of d "int off" p] assms by auto

lemma gpt_Write_layout:
  assumes "ok d" and "BlockSize ops d = bs" "512 \<le> bs" and "BlockCount ops d = bc" "3 + 2 * entry_blocks bs \<le> bc" "bc < 2 ^ 63"
    and "storable_table (assign_IDs fresh t)"
  shows "\<exists>d'. gpt_Write ops fresh d t = (d', assign_IDs fresh t, None) \<and> ok d' \<and> BlockSize ops d' = bs \<and> BlockCount ops d' = bc \<and>
    mbr_block (content d') bc (assign_IDs fresh t) \<and> gpt_primary (content d') bs bc (assign_IDs fresh t) \<and>
    gpt_alternate (content d') bs bc (assign_IDs fresh t)"
proof -
  define t1 where "t1 = assign_IDs fresh t"
  let ?es = "entries_bytes (gt_Partitions t1)"
  let ?E = "pad_block bs ?es" and ?alt = "alternate_header bs bc t1" and ?pri = "primary_header bs bc t1"
  define n k c where "n = nat bs" and "k = nat (entry_blocks bs * bs)" and "c = content d"
  note peb = entry_blocks_bounds [OF assms(3)]
  have t1: "storable_table t1"
    using assms(7) by (simp add: t1_def)
  have desc: "describes ?pri t1 1 2" "describes ?alt t1 (bc - 1) (bc - (1 + entry_blocks bs))"
    using headers_describe [OF assms(3,5,6)] by auto
  then have lh: "length (enc_header ?pri) = 92" "length (enc_header ?alt) = 92"
    by (auto simp: describes_def intro: length_enc_header)
  have les: "length ?es = 16384"
    using t1 by (simp add: storable_table_def length_entries_bytes)
  obtain m where m: "makeProtectiveMBR bc (gt_BootCode t1) = Inr m" "length m = 512"
    using protective_MBR [of "gt_BootCode t1" bc] t1 by (auto simp: storable_table_def)
  have L: "int (length c) = bc * bs"
    using geometry [OF assms(1)] assms(2,4) by (auto simp: c_def mult.commute)
  have "(3 + 2 * entry_blocks bs) * bs \<le> bc * bs"
    using assms(3,5) by (intro mult_right_mono) auto
  then have room: "3 * n + 2 * k \<le> length c" "16384 \<le> k" "512 \<le> n"
    using peb assms(3) L by (auto simp: n_def k_def algebra_simps)
  define a b where "a = length c - n - k" and "b = length c - n"
  have ab: "2 * n + k \<le> a" "a + k = b" "b + n = length c"
    using room by (auto simp: a_def b_def)
  have offs: "(bc - (1 + entry_blocks bs)) * bs = int a" "(bc - 1) * bs = int b" "2 * bs = int (2 * n)"
    using ab L assms(3) peb by (auto simp: n_def k_def algebra_simps)
  have E: "length ?E = k"
    using length_pad_entries [OF assms(3) les] by (simp add: k_def)
  have pads: "length (pad_block bs (enc_header ?pri)) = n" "length (pad_block bs (enc_header ?alt)) = n" "length (pad_block bs m) = n"
    using length_pad_block_small [of "enc_header ?pri" bs] length_pad_block_small [of "enc_header ?alt" bs]
      length_pad_block_small [of m bs] lh m(2) assms(3) by (simp_all add: n_def)
  let ?H = "pad_block bs (enc_header ?alt)" and ?P = "pad_block bs m @ pad_block bs (enc_header ?pri) @ ?E"
  define c3 where "c3 = overwrite 0 ?P (overwrite b ?H (overwrite a ?E c))"
  note c3 = three_writes [OF E pads(2,3,1) ab room(2,3), folded c3_def]
  have len: "length (overwrite a ?E c) = length c" "length (overwrite b ?H (overwrite a ?E c)) = length c"
    using E pads ab by (simp_all add: length_overwrite)
  obtain d1 where d1: "WriteAt ops d ?E (int a) = (d1, length ?E, None)" "ok d1" "BlockSize ops d1 = bs" "BlockCount ops d1 = bc"
      "content d1 = overwrite a ?E c"
    using write_at [of d ?E a] assms(1,2,4) E room ab by (auto simp: c_def)
  obtain d2 where d2: "WriteAt ops d1 ?H (int b) = (d2, length ?H, None)" "ok d2" "BlockSize ops d2 = bs" "BlockCount ops d2 = bc"
      "content d2 = overwrite b ?H (overwrite a ?E c)"
    using write_at [of d1 ?H b] d1 pads room ab len by auto
  obtain d3 where d3: "WriteAt ops d2 ?P (int 0) = (d3, length ?P, None)" "ok d3" "BlockSize ops d3 = bs" "BlockCount ops d3 = bc"
      "content d3 = c3"
    using write_at [of d2 ?P 0] d2 E pads room ab len by (auto simp: c3_def)
  have start: "to_int64 (hd_PartitionEntriesStartBlock ?alt) = bc - (1 + entry_blocks bs)"
    using desc(2) assms(5,6) peb(3) by (simp add: describes_def to_int64_id)
  have "int (length ?E) mod bs = 0"
    using length_pad_entries [OF assms(3) les] by simp
  then have "pad_block bs (pad_block bs (pad_block bs m @ enc_header ?pri) @ ?E) = ?P"
    using length_primary_area [OF assms(3) m(2) lh(1)] by simp
  moreover have "length (gt_Partitions t1) = length (gt_Partitions t)"
    by (simp add: t1_def assign_IDs_def)
  ultimately have "gpt_Write ops fresh d t = (d3, t1, None)"
    using assms(3,5) t1 d1(1) d2(1) d3(1) m(1)
    unfolding gpt_Write_def assms(2,4) Let_def t1_def [symmetric] entry_blocks_def [symmetric] start offs
    by (simp add: storable_table_def)
  moreover have "mbr_block c3 bc t1"
    using m c3(3) by (auto simp: mbr_block_def pad_block_def)
  moreover have "gpt_primary c3 bs bc t1"
  proof -
    have "nat (1 * bs) = n" "nat (2 * bs) = 2 * n" "nat bs = n" "1 * bs + bs \<le> int (length c)" "2 * bs + 16384 \<le> int (length c)"
      using room assms(3) by (auto simp: n_def)
    then show ?thesis
      unfolding gpt_primary_def gpt_copy_def using desc(1) c3(4-6) les
      by (simp only:) (simp add: pad_block_def)
  qed
  moreover have "gpt_alternate c3 bs bc t1"
    using desc(2) c3(1,2,6) room ab les assms(3,5,6) peb(3) unfolding gpt_alternate_def gpt_copy_def offs
    by (simp add: n_def pad_block_def)
  ultimately show ?thesis
    using d3 by (auto simp: t1_def)
qed

end

lemma storable_assign_ID: "storable p \<Longrightarrow> length u = 16 \<Longrightarrow> storable (p\<lparr>pt_ID := u\<rparr>)"
  by (simp add: storable_def)

lemma storable_assign_IDs:
  assumes "storable_table t" and "\<And>i. length (fresh i) = 16"
  shows "storable_table (assign_IDs fresh t)"
proof -
  have "case assign_ID fresh i p of None \<Rightarrow> True | Some p \<Rightarrow> storable p" if "p \<in> set (gt_Partitions t)" for i p
    using assms that
    by (cases p) (auto simp: assign_ID_def storable_table_def storable_parts_def list_all_iff intro: storable_assign_ID split: option.splits)
  then have "storable_parts (gt_Partitions (assign_IDs fresh t))"
    by (auto simp: assign_IDs_def storable_parts_def list_all_iff in_set_enumerate_eq)
  then show ?thesis
    using assms by (auto simp: storable_table_def assign_IDs_def)
qed

text \<open>The blocks of the primary copy: the header and the entries after it.\<close>

definition same_outside_primary :: "int \<Rightarrow> bytes \<Rightarrow> bytes \<Rightarrow> bool" where
  "same_outside_primary bs c c' \<longleftrightarrow>
     length c = length c' \<and> take (nat bs) c = take (nat bs) c' \<and> drop (nat ((2 + entry_blocks bs) * bs)) c = drop (nat ((2 + entry_blocks bs) * bs)) c'"

lemma slice_same_after: "drop a xs = drop a ys \<Longrightarrow> a \<le> b \<Longrightarrow> slice b n xs = slice b n ys"
  unfolding slice_def by (metis drop_drop le_add_diff_inverse2)

lemma slice_same_before:
  assumes "take a xs = take a ys" and "n \<le> a"
  shows "slice 0 n xs = slice 0 n ys"
  using arg_cong [OF assms(1), of "take n"] assms(2) by (simp add: slice_0 min_def)

lemma alternate_survives:
  assumes "512 \<le> bs" and "3 + 2 * entry_blocks bs \<le> bc" and "same_outside_primary bs c c'"
  shows "gpt_alternate c bs bc t \<Longrightarrow> gpt_alternate c' bs bc t" and "mbr_block c bc t \<Longrightarrow> mbr_block c' bc t"
proof -
  let ?e = "(2 + entry_blocks bs) * bs"
  have "?e \<le> (bc - (1 + entry_blocks bs)) * bs" "?e \<le> (bc - 1) * bs"
    using assms(1,2) entry_blocks_bounds(3) [OF assms(1)] by (auto intro!: mult_right_mono)
  then have "slice (nat ((bc - (1 + entry_blocks bs)) * bs)) n c = slice (nat ((bc - (1 + entry_blocks bs)) * bs)) n c'"
      "slice (nat ((bc - 1) * bs)) n c = slice (nat ((bc - 1) * bs)) n c'" for n
    using assms(3) by (auto simp: same_outside_primary_def intro!: slice_same_after [where a = "nat ?e"])
  then show "gpt_alternate c bs bc t \<Longrightarrow> gpt_alternate c' bs bc t"
    using assms(3) by (simp add: gpt_alternate_def gpt_copy_def same_outside_primary_def)
  have "slice 0 512 c = slice 0 512 c'"
    using assms(1,3) by (intro slice_same_before [where a = "nat bs"]) (auto simp: same_outside_primary_def)
  then show "mbr_block c bc t \<Longrightarrow> mbr_block c' bc t"
    by (simp add: mbr_block_def)
qed

section \<open>Properties\<close>

lemma mem_ops_geometry: "BlockSize mem_ops m = mm_blockSize m" "BlockCount mem_ops m = mm_blockCount m"
  by (simp_all add: mem_ops_def)

lemma Overhead_entry_blocks: "Overhead bs = 3 + 2 * entry_blocks bs"
  by (simp add: Overhead_def entry_blocks_def)

text \<open>C6: On a device with blocks of at least 512 bytes and room for a GPT, writing a table succeeds,
  assigns the IDs that are missing, and reading the device back returns the table: its ID, its boot
  code without trailing zeros, and its partitions, with unused slots empty and the empty slots at the
  end dropped.\<close>

theorem gpt_Read_Write:
  assumes "mem_ok m" and "512 \<le> mm_blockSize m" and "Overhead (mm_blockSize m) \<le> mm_blockCount m" and "mm_blockCount m < 2 ^ 63"
    and "storable_table t" and "\<forall>i. length (fresh i) = 16"
  shows "\<exists>m'. gpt_Write mem_ops fresh m t = (m', assign_IDs fresh t, None) \<and>
    gpt_Read mem_ops m' = Inr (read_back (assign_IDs fresh t))"
proof -
  have t: "storable_table (assign_IDs fresh t)"
    using assms(5,6) by (simp add: storable_assign_IDs)
  note room = assms(3) [unfolded Overhead_entry_blocks]
  obtain m' where m': "gpt_Write mem_ops fresh m t = (m', assign_IDs fresh t, None)" "mem_ok m'"
      "mm_blockSize m' = mm_blockSize m" "mm_blockCount m' = mm_blockCount m"
      "mbr_block (mm_data m') (mm_blockCount m) (assign_IDs fresh t)"
      "gpt_primary (mm_data m') (mm_blockSize m) (mm_blockCount m) (assign_IDs fresh t)"
    using mem.gpt_Write_layout [OF assms(1) _ assms(2) _ room assms(4) t] by (auto simp: mem_ops_geometry)
  then show ?thesis
    using mem.gpt_Read_layout [OF m'(2) _ assms(2) _ room assms(4) t m'(5)] by (auto simp: mem_ops_geometry)
qed

definition demo_part :: partition where
  "demo_part = \<lparr>pt_Name = [69, 83, 80, 0x1F600], pt_Type = replicate 16 7, pt_ID = replicate 16 0, pt_FirstBlock = 40,
     pt_LastBlock = 50, pt_Attributes = 5, pt_Section = None\<rparr>"

definition demo_table :: gpt_table where
  "demo_table = \<lparr>gt_ID = replicate 16 0, gt_BootCode = [0x90, 0], gt_Partitions = [None, Some demo_part, None]\<rparr>"

definition demo_mem :: mem where
  "demo_mem = \<lparr>mm_blockSize = 512, mm_blockCount = 80, mm_data = replicate 40960 0\<rparr>"

lemma demo_mem_ok: "mem_ok demo_mem"
  unfolding mem_ok_def demo_mem_def by (auto intro: exI [of _ 9])

lemma demo_table_storable: "storable_table demo_table"
  by (simp add: storable_table_def storable_parts_def storable_def demo_table_def demo_part_def scalar_def
      utf16_Encode_def utf16_encode_rune_def)

abbreviation demo_ids :: "nat \<Rightarrow> uuid" where
  "demo_ids \<equiv> \<lambda>i. replicate 16 (of_nat i + 1)"

lemma demo_read_back:
  "read_back (assign_IDs demo_ids demo_table) =
     \<lparr>gt_ID = replicate 16 1, gt_BootCode = [0x90], gt_Partitions = [None, Some (demo_part\<lparr>pt_ID := replicate 16 3\<rparr>)]\<rparr>"
  by (simp add: read_back_def assign_IDs_def assign_ID_def demo_table_def demo_part_def stored_parts_def stored_def IsUnused_def
      TrimRight_def uuid_Nil_def)

lemma demo_mem_room: "512 \<le> mm_blockSize demo_mem" "Overhead (mm_blockSize demo_mem) \<le> mm_blockCount demo_mem"
    "mm_blockCount demo_mem < 2 ^ 63"
  by (simp_all add: demo_mem_def Overhead_def signed_divide_int_def)

theorem gpt_Read_Write_witness:
  "\<exists>m'. gpt_Write mem_ops demo_ids demo_mem demo_table = (m', assign_IDs demo_ids demo_table, None) \<and>
    gpt_Read mem_ops m' = Inr \<lparr>gt_ID = replicate 16 1, gt_BootCode = [0x90],
      gt_Partitions = [None, Some (demo_part\<lparr>pt_ID := replicate 16 3\<rparr>)]\<rparr>"
  using gpt_Read_Write [OF demo_mem_ok demo_mem_room demo_table_storable, of demo_ids] unfolding demo_read_back by simp

text \<open>C10: After a table has been written, the blocks of the primary header and its entries may be
  damaged in any way: as long as the primary copy is then rejected with an error, reading returns the
  same table from the alternate copy.\<close>

theorem gpt_Read_damaged_primary:
  assumes "mem_ok m" and "512 \<le> mm_blockSize m" and "Overhead (mm_blockSize m) \<le> mm_blockCount m" and "mm_blockCount m < 2 ^ 63"
    and "storable_table t" and "\<forall>i. length (fresh i) = 16"
    and "gpt_Write mem_ops fresh m t = (m', t', err)"
    and "same_outside_primary (mm_blockSize m) (mm_data m') c" and "readSingleGPT mem_ops (m'\<lparr>mm_data := c\<rparr>) 1 = Inl (GptErr e)"
  shows "gpt_Read mem_ops (m'\<lparr>mm_data := c\<rparr>) = Inr (read_back (assign_IDs fresh t))"
proof -
  have t: "storable_table (assign_IDs fresh t)"
    using assms(5,6) by (simp add: storable_assign_IDs)
  note room = assms(3) [unfolded Overhead_entry_blocks]
  have m': "mem_ok m'" "mm_blockSize m' = mm_blockSize m" "mm_blockCount m' = mm_blockCount m"
      "mbr_block (mm_data m') (mm_blockCount m) (assign_IDs fresh t)"
      "gpt_alternate (mm_data m') (mm_blockSize m) (mm_blockCount m) (assign_IDs fresh t)"
    using mem.gpt_Write_layout [OF assms(1) _ assms(2) _ room assms(4) t] assms(7) by (auto simp: mem_ops_geometry)
  have "mem_ok (m'\<lparr>mm_data := c\<rparr>)"
    using m'(1) assms(8) by (simp add: mem_ok_def same_outside_primary_def)
  then show ?thesis
    using alternate_survives [OF assms(2) room assms(8)] m' assms(9)
    by (intro mem.gpt_Read_layout [OF _ _ assms(2) _ room assms(4) t]) (auto simp: mem_ops_geometry)
qed

lemma overwrite_same_outside:
  assumes "512 \<le> length c - 512" and "p = replicate 512 0" and "16384 + 1024 \<le> length c"
  shows "same_outside_primary 512 c (overwrite 512 p c)"
proof -
  have "entry_blocks 512 = 32"
    by (simp add: entry_blocks_def signed_divide_int_def)
  then show ?thesis
    using assms by (simp add: same_outside_primary_def overwrite_def)
qed

lemma zeroed_header_rejected:
  assumes "mem_ok m" and "mm_blockSize m = 512" and "1024 \<le> length (mm_data m)"
  shows "readSingleGPT mem_ops (m\<lparr>mm_data := overwrite 512 (replicate 512 0) (mm_data m)\<rparr>) 1 = Inl (GptErr ''no GPT signature found'')"
proof -
  let ?m = "m\<lparr>mm_data := overwrite 512 (replicate 512 0) (mm_data m)\<rparr>"
  have "mem_ok ?m"
    using assms by (intro mem_ok_overwrite) auto
  then have rd: "ReadAt mem_ops ?m (nat 512) (512 * 1) = (replicate 512 0, None)"
    using mem.read_inside [of ?m 512 512] assms overwrite_read [of 512 "replicate 512 0" "mm_data m"]
    by (simp add: length_overwrite)
  have bs: "BlockSize mem_ops ?m = 512"
    using assms(2) by (simp add: mem_ops_geometry)
  have buf: "read_buf (nat 512) (replicate 512 0) = replicate 512 0" "\<not> length (replicate 512 0) < 92"
    by (simp_all add: read_buf_def)
  have "hd_Signature (dec_header (replicate 512 0)) = replicate 8 0"
    by (simp add: dec_header_def slice_def)
  moreover have "gptSignature ! 0 \<noteq> replicate 8 0 ! 0"
    by (simp add: gptSignature_def)
  ultimately have "hd_Signature (dec_header (replicate 512 0)) \<noteq> gptSignature"
    by metis
  then show ?thesis
    unfolding readSingleGPT_def bs Let_def rd prod.case option.case buf(1) by (simp only: buf(2) if_False if_True not_False_eq_True)
qed

theorem gpt_Read_damaged_primary_witness:
  "\<exists>m' t'. gpt_Write mem_ops demo_ids demo_mem demo_table = (m', t', None) \<and>
    gpt_Read mem_ops (m'\<lparr>mm_data := overwrite 512 (replicate 512 0) (mm_data m')\<rparr>) =
      Inr \<lparr>gt_ID = replicate 16 1, gt_BootCode = [0x90], gt_Partitions = [None, Some (demo_part\<lparr>pt_ID := replicate 16 3\<rparr>)]\<rparr>"
proof -
  have room: "3 + 2 * entry_blocks (mm_blockSize demo_mem) \<le> mm_blockCount demo_mem"
    using demo_mem_room(2) by (simp add: Overhead_entry_blocks)
  have t: "storable_table (assign_IDs demo_ids demo_table)"
    by (rule storable_assign_IDs [OF demo_table_storable]) simp
  have m: "mm_blockSize demo_mem = 512" "mm_blockCount demo_mem = 80"
    by (simp_all add: demo_mem_def)
  obtain m' where m': "gpt_Write mem_ops demo_ids demo_mem demo_table = (m', assign_IDs demo_ids demo_table, None)"
      "mem_ok m'" "mm_blockSize m' = 512" "mm_blockCount m' = 80"
    using mem.gpt_Write_layout [OF demo_mem_ok _ demo_mem_room(1) _ room demo_mem_room(3) t] by (auto simp: mem_ops_geometry m)
  have len: "length (mm_data m') = 40960"
    using m'(2-4) by (simp add: mem_ok_def)
  have "same_outside_primary (mm_blockSize demo_mem) (mm_data m') (overwrite 512 (replicate 512 0) (mm_data m'))"
    unfolding m by (rule overwrite_same_outside) (simp_all add: len)
  then show ?thesis
    using gpt_Read_damaged_primary [OF demo_mem_ok demo_mem_room demo_table_storable _ m'(1) _ zeroed_header_rejected] m' len
    unfolding demo_read_back by simp
qed

end
