(* ===== verification/LogEntry.thy ===== *)
theory LogEntry
  imports LogBuffer
begin

text \<open>
  What a log entry is: severities (\<^verbatim>\<open>osbase/logtree/leveled.go\<close>), leveled payloads
  (\<^verbatim>\<open>leveled_payload.go\<close>), distinguished names (\<^verbatim>\<open>DN\<close> of \<^verbatim>\<open>journal.go\<close>) and the public log entries with
  their protobuf form (\<^verbatim>\<open>logtree_entry.go\<close>). A severity is a string, as in the sources. A timestamp is
  an instant in nanoseconds; the conversions of the \<^verbatim>\<open>timestamppb\<close> package are arguments. The text
  representations with date and time are not modelled.
\<close>

type_synonym dn = string
type_synonym severity = string

section \<open>Decimal numbers\<close>

definition digit_char :: "nat \<Rightarrow> char" where
  "digit_char d = char_of (48 + d)"

fun nat_decimal :: "nat \<Rightarrow> string" where
  "nat_decimal n = (if n < 10 then [digit_char n] else nat_decimal (n div 10) @ [digit_char (n mod 10)])"

declare nat_decimal.simps [simp del]

text \<open>The verb \<^verbatim>\<open>%d\<close>.\<close>

definition int_decimal :: "int \<Rightarrow> string" where
  "int_decimal n = (if n < 0 then CHR ''-'' # nat_decimal (nat (- n)) else nat_decimal (nat n))"

definition digit_value :: "char \<Rightarrow> nat option" where
  "digit_value c = (let v = of_char c :: nat in if 48 \<le> v \<and> v \<le> 57 then Some (v - 48) else None)"

fun digits_value :: "nat \<Rightarrow> string \<Rightarrow> nat option" where
  "digits_value acc [] = Some acc"
| "digits_value acc (c # cs) = (case digit_value c of None \<Rightarrow> None | Some d \<Rightarrow> digits_value (10 * acc + d) cs)"

text \<open>\<^verbatim>\<open>strconv.Atoi\<close>, for an \<^verbatim>\<open>int\<close> of 64 bits.\<close>

definition Atoi :: "string \<Rightarrow> int option" where
  "Atoi s =
     (let (neg, ds) = (case s of [] \<Rightarrow> (False, [])
                       | c # cs \<Rightarrow> if c = CHR ''-'' then (True, cs) else if c = CHR ''+'' then (False, cs) else (False, c # cs)) in
      if ds = [] then None
      else case digits_value 0 ds of
             None \<Rightarrow> None
           | Some v \<Rightarrow>
               (let n = (if neg then - int v else int v) in
                if - (2 ^ 63) \<le> n \<and> n < 2 ^ 63 then Some n else None))"

section \<open>Distinguished names\<close>

definition DN_Path :: "dn \<Rightarrow> (string, string list) result" where
  "DN_Path d =
     (if d = [] then Inr []
      else
        (let parts = split_on (CHR ''.'') d in
         if list_ex (\<lambda>p. p = []) parts then Inl ''invalid DN'' else Inr parts))"

type_synonym shorten_dictionary = "string \<rightharpoonup> string"

definition MetropolisShortenDict :: shorten_dictionary where
  "MetropolisShortenDict = map_of
     [(''controlplane'', ''cplane''), (''map-cluster-membership'', ''map-membership''), (''cluster-membership'', ''cluster''),
      (''controller-manager'', ''controllers''), (''networking'', ''net''), (''network'', ''net''), (''interfaces'', ''ifaces''),
      (''kubernetes'', ''k8s'')]"

text \<open>Slicing out of range is a panic, the left of the result.\<close>

definition DN_Shorten :: "shorten_dictionary \<Rightarrow> int \<Rightarrow> dn \<Rightarrow> (string, string) result" where
  "DN_Shorten dict maxLen d =
     (let path0 = (case DN_Path d of Inl err \<Rightarrow> [] | Inr parts \<Rightarrow> parts);
          path1 = map (\<lambda>p. case dict p of Some sh \<Rightarrow> sh | None \<Rightarrow> p) path0 in
      if path1 = [] then Inr ''?''
      else
        (let path2 = (if length path1 > 1 \<and> path1 ! 0 = ''root'' then tl path1 else path1);
             path3 = (if path2 ! 0 = ''role'' \<and> length path2 > 1
                      then (if length path2 = 2 then tl path2 else [path2 ! 1, path2 ! (length path2 - 1)])
                      else path2);
             s = join_with (CHR '' '') path3;
             overflow = int (length s) - maxLen in
         if overflow > 0
         then (if overflow + 3 > int (length s) then Inl ''slice bounds out of range''
               else Inr (''...'' @ drop (nat (overflow + 3)) s))
         else Inr s))"

section \<open>Severities\<close>

definition INFO :: severity where "INFO = ''I''"

definition WARNING :: severity where "WARNING = ''W''"

definition ERROR :: severity where "ERROR = ''E''"

definition FATAL :: severity where "FATAL = ''F''"

lemmas severity_defs = INFO_def WARNING_def ERROR_def FATAL_def

definition SeverityAtLeast :: "severity \<rightharpoonup> severity list" where
  "SeverityAtLeast = map_of
     [(INFO, [INFO, WARNING, ERROR, FATAL]), (WARNING, [WARNING, ERROR, FATAL]), (ERROR, [ERROR, FATAL]), (FATAL, [FATAL])]"

definition AtLeast :: "severity \<Rightarrow> severity \<Rightarrow> bool" where
  "AtLeast s other \<longleftrightarrow> list_ex (\<lambda>el. el = s) (case SeverityAtLeast other of Some els \<Rightarrow> els | None \<Rightarrow> [])"

definition severity_Valid :: "severity \<Rightarrow> bool" where
  "severity_Valid s \<longleftrightarrow> s = INFO \<or> s = WARNING \<or> s = ERROR \<or> s = FATAL"

text \<open>An enumeration of protobuf is open: a message can hold any number.\<close>

definition SeverityFromProto :: "int \<Rightarrow> (string, severity) result" where
  "SeverityFromProto s =
     (if s = 1 then Inr INFO else if s = 2 then Inr WARNING else if s = 3 then Inr ERROR else if s = 4 then Inr FATAL
      else Inl ''unknown severity value'')"

definition severity_ToProto :: "severity \<Rightarrow> int" where
  "severity_ToProto s = (if s = INFO then 1 else if s = WARNING then 2 else if s = ERROR then 3 else if s = FATAL then 4 else 0)"

section \<open>Leveled payloads\<close>

record leveled_payload =
  lp_messages :: "string list"
  lp_timestamp :: int
  lp_severity :: severity
  lp_file :: string
  lp_line :: int

record 'ts leveled_proto =
  lpp_Lines :: "string list"
  lpp_Timestamp :: 'ts
  lpp_Severity :: int
  lpp_Location :: string

definition MessagesJoined :: "leveled_payload \<Rightarrow> string" where
  "MessagesJoined p = join_with (CHR 0x0A) (lp_messages p)"

definition Location :: "leveled_payload \<Rightarrow> string" where
  "Location p = lp_file p @ '':'' @ int_decimal (lp_line p)"

definition leveled_Proto :: "(int \<Rightarrow> 'ts) \<Rightarrow> leveled_payload \<Rightarrow> 'ts leveled_proto" where
  "leveled_Proto tpb_New p =
     \<lparr>lpp_Lines = lp_messages p, lpp_Timestamp = tpb_New (lp_timestamp p), lpp_Severity = severity_ToProto (lp_severity p),
      lpp_Location = Location p\<rparr>"

definition LeveledPayloadFromProto :: "('ts \<Rightarrow> int) \<Rightarrow> 'ts leveled_proto \<Rightarrow> (string, leveled_payload) result" where
  "LeveledPayloadFromProto AsTime p =
     rbind (SeverityFromProto (lpp_Severity p)) (\<lambda>severity.
       let parts = split_on (CHR '':'') (lpp_Location p) in
       if length parts \<noteq> 2 then Inl ''invalid location, must be two :-delimited parts''
       else case Atoi (parts ! 1) of
              None \<Rightarrow> Inl ''invalid location line number''
            | Some line \<Rightarrow>
                Inr \<lparr>lp_messages = lpp_Lines p, lp_timestamp = AsTime (lpp_Timestamp p), lp_severity = severity,
                     lp_file = parts ! 0, lp_line = line\<rparr>)"

record external_leveled_payload =
  elp_Message :: string
  elp_Timestamp :: "int option"
  elp_Severity :: severity
  elp_File :: string
  elp_Line :: int

text \<open>The zero time is \<open>None\<close>; \<open>now\<close> is the time of the call.\<close>

definition sanitize :: "int \<Rightarrow> external_leveled_payload \<Rightarrow> leveled_payload" where
  "sanitize now e =
     \<lparr>lp_messages = split_on (CHR 0x0A) (elp_Message e),
      lp_timestamp = (case elp_Timestamp e of None \<Rightarrow> now | Some t \<Rightarrow> t),
      lp_severity = (if severity_Valid (elp_Severity e) then elp_Severity e else INFO),
      lp_file = (if elp_File e = [] then ''unknown'' else elp_File e),
      lp_line = (if elp_Line e < 0 then 0 else elp_Line e)\<rparr>"

section \<open>Log entries\<close>

record log_entry =
  le_Leveled :: "leveled_payload option"
  le_Raw :: "line option"
  le_DN :: dn

datatype 'ts log_kind = KLeveled "'ts leveled_proto" | KRaw raw_proto | KNone

record 'ts log_entry_proto =
  lep_Dn :: string
  lep_Kind :: "'ts log_kind"

definition entry_Proto :: "(int \<Rightarrow> 'ts) \<Rightarrow> log_entry \<Rightarrow> 'ts log_entry_proto option" where
  "entry_Proto tpb_New l =
     (case le_Leveled l of
        Some leveled \<Rightarrow> Some \<lparr>lep_Dn = le_DN l, lep_Kind = KLeveled (leveled_Proto tpb_New leveled)\<rparr>
      | None \<Rightarrow>
          (case le_Raw l of
             Some raw \<Rightarrow> Some \<lparr>lep_Dn = le_DN l, lep_Kind = KRaw (line_ProtoLog raw)\<rparr>
           | None \<Rightarrow> None))"

definition LogEntryFromProto :: "('ts \<Rightarrow> int) \<Rightarrow> 'ts log_entry_proto \<Rightarrow> (string, log_entry) result" where
  "LogEntryFromProto AsTime l =
     rbind (DN_Path (lep_Dn l)) (\<lambda>_.
       case lep_Kind l of
         KLeveled inner \<Rightarrow> rbind (LeveledPayloadFromProto AsTime inner) (\<lambda>leveled. Inr \<lparr>le_Leveled = Some leveled, le_Raw = None, le_DN = lep_Dn l\<rparr>)
       | KRaw inner \<Rightarrow> rbind (LineFromLogProto inner) (\<lambda>line. Inr \<lparr>le_Leveled = None, le_Raw = Some line, le_DN = lep_Dn l\<rparr>)
       | KNone \<Rightarrow> Inl ''proto has neither Leveled nor Raw set'')"

section \<open>Round trip through protobuf\<close>

lemma digit_value_char: "d < 10 \<Longrightarrow> digit_value (digit_char d) = Some d"
  by (simp add: digit_value_def digit_char_def)

lemma digits_value_append: "digits_value acc (xs @ ys) = (case digits_value acc xs of None \<Rightarrow> None | Some v \<Rightarrow> digits_value v ys)"
  by (induction xs arbitrary: acc) (auto split: option.splits)

lemma digits_value_decimal: "digits_value 0 (nat_decimal n) = Some n"
proof (induction n rule: nat_decimal.induct)
  case (1 n)
  show ?case
  proof (cases "n < 10")
    case True
    then show ?thesis
      by (simp add: nat_decimal.simps digit_value_char)
  next
    case False
    then show ?thesis
      using 1 by (subst nat_decimal.simps) (simp add: digits_value_append digit_value_char)
  qed
qed

lemma digit_char_neq: "d < 10 \<Longrightarrow> digit_char d \<noteq> CHR ''-''" "d < 10 \<Longrightarrow> digit_char d \<noteq> CHR ''+''" "d < 10 \<Longrightarrow> digit_char d \<noteq> CHR '':''"
  using digit_value_char [of d] by (auto simp: digit_value_def)

lemma nat_decimal_chars: "set (nat_decimal n) \<subseteq> digit_char ` {..<10}"
proof (induction n rule: nat_decimal.induct)
  case (1 n)
  then show ?case
    by (subst nat_decimal.simps) auto
qed

lemma nat_decimal_Cons: obtains d cs where "nat_decimal n = digit_char d # cs" "d < 10"
proof -
  have "nat_decimal n \<noteq> []"
    by (subst nat_decimal.simps) simp
  then obtain c cs where "nat_decimal n = c # cs"
    by (cases "nat_decimal n") auto
  then show ?thesis
    using nat_decimal_chars [of n] that by auto
qed

lemma Atoi_int_decimal:
  assumes "- (2 ^ 63) \<le> n" and "n < 2 ^ 63"
  shows "Atoi (int_decimal n) = Some n"
proof -
  have nonempty: "nat_decimal k \<noteq> []" for k
    by (rule nat_decimal_Cons [of k]) simp
  show ?thesis
  proof (cases "n < 0")
    case True
    then show ?thesis
      using assms nonempty by (simp add: Atoi_def int_decimal_def digits_value_decimal)
  next
    case False
    obtain d cs where d: "nat_decimal (nat n) = digit_char d # cs" "d < 10"
      by (rule nat_decimal_Cons)
    then show ?thesis
      using False assms digits_value_decimal [of "nat n"] digit_char_neq [of d]
      by (simp add: Atoi_def int_decimal_def del: digits_value.simps)
  qed
qed

lemma colon_notin_int_decimal: "CHR '':'' \<notin> set (int_decimal n)"
proof -
  have "CHR '':'' \<notin> set (nat_decimal k)" for k
    using nat_decimal_chars [of k] digit_char_neq(3) by force
  then show ?thesis
    by (simp add: int_decimal_def)
qed

lemma SeverityFromToProto: "severity_Valid s \<Longrightarrow> SeverityFromProto (severity_ToProto s) = Inr s"
  by (auto simp: severity_Valid_def SeverityFromProto_def severity_ToProto_def severity_defs)

text \<open>The entries that survive the trip: one kind, a valid DN, and no colon in the file name.\<close>

definition payload_portable :: "leveled_payload \<Rightarrow> bool" where
  "payload_portable p \<longleftrightarrow> severity_Valid (lp_severity p) \<and> CHR '':'' \<notin> set (lp_file p) \<and> - (2 ^ 63) \<le> lp_line p \<and> lp_line p < 2 ^ 63"

definition entry_portable :: "log_entry \<Rightarrow> bool" where
  "entry_portable l \<longleftrightarrow> is_ok (DN_Path (le_DN l)) \<and>
     (case (le_Leveled l, le_Raw l) of
        (Some p, None) \<Rightarrow> payload_portable p
      | (None, Some r) \<Rightarrow> int (length (ln_Data r)) \<le> ln_OriginalLength r
      | _ \<Rightarrow> False)"

lemma leveled_round_trip:
  assumes "payload_portable p" and "AsTime (tpb_New (lp_timestamp p)) = lp_timestamp p"
  shows "LeveledPayloadFromProto AsTime (leveled_Proto tpb_New p) = Inr p"
proof -
  have "split_on (CHR '':'') (Location p) = [lp_file p, int_decimal (lp_line p)]"
    using assms(1) colon_notin_int_decimal
    by (simp add: Location_def payload_portable_def split_on_append_sep split_on_id)
  then show ?thesis
    using assms
    by (simp add: LeveledPayloadFromProto_def leveled_Proto_def payload_portable_def SeverityFromToProto Atoi_int_decimal Let_def)
qed

text \<open>C33: A log entry with a valid name, exactly one payload and no colon in its file name is restored
  by \<^verbatim>\<open>LogEntryFromProto\<close> from the message that \<^verbatim>\<open>Proto\<close> makes of it, if timestamps are.\<close>

theorem LogEntryFromProto_Proto:
  assumes "\<forall>t. AsTime (tpb_New t) = t" and "entry_portable l"
  shows "\<exists>p. entry_Proto tpb_New l = Some p \<and> LogEntryFromProto AsTime p = Inr l"
proof -
  obtain parts where "DN_Path (le_DN l) = Inr parts"
    using assms(2) by (auto simp: entry_portable_def is_ok_iff)
  then show ?thesis
    using assms leveled_round_trip [of _ AsTime tpb_New]
    by (cases l) (auto simp: entry_portable_def entry_Proto_def LogEntryFromProto_def line_ProtoLog_def LineFromLogProto_def split: option.splits)
qed

theorem LogEntryFromProto_Proto_witness:
  "\<exists>p. entry_Proto (\<lambda>t. (t div 10 ^ 9, t mod 10 ^ 9))
      \<lparr>le_Leveled = Some \<lparr>lp_messages = [''a'', ''b''], lp_timestamp = 1700000000123456789, lp_severity = ERROR, lp_file = ''x.go'', lp_line = 42\<rparr>,
       le_Raw = None, le_DN = ''root.net''\<rparr> = Some p \<and>
    LogEntryFromProto (\<lambda>(s, n). s * 10 ^ 9 + n) p = Inr
      \<lparr>le_Leveled = Some \<lparr>lp_messages = [''a'', ''b''], lp_timestamp = 1700000000123456789, lp_severity = ERROR, lp_file = ''x.go'', lp_line = 42\<rparr>,
       le_Raw = None, le_DN = ''root.net''\<rparr>"
  by (rule LogEntryFromProto_Proto) (simp, code_simp)

end
