(* ===== verification/SliceStable.thy ===== *)
theory SliceStable
  imports Prelude
begin

text \<open>
  \<^verbatim>\<open>sort.SliceStable\<close> of the standard library, as far as the repository depends on its algorithm: it
  is called with a comparison of the indices rather than of the elements (\<^verbatim>\<open>i > j\<close>) in order to
  reverse a slice, which the documentation of the function does not cover. The comparison is
  therefore a predicate on indices here, and the theory shows that the algorithm (insertion sort of
  blocks of 20 elements, then in-place symmetric merges) does reverse the slice.
\<close>

section \<open>The algorithm\<close>

definition swap :: "nat \<Rightarrow> nat \<Rightarrow> 'a list \<Rightarrow> 'a list" where
  "swap i j xs = xs[i := xs ! j, j := xs ! i]"

fun sift_down :: "(nat \<Rightarrow> nat \<Rightarrow> bool) \<Rightarrow> nat \<Rightarrow> nat \<Rightarrow> 'a list \<Rightarrow> 'a list" where
  "sift_down lt a j xs = (if j > a \<and> lt j (j - 1) then sift_down lt a (j - 1) (swap j (j - 1) xs) else xs)"

declare sift_down.simps [simp del]

definition insertionSort :: "(nat \<Rightarrow> nat \<Rightarrow> bool) \<Rightarrow> nat \<Rightarrow> nat \<Rightarrow> 'a list \<Rightarrow> 'a list" where
  "insertionSort lt a b xs = fold (sift_down lt a) [a + 1..<b] xs"

text \<open>A binary search for the first index from \<open>i\<close> up to \<open>j\<close> that \<open>right\<close> does not hold for.\<close>

function bsearch :: "(nat \<Rightarrow> bool) \<Rightarrow> nat \<Rightarrow> nat \<Rightarrow> nat" where
  "bsearch right i j =
     (if i < j then (let h = (i + j) div 2 in if right h then bsearch right (h + 1) j else bsearch right i h) else i)"
  by auto
termination by (relation "measure (\<lambda>(right, i, j). j - i)") auto

declare bsearch.simps [simp del]

text \<open>Exchanging the blocks from \<open>a\<close> to \<open>m\<close> and from \<open>m\<close> to \<open>b\<close>, which \<^verbatim>\<open>rotate\<close> does by swaps.\<close>

definition rotate_blocks :: "nat \<Rightarrow> nat \<Rightarrow> nat \<Rightarrow> 'a list \<Rightarrow> 'a list" where
  "rotate_blocks a m b xs = take a xs @ take (b - m) (drop m xs) @ take (m - a) (drop a xs) @ drop b xs"

text \<open>Where the symmetric merge starts to exchange.\<close>

definition merge_start :: "(nat \<Rightarrow> nat \<Rightarrow> bool) \<Rightarrow> nat \<Rightarrow> nat \<Rightarrow> nat \<Rightarrow> nat" where
  "merge_start lt a m b =
     (let mid = (a + b) div 2; n = mid + m; p = n - 1 in
      if m > mid then bsearch (\<lambda>c. \<not> lt (p - c) c) (n - b) mid else bsearch (\<lambda>c. \<not> lt (p - c) c) a m)"

function symMerge :: "(nat \<Rightarrow> nat \<Rightarrow> bool) \<Rightarrow> nat \<Rightarrow> nat \<Rightarrow> nat \<Rightarrow> 'a list \<Rightarrow> 'a list" where
  "symMerge lt a m b xs =
     (if m - a = 1 then
        (let i = bsearch (\<lambda>h. lt h a) m b in fold (\<lambda>k. swap k (k + 1)) [a..<i - 1] xs)
      else if b - m = 1 then
        (let i = bsearch (\<lambda>h. \<not> lt m h) a m in fold (\<lambda>k. swap k (k - 1)) (rev [i + 1..<m + 1]) xs)
      else
        (let mid = (a + b) div 2; start = merge_start lt a m b; fin = mid + m - start;
             xs1 = (if start < m \<and> m < fin then rotate_blocks start m fin xs else xs);
             xs2 = (if a < start \<and> start < mid then symMerge lt a start mid xs1 else xs1) in
         if mid < fin \<and> fin < b then symMerge lt mid fin b xs2 else xs2))"
  by auto
termination
proof (relation "measure (\<lambda>(lt, a, m, b, xs). b - a)", goal_cases)
  case (2 lt a m b xs mid start fin)
  then have "a < mid" "mid = (a + b) div 2"
    by linarith+
  then show ?case
    by simp
next
  case (3 lt a m b xs mid start fin)
  then have "mid < b" "mid = (a + b) div 2" "mid + 1 < b"
    by linarith+
  then show ?case
    by simp
qed simp

declare symMerge.simps [simp del]

function sort_blocks :: "(nat \<Rightarrow> nat \<Rightarrow> bool) \<Rightarrow> nat \<Rightarrow> nat \<Rightarrow> 'a list \<Rightarrow> 'a list" where
  "sort_blocks lt a n xs =
     (if a + 20 \<le> n then sort_blocks lt (a + 20) n (insertionSort lt a (a + 20) xs) else insertionSort lt a n xs)"
  by auto
termination by (relation "measure (\<lambda>(lt, a, n, xs). n - a)") auto

function merge_pass :: "(nat \<Rightarrow> nat \<Rightarrow> bool) \<Rightarrow> nat \<Rightarrow> nat \<Rightarrow> nat \<Rightarrow> 'a list \<Rightarrow> 'a list" where
  "merge_pass lt blockSize a n xs =
     (if 0 < blockSize \<and> a + 2 * blockSize \<le> n
      then merge_pass lt blockSize (a + 2 * blockSize) n (symMerge lt a (a + blockSize) (a + 2 * blockSize) xs)
      else if a + blockSize < n then symMerge lt a (a + blockSize) n xs else xs)"
  by auto
termination by (relation "measure (\<lambda>(lt, blockSize, a, n, xs). n - a)") auto

function merge_blocks :: "(nat \<Rightarrow> nat \<Rightarrow> bool) \<Rightarrow> nat \<Rightarrow> nat \<Rightarrow> 'a list \<Rightarrow> 'a list" where
  "merge_blocks lt blockSize n xs =
     (if 0 < blockSize \<and> blockSize < n then merge_blocks lt (2 * blockSize) n (merge_pass lt blockSize 0 n xs) else xs)"
  by auto
termination by (relation "measure (\<lambda>(lt, blockSize, n, xs). n - blockSize)") auto

declare sort_blocks.simps [simp del] merge_pass.simps [simp del] merge_blocks.simps [simp del]

definition SliceStable :: "(nat \<Rightarrow> nat \<Rightarrow> bool) \<Rightarrow> 'a list \<Rightarrow> 'a list" where
  "SliceStable lt xs = merge_blocks lt 20 (length xs) (sort_blocks lt 0 (length xs) xs)"

section \<open>Comparing indices reverses\<close>

abbreviation index_greater :: "nat \<Rightarrow> nat \<Rightarrow> bool" where
  "index_greater i j \<equiv> i > j"

lemma swap_neighbours: "length us = i \<Longrightarrow> swap (Suc i) i (us @ x # y # vs) = us @ y # x # vs"
  "length us = i \<Longrightarrow> swap i (Suc i) (us @ x # y # vs) = us @ y # x # vs"
  by (auto simp: swap_def list_update_append nth_append)

lemma sift_down_front: "sift_down index_greater (length us) (length us + length ys) (us @ ys @ x # vs) = us @ x # ys @ vs"
proof (induction ys arbitrary: vs rule: rev_induct)
  case Nil
  then show ?case
    by (simp add: sift_down.simps)
next
  case (snoc y ys)
  have "swap (Suc (length us + length ys)) (length us + length ys) (us @ (ys @ [y]) @ x # vs) = us @ ys @ x # y # vs"
    using swap_neighbours(1) [of "us @ ys" "length us + length ys" y x vs] by simp
  then show ?case
    using snoc [of "y # vs"] by (subst sift_down.simps) simp
qed

lemma insertionSort_rev: "insertionSort index_greater (length us) (length us + length ys) (us @ ys @ vs) = us @ rev ys @ vs"
proof (induction ys arbitrary: vs rule: rev_induct)
  case Nil
  then show ?case
    by (simp add: insertionSort_def)
next
  case (snoc y ys)
  show ?case
  proof (cases "ys = []")
    case True
    then show ?thesis
      by (simp add: insertionSort_def)
  next
    case False
    have "fold (sift_down index_greater (length us)) [length us + 1..<length us + length (ys @ [y])] (us @ (ys @ [y]) @ vs) =
        sift_down index_greater (length us) (length us + length ys) (us @ rev ys @ y # vs)"
      using snoc [of "y # vs"] False by (simp add: insertionSort_def) (cases ys; simp)
    then show ?thesis
      using sift_down_front [of us "rev ys" y vs] by (simp add: insertionSort_def)
  qed
qed

lemma mid_between: "i < j \<Longrightarrow> i \<le> (i + j) div 2 \<and> (i + j) div 2 < (j :: nat)"
  by auto

lemma bsearch_all:
  assumes "\<And>h. i \<le> h \<Longrightarrow> h < j \<Longrightarrow> right h" and "i \<le> j"
  shows "bsearch right i j = j"
  using assms
proof (induction "j - i" arbitrary: i rule: less_induct)
  case less
  show ?case
  proof (cases "i < j")
    case True
    note mid = mid_between [OF True]
    have "bsearch right ((i + j) div 2 + 1) j = j"
      using mid less.prems by (intro less.hyps) auto
    then show ?thesis
      using True mid less.prems(1) by (subst bsearch.simps) (simp add: Let_def)
  qed (use less.prems in \<open>simp add: bsearch.simps\<close>)
qed

lemma bsearch_none:
  assumes "\<And>h. i \<le> h \<Longrightarrow> h < j \<Longrightarrow> \<not> right h"
  shows "bsearch right i j = i"
  using assms
proof (induction "j - i" arbitrary: j rule: less_induct)
  case less
  show ?case
  proof (cases "i < j")
    case True
    note mid = mid_between [OF True]
    have "bsearch right i ((i + j) div 2) = i"
      using mid less.prems by (intro less.hyps) auto
    then show ?thesis
      using True mid less.prems by (subst bsearch.simps) (simp add: Let_def)
  qed (simp add: bsearch.simps)
qed

lemma move_right: "fold (\<lambda>k. swap k (k + 1)) [length us..<length us + length ys] (us @ x # ys @ vs) = us @ ys @ x # vs"
proof (induction ys arbitrary: us)
  case (Cons y ys)
  have "[length us..<length us + length (y # ys)] = length us # [length (us @ [y])..<length (us @ [y]) + length ys]"
    by (simp add: upt_conv_Cons del: upt_Suc)
  then show ?case
    using Cons [of "us @ [y]"] swap_neighbours(2) [of us "length us" x y "ys @ vs"] by simp
qed simp

lemma move_left: "fold (\<lambda>k. swap k (k - 1)) (rev [length us + 1..<length us + length ys + 1]) (us @ ys @ x # vs) = us @ x # ys @ vs"
proof (induction ys arbitrary: vs rule: rev_induct)
  case (snoc y ys)
  then show ?case
    using snoc [of "y # vs"] swap_neighbours(1) [of "us @ ys" "length us + length ys" y x vs] by simp
qed simp

lemma rotate_blocks_append:
  "rotate_blocks (length us) (length us + length A) (length us + length A + length B) (us @ A @ B @ vs) = us @ B @ A @ vs"
  by (simp add: rotate_blocks_def)

lemma merge_start_low:
  assumes "0 < la" "la \<le> (la + lb) div 2"
  shows "merge_start index_greater a (a + la) (a + la + lb) = a"
proof -
  have "\<not> a + la > (a + (a + la + lb)) div 2"
    using assms by auto
  moreover have "bsearch (\<lambda>c. \<not> (a + (a + la + lb)) div 2 + (a + la) - 1 - c > c) a (a + la) = a"
    using assms by (intro bsearch_none) auto
  ultimately show ?thesis
    by (simp add: merge_start_def Let_def)
qed

lemma merge_start_high:
  assumes "0 < lb" "(la + lb) div 2 < la"
  shows "merge_start index_greater a (a + la) (a + la + lb) = a + ((la + lb) div 2 - lb)"
proof -
  define h where "h = (la + lb) div 2"
  have mid: "(a + (a + la + lb)) div 2 = a + h" and h: "lb \<le> h" "h < la" and gt: "a + la > a + h"
    using assms by (auto simp: h_def)
  have n: "a + h + (a + la) - (a + la + lb) = a + (h - lb)"
    using h by simp
  have "bsearch (\<lambda>c. \<not> a + h + (a + la) - 1 - c > c) (a + (h - lb)) (a + h) = a + (h - lb)"
    using h by (intro bsearch_none) auto
  then show ?thesis
    unfolding merge_start_def Let_def mid n h_def [symmetric] by (simp only: gt if_True)
qed

lemma symMerge_swaps:
  "A \<noteq> [] \<Longrightarrow> B \<noteq> [] \<Longrightarrow>
   symMerge index_greater (length us) (length us + length A) (length us + length A + length B) (us @ A @ B @ vs) = us @ B @ A @ vs"
proof (induction "length A + length B" arbitrary: us A B vs rule: less_induct)
  case less
  let ?a = "length us" and ?m = "length us + length A" and ?b = "length us + length A + length B"
  define k where "k = (length A + length B) div 2"
  have mid: "(?a + ?b) div 2 = ?a + k"
    by (simp add: k_def)
  have pos: "0 < length A" "0 < length B"
    using less.prems by auto
  consider (one) "length A = 1" | (two) "length A \<noteq> 1" "length B = 1"
    | (low) "length A \<ge> 2" "length B \<ge> 2" "length A \<le> k" | (high) "length A \<ge> 2" "length B \<ge> 2" "k < length A"
    using pos by linarith
  then show ?case
  proof cases
    case one
    then obtain x where A: "A = [x]"
      by (cases A) auto
    have "bsearch (\<lambda>h. h > ?a) ?m ?b = ?b"
      by (rule bsearch_all) (auto simp: A)
    then show ?thesis
      using move_right [of us B x vs] by (subst symMerge.simps) (simp add: A Let_def)
  next
    case two
    then obtain x where B: "B = [x]"
      by (cases B) auto
    have "bsearch (\<lambda>h. \<not> ?m > h) ?a ?m = ?a"
      by (rule bsearch_none) auto
    then show ?thesis
      using two move_left [of us A x vs] by (subst symMerge.simps) (simp add: B Let_def)
  next
    case low
    define B1 B2 where "B1 = take k B" and "B2 = drop k B"
    have B: "B = B1 @ B2" "length B1 = k" "length B2 = length B - k"
      using low by (auto simp: B1_def B2_def k_def)
    have rot: "rotate_blocks ?a ?m (?a + k + length A) (us @ A @ B @ vs) = us @ B1 @ A @ B2 @ vs"
    proof -
      have "?a + k + length A = ?a + length A + length B1"
        using B by simp
      then show ?thesis
        using rotate_blocks_append [of us A B1 "B2 @ vs"] B(1) by (simp only: append_assoc)
    qed
    have step: "symMerge index_greater ?a ?m ?b (us @ A @ B @ vs) =
        (if ?a + k + length A < ?b then symMerge index_greater (?a + k) (?a + k + length A) ?b (us @ B1 @ A @ B2 @ vs)
         else us @ B1 @ A @ B2 @ vs)"
    proof -
      have ms: "merge_start index_greater ?a ?m ?b = ?a"
        using merge_start_low [OF pos(1)] low(3) by (simp add: k_def)
      have fin: "?a + k + ?m - ?a = ?a + k + length A"
        by simp
      have c: "\<not> ?m - ?a = 1" "\<not> ?b - ?m = 1" "?a < ?m" "?m < ?a + k + length A" "?a + k < ?a + k + length A"
        using low pos by auto
      show ?thesis
        unfolding symMerge.simps [of _ ?a ?m ?b] Let_def mid ms fin rot by (simp only: c if_True if_False less_irrefl simp_thms rot)
    qed
    show ?thesis
    proof (cases "k < length B")
      case True
      then have "symMerge index_greater (length (us @ B1)) (length (us @ B1) + length A) (length (us @ B1) + length A + length B2)
          ((us @ B1) @ A @ B2 @ vs) = (us @ B1) @ B2 @ A @ vs"
        using low B(2,3) pos by (intro less.hyps) auto
      moreover have "length (us @ B1) = ?a + k" "?a + k + length A + length B2 = ?b" "?a + k + length A < ?b"
        using B(2,3) True by simp_all
      ultimately have "symMerge index_greater ?a ?m ?b (us @ A @ B @ vs) = us @ (B1 @ B2) @ A @ vs"
        unfolding step by (simp only: append_assoc if_True)
      then show ?thesis
        by (simp only: B(1))
    next
      case False
      then have "B1 = B" "B2 = []" "\<not> ?a + k + length A < ?b"
        by (auto simp: B1_def B2_def)
      then show ?thesis
        unfolding step by (simp only: if_False append_Nil)
    qed
  next
    case high
    define d where "d = k - length B"
    define A1 A2 where "A1 = take d A" and "A2 = drop d A"
    have A: "A = A1 @ A2" "length A1 = d" "length A2 = length A - d" "d < k" "k = d + length B"
      using high by (auto simp: A1_def A2_def d_def k_def)
    have rot: "rotate_blocks (?a + d) ?m ?b (us @ A @ B @ vs) = us @ A1 @ B @ A2 @ vs"
    proof -
      have "length (us @ A1) = ?a + d" "?a + d + length A2 = ?m"
        using A(2-5) high by simp_all
      then show ?thesis
        using rotate_blocks_append [of "us @ A1" A2 B vs] A(1) by (simp only: append_assoc)
    qed
    have step: "symMerge index_greater ?a ?m ?b (us @ A @ B @ vs) =
        (if 0 < d then symMerge index_greater ?a (?a + d) (?a + k) (us @ A1 @ B @ A2 @ vs) else us @ A1 @ B @ A2 @ vs)"
    proof -
      have ms: "merge_start index_greater ?a ?m ?b = ?a + d"
        using merge_start_high [OF pos(2)] high(3) by (simp add: k_def d_def)
      have fin: "?a + k + ?m - (?a + d) = ?b"
        using A(5) by simp
      have c: "\<not> ?m - ?a = 1" "\<not> ?b - ?m = 1" "?a + d < ?m" "?m < ?b" "?a + d < ?a + k" "?a < ?a + d \<longleftrightarrow> 0 < d"
        using high pos A(2-5) by auto
      show ?thesis
        unfolding symMerge.simps [of _ ?a ?m ?b] Let_def mid ms fin rot by (simp only: c if_True if_False less_irrefl simp_thms rot)
    qed
    show ?thesis
    proof (cases "0 < d")
      case True
      then have "symMerge index_greater ?a (?a + length A1) (?a + length A1 + length B) (us @ A1 @ B @ A2 @ vs) = us @ B @ A1 @ A2 @ vs"
        using high A(2-5) pos by (intro less.hyps) auto
      moreover have "?a + length A1 = ?a + d" "?a + d + length B = ?a + k"
        using A(2,5) by simp_all
      ultimately have "symMerge index_greater ?a ?m ?b (us @ A @ B @ vs) = us @ B @ (A1 @ A2) @ vs"
        unfolding step using True by (simp only: append_assoc if_True)
      then show ?thesis
        by (simp only: A(1))
    next
      case False
      then have "A1 = []" "A2 = A"
        by (auto simp: A1_def A2_def)
      then show ?thesis
        unfolding step using False by (simp only: if_False append_Nil)
    qed
  qed
qed

text \<open>A list whose blocks of \<open>B\<close> elements are reversed, each on its own.\<close>

function rev_blocks :: "nat \<Rightarrow> 'a list \<Rightarrow> 'a list" where
  "rev_blocks B xs = (if B = 0 \<or> length xs \<le> B then rev xs else rev (take B xs) @ rev_blocks B (drop B xs))"
  by auto
termination by (relation "measure (\<lambda>(B, xs). length xs)") auto

declare rev_blocks.simps [simp del]

lemma rev_blocks_Nil: "rev_blocks B [] = []"
  by (simp add: rev_blocks.simps)

lemma rev_blocks_short: "length ys \<le> B \<Longrightarrow> rev_blocks B ys = rev ys"
  by (simp add: rev_blocks.simps)

lemma rev_blocks_append: "0 < B \<Longrightarrow> length ys = B \<Longrightarrow> rev_blocks B (ys @ zs) = rev ys @ rev_blocks B zs"
  by (cases "zs = []") (simp_all add: rev_blocks_Nil rev_blocks_short rev_blocks.simps [of B "ys @ zs"])

lemma sort_blocks_rev: "sort_blocks index_greater (length us) (length us + length ys) (us @ ys) = us @ rev_blocks 20 ys"
proof (induction "length ys" arbitrary: us ys rule: less_induct)
  case less
  show ?case
  proof (cases "20 \<le> length ys")
    case True
    define y1 y2 where "y1 = take 20 ys" and "y2 = drop 20 ys"
    have ys: "ys = y1 @ y2" "length y1 = 20" "length y2 < length ys"
      using True by (auto simp: y1_def y2_def)
    have "insertionSort index_greater (length us) (length us + 20) (us @ ys) = (us @ rev y1) @ y2"
      using insertionSort_rev [of us y1 y2] ys(1,2) by simp
    then have "sort_blocks index_greater (length us) (length us + length ys) (us @ ys) =
        sort_blocks index_greater (length (us @ rev y1)) (length (us @ rev y1) + length y2) ((us @ rev y1) @ y2)"
      using True ys(1,2) by (subst sort_blocks.simps) (simp add: add.assoc)
    also have "\<dots> = (us @ rev y1) @ rev_blocks 20 y2"
      by (rule less.hyps [OF ys(3)])
    finally show ?thesis
      using rev_blocks_append [of 20 y1 y2] ys(1,2) by simp
  next
    case False
    then show ?thesis
      using insertionSort_rev [of us ys "[]"] by (subst sort_blocks.simps) (simp add: rev_blocks_short)
  qed
qed

lemma merge_pass_rev:
  "0 < B \<Longrightarrow> merge_pass index_greater B (length us) (length us + length ys) (us @ rev_blocks B ys) = us @ rev_blocks (2 * B) ys"
proof (induction "length ys" arbitrary: us ys rule: less_induct)
  case less
  note B = \<open>0 < B\<close>
  consider (pair) "2 * B \<le> length ys" | (odd) "B < length ys" "length ys < 2 * B" | (short) "length ys \<le> B"
    by linarith
  then show ?case
  proof cases
    case pair
    define y1 y2 y3 where "y1 = take B ys" and "y2 = take B (drop B ys)" and "y3 = drop (2 * B) ys"
    have "ys = y1 @ y2 @ y3"
      unfolding y1_def y2_def y3_def mult_2 drop_drop [symmetric] by (simp only: append_take_drop_id)
    then have ys: "ys = y1 @ y2 @ y3" "length y1 = B" "length y2 = B" "length y3 < length ys"
      using pair B by (auto simp: y1_def y2_def y3_def)
    have "symMerge index_greater (length us) (length us + B) (length us + 2 * B) (us @ rev y1 @ rev y2 @ rev_blocks B y3) =
        us @ rev y2 @ rev y1 @ rev_blocks B y3"
    proof -
      have "y1 \<noteq> []" "y2 \<noteq> []"
        using ys(2,3) B by auto
      then show ?thesis
        using symMerge_swaps [of "rev y1" "rev y2" us "rev_blocks B y3"] ys(2,3) by (simp add: mult_2 add.assoc)
    qed
    moreover have "rev_blocks B ys = rev y1 @ rev y2 @ rev_blocks B y3"
      unfolding ys(1) using B ys(2,3) by (simp add: rev_blocks_append)
    ultimately have "merge_pass index_greater B (length us) (length us + length ys) (us @ rev_blocks B ys) =
        merge_pass index_greater B (length us + 2 * B) (length us + length ys) (us @ rev y2 @ rev y1 @ rev_blocks B y3)"
      using pair B by (subst merge_pass.simps) simp
    also have "\<dots> = merge_pass index_greater B (length (us @ rev y2 @ rev y1)) (length (us @ rev y2 @ rev y1) + length y3)
        ((us @ rev y2 @ rev y1) @ rev_blocks B y3)"
      using ys(1-3) by (simp add: mult_2 add.assoc)
    also have "\<dots> = (us @ rev y2 @ rev y1) @ rev_blocks (2 * B) y3"
      by (rule less.hyps [OF ys(4) B])
    also have "rev y2 @ rev y1 = rev (y1 @ y2)"
      by simp
    finally show ?thesis
      using rev_blocks_append [of "2 * B" "y1 @ y2" y3] B ys(1-3) by simp
  next
    case odd
    define y1 y2 where "y1 = take B ys" and "y2 = drop B ys"
    have ys: "ys = y1 @ y2" "length y1 = B" "length y2 \<le> B" "y1 \<noteq> []" "y2 \<noteq> []"
      using odd B by (auto simp: y1_def y2_def)
    have "rev_blocks B ys = rev y1 @ rev y2"
      unfolding ys(1) using B ys(2,3) by (simp add: rev_blocks_append rev_blocks_short)
    then have "merge_pass index_greater B (length us) (length us + length ys) (us @ rev_blocks B ys) =
        symMerge index_greater (length us) (length us + length (rev y1)) (length us + length (rev y1) + length (rev y2)) (us @ rev y1 @ rev y2 @ [])"
      using odd B ys(1,2) by (subst merge_pass.simps) (simp add: add.assoc)
    also have "\<dots> = us @ rev y2 @ rev y1 @ []"
      using ys(4,5) by (intro symMerge_swaps) auto
    finally show ?thesis
      using odd ys(1) by (simp add: rev_blocks_short)
  next
    case short
    then show ?thesis
      using B by (subst merge_pass.simps) (simp add: rev_blocks_short)
  qed
qed

lemma merge_pass_whole: "0 < B \<Longrightarrow> merge_pass index_greater B 0 (length xs) (rev_blocks B xs) = rev_blocks (2 * B) xs"
  using merge_pass_rev [of B "[]" xs] by simp

lemma merge_blocks_rev: "0 < B \<Longrightarrow> merge_blocks index_greater B (length xs) (rev_blocks B xs) = rev xs"
proof (induction "length xs - B" arbitrary: B rule: less_induct)
  case less
  show ?case
  proof (cases "B < length xs")
    case True
    then have "merge_blocks index_greater (2 * B) (length xs) (rev_blocks (2 * B) xs) = rev xs"
      using less.prems by (intro less.hyps) auto
    then show ?thesis
      using True less.prems by (subst merge_blocks.simps) (simp add: merge_pass_whole)
  next
    case False
    then show ?thesis
      by (subst merge_blocks.simps) (simp add: rev_blocks_short)
  qed
qed

lemma SliceStable_rev: "SliceStable index_greater xs = rev xs"
  using sort_blocks_rev [of "[]" xs] merge_blocks_rev [of 20 xs] by (simp add: SliceStable_def)

end
