(* ===== verification/Journal.thy ===== *)
theory Journal
  imports LogEntry SliceStable "HOL-Library.Word"
begin

text \<open>
  The journal of \<^verbatim>\<open>osbase/logtree\<close>: \<^verbatim>\<open>journal.go\<close> (scans and filters), \<^verbatim>\<open>journal_entry.go\<close> (appending,
  unlinking, quotas) and \<^verbatim>\<open>journal_subscriber.go\<close> (subscribers). Entries live on a heap and are linked
  by pointers, as in the sources: a pointer is an address or \<open>None\<close> for \<^verbatim>\<open>nil\<close>. The sequence numbers
  are words of 64 bits.

  A loop over pointers need not end on an arbitrary heap, so the scans are partial functions into
  \<open>option\<close>; on the journals that the operations build they return (\<open>scan_from_prevs\<close>). The lemmas show that a
  journal represents the sequence of its entries, with at most 8192 of every origin, and that the
  scans return the newest entries that pass the filters, in the order they were logged.

  The channel of a subscriber is its buffered contents with its capacity; closing \<^verbatim>\<open>doneC\<close> and
  \<^verbatim>\<open>dataC\<close> are flags.
\<close>

type_synonym addr = nat

record entry =
  en_origin :: dn
  en_leveled :: "leveled_payload option"
  en_raw :: "line option"
  en_prevGlobal :: "addr option"
  en_nextGlobal :: "addr option"
  en_prevLocal :: "addr option"
  en_nextLocal :: "addr option"
  en_seqLocal :: "64 word"

definition external :: "entry \<Rightarrow> log_entry" where
  "external e = \<lparr>le_Leveled = en_leveled e, le_Raw = en_raw e, le_DN = en_origin e\<rparr>"

record quota =
  qt_origin :: dn
  qt_max :: "64 word"

type_synonym entry_filter = "entry \<Rightarrow> bool"

record subscriber =
  sub_filters :: "entry_filter list"
  sub_dataC :: "log_entry list"
  sub_cap :: nat
  sub_dataClosed :: bool
  sub_done :: bool
  sub_missed :: "64 word"

record journal =
  jn_heap :: "addr \<Rightarrow> entry"
  jn_next :: addr
  jn_tail :: "addr option"
  jn_head :: "addr option"
  jn_tails :: "dn \<Rightarrow> addr option"
  jn_heads :: "dn \<Rightarrow> addr option"
  jn_quota :: "dn \<rightharpoonup> quota"
  jn_subscribers :: "subscriber list"

definition no_entry :: entry where
  "no_entry = \<lparr>en_origin = [], en_leveled = None, en_raw = None, en_prevGlobal = None, en_nextGlobal = None,
     en_prevLocal = None, en_nextLocal = None, en_seqLocal = 0\<rparr>"

definition newJournal :: journal where
  "newJournal =
     \<lparr>jn_heap = (\<lambda>_. no_entry), jn_next = 0, jn_tail = None, jn_head = None, jn_tails = (\<lambda>_. None), jn_heads = (\<lambda>_. None),
      jn_quota = Map.empty, jn_subscribers = []\<rparr>"

section \<open>Filters\<close>

definition filterAll :: entry_filter where
  "filterAll = (\<lambda>_. True)"

definition filterExact :: "dn \<Rightarrow> entry_filter" where
  "filterExact dn = (\<lambda>e. en_origin e = dn)"

definition filterSubtree :: "dn \<Rightarrow> entry_filter" where
  "filterSubtree root =
     (if root = [] then filterAll
      else
        (let rootParts = split_on (CHR ''.'') root in
         (\<lambda>e. let parts = split_on (CHR ''.'') (en_origin e) in
              if length parts < length rootParts then False
              else list_all (\<lambda>(i, p). parts ! i = p) (enumerate 0 rootParts))))"

definition filterSeverity :: "severity \<Rightarrow> entry_filter" where
  "filterSeverity at_least = (\<lambda>e. case en_leveled e of None \<Rightarrow> False | Some p \<Rightarrow> AtLeast (lp_severity p) at_least)"

definition filterOnlyRaw :: entry_filter where
  "filterOnlyRaw e \<longleftrightarrow> en_raw e \<noteq> None"

definition filterOnlyLeveled :: entry_filter where
  "filterOnlyLeveled e \<longleftrightarrow> en_leveled e \<noteq> None"

section \<open>Scanning\<close>

definition BacklogAllAvailable :: int where
  "BacklogAllAvailable = - 1"

text \<open>The loop of both scans, along one of the two backward links.\<close>

partial_function (option) scan_from ::
  "(addr \<Rightarrow> entry) \<Rightarrow> (entry \<Rightarrow> addr option) \<Rightarrow> int \<Rightarrow> entry_filter list \<Rightarrow> addr option \<Rightarrow> addr list \<Rightarrow> addr list option" where
  "scan_from heap prev cnt filters cur res =
     (case cur of
        None \<Rightarrow> Some res
      | Some a \<Rightarrow>
          (let res1 = (if list_all (\<lambda>f. f (heap a)) filters then res @ [a] else res) in
           if cnt \<noteq> BacklogAllAvailable \<and> int (length res1) \<ge> cnt then Some res1
           else scan_from heap prev cnt filters (prev (heap a)) res1))"

definition scanEntries :: "journal \<Rightarrow> int \<Rightarrow> entry_filter list \<Rightarrow> entry list option" where
  "scanEntries j cnt filters =
     map_option (\<lambda>res. map (jn_heap j) (SliceStable index_greater res))
       (scan_from (jn_heap j) en_prevGlobal cnt filters (jn_tail j) [])"

definition getEntries :: "journal \<Rightarrow> int \<Rightarrow> dn \<Rightarrow> entry_filter list \<Rightarrow> entry list option" where
  "getEntries j cnt exact filters =
     map_option (\<lambda>res. map (jn_heap j) (SliceStable index_greater res))
       (scan_from (jn_heap j) en_prevLocal cnt filters (jn_tails j exact) [])"

section \<open>Appending\<close>

definition modify :: "addr \<Rightarrow> (entry \<Rightarrow> entry) \<Rightarrow> journal \<Rightarrow> journal" where
  "modify a f j = j\<lparr>jn_heap := (jn_heap j)(a := f (jn_heap j a))\<rparr>"

definition modify_opt :: "addr option \<Rightarrow> (entry \<Rightarrow> entry) \<Rightarrow> journal \<Rightarrow> journal" where
  "modify_opt p f j = (case p of None \<Rightarrow> j | Some a \<Rightarrow> modify a f j)"

definition unlink_global :: "addr \<Rightarrow> journal \<Rightarrow> journal" where
  "unlink_global e j =
     (let prv = en_prevGlobal (jn_heap j e); nxt = en_nextGlobal (jn_heap j e);
          j1 = modify_opt prv (\<lambda>x. x\<lparr>en_nextGlobal := nxt\<rparr>) j;
          j2 = modify_opt nxt (\<lambda>x. x\<lparr>en_prevGlobal := prv\<rparr>) j1;
          j3 = (if jn_head j2 = Some e then j2\<lparr>jn_head := nxt\<rparr> else j2) in
      if jn_tail j3 = Some e then j3\<lparr>jn_tail := prv\<rparr> else j3)"

definition unlink_local :: "addr \<Rightarrow> journal \<Rightarrow> journal" where
  "unlink_local e j =
     (let prv = en_prevLocal (jn_heap j e); nxt = en_nextLocal (jn_heap j e); dn = en_origin (jn_heap j e);
          j1 = modify_opt prv (\<lambda>x. x\<lparr>en_nextLocal := nxt\<rparr>) j;
          j2 = modify_opt nxt (\<lambda>x. x\<lparr>en_prevLocal := prv\<rparr>) j1;
          j3 = (if jn_heads j2 dn = Some e then j2\<lparr>jn_heads := (jn_heads j2)(dn := nxt)\<rparr> else j2) in
      if jn_tails j3 dn = Some e then j3\<lparr>jn_tails := (jn_tails j3)(dn := prv)\<rparr> else j3)"

definition unlink :: "addr \<Rightarrow> journal \<Rightarrow> journal" where
  "unlink e j = unlink_local e (unlink_global e j)"

text \<open>Popping entries off the head of a local list.\<close>

fun pop_heads :: "nat \<Rightarrow> addr option \<Rightarrow> journal \<Rightarrow> journal" where
  "pop_heads left None j = j"
| "pop_heads 0 (Some el) j = j"
| "pop_heads (Suc left) (Some el) j = (let cur = en_nextLocal (jn_heap j el) in pop_heads left cur (unlink el j))"

definition apply_quota :: "dn \<Rightarrow> journal \<Rightarrow> journal" where
  "apply_quota dn j =
     (let mx = qt_max (the (jn_quota j dn));
          cnt = en_seqLocal (jn_heap j (the (jn_tails j dn))) - en_seqLocal (jn_heap j (the (jn_heads j dn))) + 1 in
      if cnt > mx then pop_heads (unat (cnt - mx)) (jn_heads j dn) j else j)"

definition link_global :: "addr \<Rightarrow> journal \<Rightarrow> journal" where
  "link_global a j =
     (let tl = jn_tail j;
          j1 = modify a (\<lambda>e. e\<lparr>en_nextGlobal := None, en_prevGlobal := tl\<rparr>) j;
          j2 = modify_opt tl (\<lambda>e. e\<lparr>en_nextGlobal := Some a\<rparr>) j1;
          j3 = j2\<lparr>jn_tail := Some a\<rparr> in
      if jn_head j3 = None then j3\<lparr>jn_head := Some a\<rparr> else j3)"

definition ensure_quota :: "dn \<Rightarrow> journal \<Rightarrow> journal" where
  "ensure_quota dn j =
     (if jn_quota j dn = None then j\<lparr>jn_quota := (jn_quota j)(dn \<mapsto> \<lparr>qt_origin = dn, qt_max = 8192\<rparr>)\<rparr> else j)"

definition link_local :: "addr \<Rightarrow> dn \<Rightarrow> journal \<Rightarrow> journal" where
  "link_local a dn j =
     (let tl = jn_tails j dn;
          seq = (case tl of None \<Rightarrow> 0 | Some t \<Rightarrow> en_seqLocal (jn_heap j t) + 1);
          j1 = modify a (\<lambda>e. e\<lparr>en_nextLocal := None, en_prevLocal := tl, en_seqLocal := seq\<rparr>) j;
          j2 = modify_opt tl (\<lambda>e. e\<lparr>en_nextLocal := Some a\<rparr>) j1;
          j3 = j2\<lparr>jn_tails := (jn_tails j2)(dn := Some a)\<rparr> in
      if jn_heads j3 dn = None then j3\<lparr>jn_heads := (jn_heads j3)(dn := Some a)\<rparr> else j3)"

text \<open>Appending an entry that was just allocated; the result has its address.\<close>

definition journal_append :: "entry \<Rightarrow> journal \<Rightarrow> addr \<times> journal" where
  "journal_append e j =
     (let a = jn_next j; dn = en_origin e;
          j0 = j\<lparr>jn_next := Suc a, jn_heap := (jn_heap j)(a := e)\<rparr> in
      (a, apply_quota dn (link_local a dn (ensure_quota dn (link_global a j0)))))"

section \<open>Subscribers\<close>

definition subscribe :: "subscriber \<Rightarrow> journal \<Rightarrow> journal" where
  "subscribe sub j = j\<lparr>jn_subscribers := jn_subscribers j @ [sub]\<rparr>"

text \<open>Sending to a subscriber. The loop over the filters has no effect: its \<^verbatim>\<open>continue\<close> continues the
  loop over the filters, not the one over the subscribers.\<close>

definition notify_one :: "entry \<Rightarrow> subscriber \<Rightarrow> subscriber" where
  "notify_one e sub =
     fold (\<lambda>f sub. if \<not> f e then sub else sub) (sub_filters sub)
       (if length (sub_dataC sub) < sub_cap sub then sub\<lparr>sub_dataC := sub_dataC sub @ [external e]\<rparr>
        else sub\<lparr>sub_missed := sub_missed sub + 1\<rparr>)"

text \<open>The subscribers that remain, and those that are dropped with their channel closed.\<close>

definition notify :: "entry \<Rightarrow> journal \<Rightarrow> journal \<times> subscriber list" where
  "notify e j =
     (j\<lparr>jn_subscribers := map (notify_one e) (filter (\<lambda>sub. \<not> sub_done sub) (jn_subscribers j))\<rparr>,
      map (\<lambda>sub. sub\<lparr>sub_dataClosed := True\<rparr>) (filter sub_done (jn_subscribers j)))"

section \<open>Doubly linked lists\<close>

fun first :: "'a list \<Rightarrow> 'a option" where
  "first [] = None"
| "first (x # xs) = Some x"

fun next_in :: "'a list \<Rightarrow> 'a \<Rightarrow> 'a option" where
  "next_in [] x = None"
| "next_in [y] x = None"
| "next_in (y # z # zs) x = (if y = x then Some z else next_in (z # zs) x)"

lemma first_in: "first xs = Some x \<Longrightarrow> x \<in> set xs"
  by (cases xs) auto

lemma first_None_iff: "first xs = None \<longleftrightarrow> xs = []"
  by (cases xs) auto

lemma first_append: "first (xs @ ys) = (if xs = [] then first ys else first xs)"
  by (cases xs) auto

lemma next_in_notin: "x \<notin> set xs \<Longrightarrow> next_in xs x = None"
  by (induction xs x rule: next_in.induct) auto

lemma next_in_in: "next_in xs x = Some y \<Longrightarrow> x \<in> set xs \<and> y \<in> set xs"
  by (induction xs x rule: next_in.induct) (auto split: if_splits)

lemma next_in_split: "x \<notin> set us \<Longrightarrow> next_in (us @ x # vs) x = first vs"
proof (induction us)
  case Nil
  then show ?case
    by (cases vs) auto
next
  case (Cons u us)
  then show ?case
    by (cases us) auto
qed

lemma next_in_neq: "distinct xs \<Longrightarrow> next_in xs x = Some y \<Longrightarrow> x \<noteq> y"
  by (induction xs x rule: next_in.induct) (auto split: if_splits)

lemma next_in_rev:
  assumes "distinct xs"
  shows "next_in (rev xs) y = Some x \<longleftrightarrow> next_in xs x = Some y"
proof -
  have one: "next_in xs x = Some y" if "distinct xs" "next_in (rev xs) y = Some x" for xs :: "'a list" and x y
  proof -
    have "y \<in> set xs"
      using next_in_in [OF that(2)] by simp
    then obtain us vs where xs: "xs = us @ y # vs"
      by (meson split_list)
    then have "first (rev us) = Some x"
      using that next_in_split [of y "rev vs" "rev us"] by simp
    then obtain ws where "us = ws @ [x]"
      by (cases us rule: rev_cases) auto
    then show ?thesis
      using that(1) xs next_in_split [of x ws "y # vs"] by auto
  qed
  show ?thesis
    using one [of xs y x] one [of "rev xs" x y] assms by auto
qed

lemma filter_neq: "e \<notin> set xs \<Longrightarrow> filter (\<lambda>y. y \<noteq> e) xs = xs"
  by (induction xs) auto

lemma next_in_remove:
  assumes "distinct xs" and "e \<in> set xs" and "x \<noteq> e"
  shows "next_in (filter (\<lambda>y. y \<noteq> e) xs) x = (if next_in xs x = Some e then next_in xs e else next_in xs x)"
proof -
  obtain us vs where xs: "xs = us @ e # vs"
    using assms(2) by (meson split_list)
  have e: "e \<notin> set us" "e \<notin> set vs"
    using assms(1) xs by auto
  have f: "filter (\<lambda>y. y \<noteq> e) xs = us @ vs"
    using e by (simp add: xs filter_neq)
  consider (at_front) "x \<in> set us" | (at_back) "x \<in> set vs" | (out) "x \<notin> set xs"
    using assms(3) xs by auto
  then show ?thesis
  proof cases
    case at_front
    then obtain u1 u2 where us: "us = u1 @ x # u2"
      by (meson split_list)
    have x: "x \<notin> set u1"
      using assms(1) xs us by auto
    have "next_in xs x = first (u2 @ e # vs)" "next_in (us @ vs) x = first (u2 @ vs)"
      using next_in_split [OF x] by (simp_all add: xs us)
    then show ?thesis
      using next_in_split [OF e(1), of vs] e us unfolding f by (cases u2) (auto simp: xs)
  next
    case at_back
    then obtain v1 v2 where vs: "vs = v1 @ x # v2"
      by (meson split_list)
    have x: "x \<notin> set (us @ e # v1)" "x \<notin> set (us @ v1)"
      using assms(1) xs vs by auto
    have "next_in xs x = first v2" "next_in (us @ vs) x = first v2"
      using next_in_split [OF x(1), of v2] next_in_split [OF x(2), of v2] by (simp_all add: xs vs)
    moreover have "first v2 \<noteq> Some e"
      using e vs first_in [of v2 e] by auto
    ultimately show ?thesis
      by (simp add: f)
  next
    case out
    then show ?thesis
      by (simp add: next_in_notin)
  qed
qed

lemma first_remove:
  "distinct xs \<Longrightarrow> first (filter (\<lambda>y. y \<noteq> e) xs) = (if first xs = Some e then next_in xs e else first xs)"
proof (induction xs)
  case (Cons x xs)
  then show ?case
    by (cases xs) (auto simp: filter_neq)
qed simp

lemma next_in_snoc:
  assumes "distinct xs" and "a \<notin> set xs"
  shows "next_in (xs @ [a]) x = (if first (rev xs) = Some x then Some a else next_in xs x)"
proof (cases "x \<in> set xs")
  case True
  then obtain us vs where xs: "xs = us @ x # vs"
    by (meson split_list)
  have x: "x \<notin> set us" "x \<notin> set vs"
    using assms(1) xs by auto
  have "next_in (us @ x # vs @ [a]) x = first (vs @ [a])" "next_in xs x = first vs"
    using next_in_split [OF x(1)] by (simp_all add: xs)
  moreover have "first (rev xs) = Some x \<longleftrightarrow> vs = []"
    using x by (cases vs rule: rev_cases) (auto simp: xs)
  ultimately show ?thesis
    by (cases vs) (auto simp: xs)
next
  case False
  then have "first (rev xs) \<noteq> Some x"
    using first_in [of "rev xs" x] by auto
  moreover have "next_in (xs @ [a]) x = None"
    using False next_in_split [of a xs "[]"] assms(2) by (cases "x = a") (auto simp: next_in_notin)
  ultimately show ?thesis
    using False by (simp add: next_in_notin)
qed

text \<open>The addresses \<open>xs\<close> form a list with the backward links \<open>pv\<close> and the forward links \<open>nx\<close>.\<close>

definition links :: "('h \<Rightarrow> 'a option) \<Rightarrow> ('h \<Rightarrow> 'a option) \<Rightarrow> ('a \<Rightarrow> 'h) \<Rightarrow> 'a list \<Rightarrow> bool" where
  "links pv nx heap xs \<longleftrightarrow> (\<forall>x \<in> set xs. nx (heap x) = next_in xs x \<and> pv (heap x) = next_in (rev xs) x)"

lemma links_cong: "links pv nx heap xs \<Longrightarrow> (\<And>x. x \<in> set xs \<Longrightarrow> nx (h x) = nx (heap x) \<and> pv (h x) = pv (heap x)) \<Longrightarrow> links pv nx h xs"
  by (simp add: links_def)

lemma links_remove:
  assumes "links pv nx heap xs" and "distinct xs" and "e \<in> set xs"
    and "\<And>x. x \<in> set xs \<Longrightarrow> x \<noteq> e \<Longrightarrow>
      nx (h x) = (if pv (heap e) = Some x then nx (heap e) else nx (heap x)) \<and>
      pv (h x) = (if nx (heap e) = Some x then pv (heap e) else pv (heap x))"
  shows "links pv nx h (filter (\<lambda>y. y \<noteq> e) xs)"
  unfolding links_def
proof
  fix x
  assume "x \<in> set (filter (\<lambda>y. y \<noteq> e) xs)"
  then have x: "x \<in> set xs" "x \<noteq> e"
    by auto
  have l: "nx (heap y) = next_in xs y" "pv (heap y) = next_in (rev xs) y" if "y \<in> set xs" for y
    using assms(1) that by (auto simp: links_def)
  have "nx (h x) = next_in (filter (\<lambda>y. y \<noteq> e) xs) x"
    using assms(2,3) x l(1) [OF x(1)] l [OF assms(3)] assms(4) [OF x] by (simp add: next_in_remove next_in_rev)
  moreover have "pv (h x) = next_in (filter (\<lambda>y. y \<noteq> e) (rev xs)) x"
    using assms(2,3) x l(2) [OF x(1)] l [OF assms(3)] assms(4) [OF x] next_in_rev [of "rev xs" e x]
    by (simp add: next_in_remove)
  ultimately show "nx (h x) = next_in (filter (\<lambda>y. y \<noteq> e) xs) x \<and> pv (h x) = next_in (rev (filter (\<lambda>y. y \<noteq> e) xs)) x"
    by (simp add: rev_filter)
qed

lemma links_snoc:
  assumes "links pv nx heap xs" and "distinct xs" and "a \<notin> set xs" and "nx (h a) = None" "pv (h a) = first (rev xs)"
    and "\<And>x. x \<in> set xs \<Longrightarrow> nx (h x) = (if first (rev xs) = Some x then Some a else nx (heap x)) \<and> pv (h x) = pv (heap x)"
  shows "links pv nx h (xs @ [a])"
proof -
  have "next_in (a # rev xs) x = (if x = a then first (rev xs) else next_in (rev xs) x)" for x
    using assms(3) by (cases "rev xs") auto
  moreover have "next_in (xs @ [a]) a = None"
    using next_in_split [of a xs "[]"] assms(3) by simp
  ultimately show ?thesis
    using assms by (auto simp: links_def next_in_snoc)
qed

section \<open>What a journal represents\<close>

text \<open>What of an entry no operation changes.\<close>

definition same_data :: "entry \<Rightarrow> entry \<Rightarrow> bool" where
  "same_data e e' \<longleftrightarrow> en_origin e = en_origin e' \<and> en_leveled e = en_leveled e' \<and> en_raw e = en_raw e'"

abbreviation locals :: "(addr \<Rightarrow> entry) \<Rightarrow> dn \<Rightarrow> addr list \<Rightarrow> addr list" where
  "locals heap dn gs \<equiv> filter (\<lambda>a. en_origin (heap a) = dn) gs"

definition seqs :: "(addr \<Rightarrow> entry) \<Rightarrow> addr list \<Rightarrow> bool" where
  "seqs heap ls \<longleftrightarrow> (\<forall>i < length ls. en_seqLocal (heap (ls ! i)) = en_seqLocal (heap (ls ! 0)) + of_nat i)"

definition local_rep :: "dn \<Rightarrow> addr list \<Rightarrow> journal \<Rightarrow> bool" where
  "local_rep dn ls j \<longleftrightarrow> links en_prevLocal en_nextLocal (jn_heap j) ls \<and> jn_heads j dn = first ls \<and> jn_tails j dn = first (rev ls) \<and> seqs (jn_heap j) ls"

definition journal_rep :: "addr list \<Rightarrow> journal \<Rightarrow> bool" where
  "journal_rep gs j \<longleftrightarrow>
     distinct gs \<and> (\<forall>a \<in> set gs. a < jn_next j) \<and> links en_prevGlobal en_nextGlobal (jn_heap j) gs \<and>
     jn_head j = first gs \<and> jn_tail j = first (rev gs) \<and>
     (\<forall>dn. local_rep dn (locals (jn_heap j) dn gs) j) \<and> (\<forall>dn q. jn_quota j dn = Some q \<longrightarrow> qt_max q = 8192)"

lemma journal_repD:
  assumes "journal_rep gs j"
  shows "distinct gs" "\<And>a. a \<in> set gs \<Longrightarrow> a < jn_next j" "links en_prevGlobal en_nextGlobal (jn_heap j) gs"
    "jn_head j = first gs" "jn_tail j = first (rev gs)" "\<And>dn. local_rep dn (locals (jn_heap j) dn gs) j"
    "\<And>dn q. jn_quota j dn = Some q \<Longrightarrow> qt_max q = 8192"
  using assms by (simp_all add: journal_rep_def)

lemma journal_rep_new: "journal_rep [] newJournal"
  by (simp add: journal_rep_def newJournal_def links_def local_rep_def seqs_def)

subsection \<open>Unlinking\<close>

named_theorems unlink_simps "what unlinking does to the fields of a journal"

lemma unlink_global_fields [unlink_simps]:
  "en_nextGlobal (jn_heap (unlink_global e j) x) =
     (if en_prevGlobal (jn_heap j e) = Some x then en_nextGlobal (jn_heap j e) else en_nextGlobal (jn_heap j x))"
  "en_prevGlobal (jn_heap (unlink_global e j) x) =
     (if en_nextGlobal (jn_heap j e) = Some x then en_prevGlobal (jn_heap j e) else en_prevGlobal (jn_heap j x))"
  "en_nextLocal (jn_heap (unlink_global e j) x) = en_nextLocal (jn_heap j x)"
  "en_prevLocal (jn_heap (unlink_global e j) x) = en_prevLocal (jn_heap j x)"
  "en_seqLocal (jn_heap (unlink_global e j) x) = en_seqLocal (jn_heap j x)"
  "en_origin (jn_heap (unlink_global e j) x) = en_origin (jn_heap j x)"
  "en_leveled (jn_heap (unlink_global e j) x) = en_leveled (jn_heap j x)"
  "en_raw (jn_heap (unlink_global e j) x) = en_raw (jn_heap j x)"
  by (auto simp: unlink_global_def modify_opt_def modify_def Let_def split: option.splits)

lemma unlink_global_rest [unlink_simps]:
  "jn_head (unlink_global e j) = (if jn_head j = Some e then en_nextGlobal (jn_heap j e) else jn_head j)"
  "jn_tail (unlink_global e j) = (if jn_tail j = Some e then en_prevGlobal (jn_heap j e) else jn_tail j)"
  "jn_heads (unlink_global e j) = jn_heads j" "jn_tails (unlink_global e j) = jn_tails j"
  "jn_next (unlink_global e j) = jn_next j" "jn_quota (unlink_global e j) = jn_quota j"
  "jn_subscribers (unlink_global e j) = jn_subscribers j"
  by (auto simp: unlink_global_def modify_opt_def modify_def Let_def split: option.splits)

lemma unlink_local_fields [unlink_simps]:
  "en_nextLocal (jn_heap (unlink_local e j) x) =
     (if en_prevLocal (jn_heap j e) = Some x then en_nextLocal (jn_heap j e) else en_nextLocal (jn_heap j x))"
  "en_prevLocal (jn_heap (unlink_local e j) x) =
     (if en_nextLocal (jn_heap j e) = Some x then en_prevLocal (jn_heap j e) else en_prevLocal (jn_heap j x))"
  "en_nextGlobal (jn_heap (unlink_local e j) x) = en_nextGlobal (jn_heap j x)"
  "en_prevGlobal (jn_heap (unlink_local e j) x) = en_prevGlobal (jn_heap j x)"
  "en_seqLocal (jn_heap (unlink_local e j) x) = en_seqLocal (jn_heap j x)"
  "en_origin (jn_heap (unlink_local e j) x) = en_origin (jn_heap j x)"
  "en_leveled (jn_heap (unlink_local e j) x) = en_leveled (jn_heap j x)"
  "en_raw (jn_heap (unlink_local e j) x) = en_raw (jn_heap j x)"
  by (auto simp: unlink_local_def modify_opt_def modify_def Let_def split: option.splits)

lemma unlink_local_rest [unlink_simps]:
  "jn_heads (unlink_local e j) dn =
     (if dn = en_origin (jn_heap j e) \<and> jn_heads j dn = Some e then en_nextLocal (jn_heap j e) else jn_heads j dn)"
  "jn_tails (unlink_local e j) dn =
     (if dn = en_origin (jn_heap j e) \<and> jn_tails j dn = Some e then en_prevLocal (jn_heap j e) else jn_tails j dn)"
  "jn_head (unlink_local e j) = jn_head j" "jn_tail (unlink_local e j) = jn_tail j"
  "jn_next (unlink_local e j) = jn_next j" "jn_quota (unlink_local e j) = jn_quota j"
  "jn_subscribers (unlink_local e j) = jn_subscribers j"
  by (auto simp: unlink_local_def modify_opt_def modify_def Let_def split: option.splits)

lemma locals_neighbours:
  assumes "links pv nx heap (locals h dn gs)" and "e \<in> set (locals h dn gs)" and "pv (heap e) = Some x \<or> nx (heap e) = Some x"
  shows "en_origin (h x) = dn"
  using assms next_in_in [of "locals h dn gs" e x] next_in_in [of "rev (locals h dn gs)" e x] by (auto simp: links_def)

lemma seqs_tl: "seqs heap (l # ls) \<Longrightarrow> seqs heap ls"
proof -
  assume s: "seqs heap (l # ls)"
  have "en_seqLocal (heap (ls ! i)) = en_seqLocal (heap l) + of_nat (Suc i)" if "i < length ls" for i
    using s that by (force simp: seqs_def dest: spec [of _ "Suc i"])
  note nth = this
  show ?thesis
    unfolding seqs_def
  proof (intro allI impI)
    fix i
    assume i: "i < length ls"
    then show "en_seqLocal (heap (ls ! i)) = en_seqLocal (heap (ls ! 0)) + of_nat i"
      using nth [OF i] nth [of 0] by (cases ls) auto
  qed
qed

lemma unlink_rep:
  assumes "journal_rep gs j" and "locals (jn_heap j) dn gs = e # ls"
  shows "journal_rep (filter (\<lambda>y. y \<noteq> e) gs) (unlink e j)"
proof -
  note d = journal_repD [OF assms(1)]
  have e: "e \<in> set gs" "en_origin (jn_heap j e) = dn"
    using arg_cong [OF assms(2), of set] by auto
  have glob: "links en_prevGlobal en_nextGlobal (jn_heap (unlink e j)) (filter (\<lambda>y. y \<noteq> e) gs)"
    by (rule links_remove [OF d(3,1) e(1)]) (simp_all add: unlink_def unlink_simps)
  have gne: "en_nextGlobal (jn_heap j e) = next_in gs e" "en_prevGlobal (jn_heap j e) = next_in (rev gs) e"
    using d(3) e(1) by (auto simp: links_def)
  have ends: "jn_head (unlink e j) = first (filter (\<lambda>y. y \<noteq> e) gs)" "jn_tail (unlink e j) = first (rev (filter (\<lambda>y. y \<noteq> e) gs))"
    using d(1,4,5) gne first_remove [of gs e] first_remove [of "rev gs" e]
    by (simp_all add: unlink_def unlink_simps rev_filter)
  have loc: "local_rep dn' (locals (jn_heap (unlink e j)) dn' (filter (\<lambda>y. y \<noteq> e) gs)) (unlink e j)" for dn'
  proof -
    have ls: "locals (jn_heap (unlink e j)) dn' (filter (\<lambda>y. y \<noteq> e) gs) = filter (\<lambda>y. y \<noteq> e) (locals (jn_heap j) dn' gs)"
      by (simp add: unlink_def unlink_simps conj_commute)
    note r = d(6) [of dn', unfolded local_rep_def]
    show ?thesis
    proof (cases "dn' = dn")
      case True
      have dist: "distinct (e # ls)"
        using d(1) assms(2) by (metis distinct_filter)
      have links: "links en_prevLocal en_nextLocal (jn_heap j) (e # ls)"
        using r assms(2) True by simp
      have "links en_prevLocal en_nextLocal (jn_heap (unlink e j)) (filter (\<lambda>y. y \<noteq> e) (e # ls))"
        by (rule links_remove [OF links dist]) (simp_all add: unlink_def unlink_simps)
      moreover have "filter (\<lambda>y. y \<noteq> e) (e # ls) = ls"
        using dist by (simp add: filter_neq)
      moreover have "en_nextLocal (jn_heap j e) = next_in (e # ls) e" "en_prevLocal (jn_heap j e) = next_in (rev (e # ls)) e"
        using links by (auto simp: links_def)
      ultimately show ?thesis
        using r assms(2) True dist first_remove [OF dist, of e] first_remove [of "rev (e # ls)" e] e(2) seqs_tl [of "jn_heap j" e ls]
        unfolding ls local_rep_def by (simp add: unlink_def unlink_simps seqs_def rev_filter filter_neq)
    next
      case False
      then have "filter (\<lambda>y. y \<noteq> e) (locals (jn_heap j) dn' gs) = locals (jn_heap j) dn' gs"
        using e(2) by (intro filter_neq) simp
      moreover have nb: "en_prevLocal (jn_heap j e) \<noteq> Some x \<and> en_nextLocal (jn_heap j e) \<noteq> Some x"
        if "x \<in> set (locals (jn_heap j) dn' gs)" for x
        using locals_neighbours [of en_prevLocal en_nextLocal "jn_heap j" "jn_heap j" dn gs e x] d(6) [of dn] that e False
        by (auto simp: local_rep_def)
      moreover have "links en_prevLocal en_nextLocal (jn_heap (unlink e j)) (locals (jn_heap j) dn' gs)"
        by (rule links_cong [of en_prevLocal en_nextLocal "jn_heap j"]) (use r nb in \<open>simp_all add: unlink_def unlink_simps\<close>)
      ultimately show ?thesis
        using r False e(2) unfolding ls local_rep_def by (simp add: unlink_def unlink_simps seqs_def)
    qed
  qed
  show ?thesis
    unfolding journal_rep_def using glob ends loc d(1,2,7) by (simp add: unlink_def unlink_simps)
qed

subsection \<open>Popping and quotas\<close>

definition same_entries :: "journal \<Rightarrow> journal \<Rightarrow> bool" where
  "same_entries j j' \<longleftrightarrow>
     (\<forall>x. same_data (jn_heap j x) (jn_heap j' x)) \<and> jn_next j' = jn_next j \<and> jn_quota j' = jn_quota j \<and> jn_subscribers j' = jn_subscribers j"

lemma same_entries_refl: "same_entries j j"
  by (simp add: same_entries_def same_data_def)

lemma same_entries_trans: "same_entries j j1 \<Longrightarrow> same_entries j1 j2 \<Longrightarrow> same_entries j j2"
  by (simp add: same_entries_def same_data_def)

lemma same_entries_unlink: "same_entries j (unlink e j)"
  by (simp add: same_entries_def same_data_def unlink_def unlink_simps)

lemma same_entries_origin: "same_entries j j' \<Longrightarrow> en_origin (jn_heap j' x) = en_origin (jn_heap j x)"
  by (simp add: same_entries_def same_data_def)

lemma same_entries_external: "same_entries j j' \<Longrightarrow> external (jn_heap j' x) = external (jn_heap j x)"
  by (simp add: same_entries_def same_data_def external_def)

lemma pop_heads_None: "pop_heads n None j = j"
  by (cases n) auto

lemma pop_heads_rep:
  assumes "journal_rep gs j" and "locals (jn_heap j) dn gs = ls"
  shows "journal_rep (filter (\<lambda>a. a \<notin> set (take n ls)) gs) (pop_heads n (first ls) j) \<and> same_entries j (pop_heads n (first ls) j)"
  using assms
proof (induction n arbitrary: gs j ls)
  case 0
  then show ?case
    by (cases ls) (auto simp: same_entries_refl)
next
  case (Suc n)
  show ?case
  proof (cases ls)
    case Nil
    then show ?thesis
      using Suc.prems by (simp add: same_entries_refl pop_heads_None)
  next
    case (Cons e es)
    let ?j = "unlink e j" and ?gs = "filter (\<lambda>y. y \<noteq> e) gs"
    have rep: "journal_rep ?gs ?j"
      using unlink_rep [OF Suc.prems(1)] Suc.prems(2) Cons by simp
    have dist: "e \<notin> set es"
      using journal_repD(1) [OF Suc.prems(1)] Suc.prems(2) Cons by (metis distinct.simps(2) distinct_filter)
    have "locals (jn_heap ?j) dn ?gs = filter (\<lambda>y. y \<noteq> e) (locals (jn_heap j) dn gs)"
      by (simp add: same_entries_origin [OF same_entries_unlink] conj_commute)
    also have "\<dots> = es"
      using Suc.prems(2) Cons dist by (simp add: filter_neq)
    finally have loc: "locals (jn_heap ?j) dn ?gs = es" .
    have "links en_prevLocal en_nextLocal (jn_heap j) (e # es)"
      using journal_repD(6) [OF Suc.prems(1), of dn] Suc.prems(2) Cons by (simp add: local_rep_def)
    then have "en_nextLocal (jn_heap j e) = first es"
      by (cases es) (auto simp: links_def)
    then have step: "pop_heads (Suc n) (first ls) j = pop_heads n (first es) ?j"
      by (simp add: Cons)
    have "filter (\<lambda>a. a \<notin> set (take n es)) ?gs = filter (\<lambda>a. a \<notin> set (take (Suc n) ls)) gs"
      by (auto simp: Cons intro!: filter_cong)
    then show ?thesis
      using Suc.IH [OF rep loc] same_entries_trans [OF same_entries_unlink [of j e]] by (simp add: step)
  qed
qed

fun drop_matching :: "nat \<Rightarrow> ('a \<Rightarrow> bool) \<Rightarrow> 'a list \<Rightarrow> 'a list" where
  "drop_matching n P [] = []"
| "drop_matching n P (x # xs) = (if P x \<and> 0 < n then drop_matching (n - 1) P xs else x # drop_matching n P xs)"

lemma drop_matching_0: "drop_matching 0 P xs = xs"
  by (induction xs) auto

lemma drop_matching_filter: "distinct xs \<Longrightarrow> filter (\<lambda>a. a \<notin> set (take n (filter P xs))) xs = drop_matching n P xs"
proof (induction xs arbitrary: n)
  case (Cons x xs)
  have "x \<notin> set (take k (filter P xs))" for k
    using Cons.prems by (auto dest: in_set_takeD)
  moreover have "filter (\<lambda>a. a \<noteq> x \<and> Q a) xs = filter Q xs" for Q
    using Cons.prems by (auto intro!: filter_cong)
  ultimately show ?case
    using Cons by (cases n) (auto simp: drop_matching_0)
qed simp

lemma map_drop_matching: "map f (drop_matching n (\<lambda>x. P (f x)) xs) = drop_matching n P (map f xs)"
  by (induction xs arbitrary: n) auto

lemma filter_drop_matching: "filter P (drop_matching n P xs) = drop n (filter P xs)"
proof (induction xs arbitrary: n)
  case (Cons x xs)
  then show ?case
    by (cases n) auto
qed simp

lemma filter_drop_matching_other: "(\<And>x. P x \<Longrightarrow> \<not> Q x) \<Longrightarrow> filter Q (drop_matching n P xs) = filter Q xs"
  by (induction xs arbitrary: n) auto

lemma first_hd: "xs \<noteq> [] \<Longrightarrow> first xs = Some (hd xs)"
  by (cases xs) auto

lemma quota_count:
  assumes "seqs heap ls" and "ls \<noteq> []"
  shows "en_seqLocal (heap (last ls)) - en_seqLocal (heap (hd ls)) + 1 = of_nat (length ls)"
  using assms by (cases ls) (auto simp: seqs_def last_conv_nth)

lemma apply_quota_rep:
  assumes "journal_rep gs j" and "locals (jn_heap j) dn gs \<noteq> []" and "length (locals (jn_heap j) dn gs) < 2 ^ 64" and "jn_quota j dn \<noteq> None"
  shows "journal_rep (drop_matching (length (locals (jn_heap j) dn gs) - 8192) (\<lambda>a. en_origin (jn_heap j a) = dn) gs) (apply_quota dn j) \<and>
    same_entries j (apply_quota dn j)"
proof -
  let ?ls = "locals (jn_heap j) dn gs"
  note r = journal_repD(6) [OF assms(1), of dn, unfolded local_rep_def]
  obtain q where q: "jn_quota j dn = Some q" "qt_max q = 8192"
    using assms(4) journal_repD(7) [OF assms(1)] by auto
  have cnt: "en_seqLocal (jn_heap j (the (jn_tails j dn))) - en_seqLocal (jn_heap j (the (jn_heads j dn))) + 1 = of_nat (length ?ls)"
    using quota_count [of "jn_heap j" ?ls] r assms(2) by (simp add: first_hd hd_rev)
  have u: "unat (of_nat (length ?ls) :: 64 word) = length ?ls"
    using assms(3) by (simp add: unat_of_nat)
  show ?thesis
  proof (cases "8192 < length ?ls")
    case True
    then have "(8192 :: 64 word) < of_nat (length ?ls)"
      using u by (simp add: word_less_nat_alt)
    moreover from this have "unat (of_nat (length ?ls) - 8192 :: 64 word) = length ?ls - 8192"
      using u by (simp add: unat_sub [OF less_imp_le])
    ultimately have "apply_quota dn j = pop_heads (length ?ls - 8192) (first ?ls) j"
      using q r unfolding apply_quota_def Let_def cnt by simp
    then show ?thesis
      using pop_heads_rep [OF assms(1) refl, where dn = dn and n = "length ?ls - 8192"] journal_repD(1) [OF assms(1)]
      by (simp add: drop_matching_filter)
  next
    case False
    then have "\<not> (8192 :: 64 word) < of_nat (length ?ls)"
      using u by (simp add: word_less_nat_alt)
    then have "apply_quota dn j = j"
      using q unfolding apply_quota_def Let_def cnt by simp
    then show ?thesis
      using assms(1) False by (simp add: drop_matching_0 same_entries_refl)
  qed
qed

subsection \<open>Appending\<close>

named_theorems link_simps "what linking does to the fields of a journal"

lemma link_global_fields [link_simps]:
  "jn_tail j \<noteq> Some a \<Longrightarrow> en_nextGlobal (jn_heap (link_global a j) x) =
     (if x = a then None else if jn_tail j = Some x then Some a else en_nextGlobal (jn_heap j x))"
  "en_prevGlobal (jn_heap (link_global a j) x) = (if x = a then jn_tail j else en_prevGlobal (jn_heap j x))"
  "en_nextLocal (jn_heap (link_global a j) x) = en_nextLocal (jn_heap j x)"
  "en_prevLocal (jn_heap (link_global a j) x) = en_prevLocal (jn_heap j x)"
  "en_seqLocal (jn_heap (link_global a j) x) = en_seqLocal (jn_heap j x)"
  "en_origin (jn_heap (link_global a j) x) = en_origin (jn_heap j x)"
  "en_leveled (jn_heap (link_global a j) x) = en_leveled (jn_heap j x)"
  "en_raw (jn_heap (link_global a j) x) = en_raw (jn_heap j x)"
  by (auto simp: link_global_def modify_opt_def modify_def Let_def split: option.splits)

lemma link_global_rest [link_simps]:
  "jn_head (link_global a j) = (if jn_head j = None then Some a else jn_head j)" "jn_tail (link_global a j) = Some a"
  "jn_heads (link_global a j) = jn_heads j" "jn_tails (link_global a j) = jn_tails j"
  "jn_next (link_global a j) = jn_next j" "jn_quota (link_global a j) = jn_quota j"
  "jn_subscribers (link_global a j) = jn_subscribers j"
  by (auto simp: link_global_def modify_opt_def modify_def Let_def split: option.splits)

lemma ensure_quota_rest [link_simps]:
  "jn_heap (ensure_quota dn j) = jn_heap j" "jn_head (ensure_quota dn j) = jn_head j" "jn_tail (ensure_quota dn j) = jn_tail j"
  "jn_heads (ensure_quota dn j) = jn_heads j" "jn_tails (ensure_quota dn j) = jn_tails j"
  "jn_next (ensure_quota dn j) = jn_next j" "jn_subscribers (ensure_quota dn j) = jn_subscribers j"
  "jn_quota (ensure_quota dn j) = (if jn_quota j dn = None then (jn_quota j)(dn \<mapsto> \<lparr>qt_origin = dn, qt_max = 8192\<rparr>) else jn_quota j)"
  by (simp_all add: ensure_quota_def)

lemma link_local_fields [link_simps]:
  "jn_tails j dn \<noteq> Some a \<Longrightarrow> en_nextLocal (jn_heap (link_local a dn j) x) =
     (if x = a then None else if jn_tails j dn = Some x then Some a else en_nextLocal (jn_heap j x))"
  "en_prevLocal (jn_heap (link_local a dn j) x) = (if x = a then jn_tails j dn else en_prevLocal (jn_heap j x))"
  "en_seqLocal (jn_heap (link_local a dn j) x) =
     (if x = a then (case jn_tails j dn of None \<Rightarrow> 0 | Some t \<Rightarrow> en_seqLocal (jn_heap j t) + 1) else en_seqLocal (jn_heap j x))"
  "en_nextGlobal (jn_heap (link_local a dn j) x) = en_nextGlobal (jn_heap j x)"
  "en_prevGlobal (jn_heap (link_local a dn j) x) = en_prevGlobal (jn_heap j x)"
  "en_origin (jn_heap (link_local a dn j) x) = en_origin (jn_heap j x)"
  "en_leveled (jn_heap (link_local a dn j) x) = en_leveled (jn_heap j x)"
  "en_raw (jn_heap (link_local a dn j) x) = en_raw (jn_heap j x)"
  by (auto simp: link_local_def modify_opt_def modify_def Let_def split: option.splits)

lemma link_local_rest [link_simps]:
  "jn_heads (link_local a dn j) dn' = (if dn' = dn \<and> jn_heads j dn = None then Some a else jn_heads j dn')"
  "jn_tails (link_local a dn j) dn' = (if dn' = dn then Some a else jn_tails j dn')"
  "jn_head (link_local a dn j) = jn_head j" "jn_tail (link_local a dn j) = jn_tail j"
  "jn_next (link_local a dn j) = jn_next j" "jn_quota (link_local a dn j) = jn_quota j"
  "jn_subscribers (link_local a dn j) = jn_subscribers j"
  by (auto simp: link_local_def modify_opt_def modify_def Let_def split: option.splits)

lemma seqs_cong: "seqs heap ls \<Longrightarrow> (\<And>x. x \<in> set ls \<Longrightarrow> en_seqLocal (h x) = en_seqLocal (heap x)) \<Longrightarrow> seqs h ls"
  unfolding seqs_def by (metis gr_implies_not0 length_greater_0_conv length_0_conv nth_mem)

lemma seqs_snoc:
  assumes "seqs heap ls" and "\<And>x. x \<in> set ls \<Longrightarrow> en_seqLocal (h x) = en_seqLocal (heap x)"
    and "ls \<noteq> [] \<Longrightarrow> en_seqLocal (h a) = en_seqLocal (heap (last ls)) + 1"
  shows "seqs h (ls @ [a])"
proof (cases "ls = []")
  case False
  have last: "en_seqLocal (heap (last ls)) = en_seqLocal (heap (ls ! 0)) + of_nat (length ls - 1)"
    using assms(1) [unfolded seqs_def, rule_format, of "length ls - 1"] False by (simp add: last_conv_nth)
  have new: "en_seqLocal (h a) = en_seqLocal (h (ls ! 0)) + of_nat (length ls)"
  proof -
    have "of_nat (length ls - 1) + 1 = (of_nat (length ls) :: 64 word)"
      using False by (cases ls) auto
    then show ?thesis
      using last assms(2) [of "ls ! 0"] assms(3) False by (simp add: add.assoc)
  qed
  have old: "seqs h ls"
    using assms(1,2) by (rule seqs_cong)
  show ?thesis
    unfolding seqs_def
  proof (intro allI impI)
    fix i
    assume "i < length (ls @ [a])"
    then consider "i < length ls" | "i = length ls"
      by fastforce
    then show "en_seqLocal (h ((ls @ [a]) ! i)) = en_seqLocal (h ((ls @ [a]) ! 0)) + of_nat i"
      using old [unfolded seqs_def, rule_format, of i] new False by cases (simp_all add: nth_append)
  qed
qed (simp add: seqs_def)

text \<open>The journal with the new entry linked, before the quota is applied.\<close>

definition linked :: "entry \<Rightarrow> journal \<Rightarrow> journal" where
  "linked e j = link_local (jn_next j) (en_origin e) (ensure_quota (en_origin e) (link_global (jn_next j)
     (j\<lparr>jn_next := Suc (jn_next j), jn_heap := (jn_heap j)(jn_next j := e)\<rparr>)))"

lemma journal_append_linked: "journal_append e j = (jn_next j, apply_quota (en_origin e) (linked e j))"
  by (simp add: journal_append_def linked_def Let_def)

lemma linked_data:
  "same_data (jn_heap (linked e j) x) (if x = jn_next j then e else jn_heap j x)"
  "jn_next (linked e j) = Suc (jn_next j)" "jn_subscribers (linked e j) = jn_subscribers j" "jn_quota (linked e j) (en_origin e) \<noteq> None"
  by (auto simp: linked_def link_simps same_data_def)

lemma linked_origin: "en_origin (jn_heap (linked e j) x) = (if x = jn_next j then en_origin e else en_origin (jn_heap j x))"
  using linked_data(1) [of e j x] by (simp add: same_data_def)

lemma linked_fields:
  assumes "jn_tail j \<noteq> Some (jn_next j)" and "jn_tails j (en_origin e) \<noteq> Some (jn_next j)"
  shows "en_nextGlobal (jn_heap (linked e j) x) =
      (if x = jn_next j then None else if jn_tail j = Some x then Some (jn_next j) else en_nextGlobal (jn_heap j x))"
    "en_prevGlobal (jn_heap (linked e j) x) = (if x = jn_next j then jn_tail j else en_prevGlobal (jn_heap j x))"
    "en_nextLocal (jn_heap (linked e j) x) =
      (if x = jn_next j then None else if jn_tails j (en_origin e) = Some x then Some (jn_next j) else en_nextLocal (jn_heap j x))"
    "en_prevLocal (jn_heap (linked e j) x) = (if x = jn_next j then jn_tails j (en_origin e) else en_prevLocal (jn_heap j x))"
    "en_seqLocal (jn_heap (linked e j) x) =
      (if x = jn_next j then (case jn_tails j (en_origin e) of None \<Rightarrow> 0 | Some t \<Rightarrow> en_seqLocal (jn_heap j t) + 1) else en_seqLocal (jn_heap j x))"
    "jn_head (linked e j) = (if jn_head j = None then Some (jn_next j) else jn_head j)" "jn_tail (linked e j) = Some (jn_next j)"
    "jn_heads (linked e j) dn = (if dn = en_origin e \<and> jn_heads j dn = None then Some (jn_next j) else jn_heads j dn)"
    "jn_tails (linked e j) dn = (if dn = en_origin e then Some (jn_next j) else jn_tails j dn)"
    "jn_quota (linked e j) = (if jn_quota j (en_origin e) = None
       then (jn_quota j)(en_origin e \<mapsto> \<lparr>qt_origin = en_origin e, qt_max = 8192\<rparr>) else jn_quota j)"
  using assms by (auto simp: linked_def link_simps split: option.splits)

lemma linked_rep:
  assumes "journal_rep gs j"
  shows "journal_rep (gs @ [jn_next j]) (linked e j)"
proof -
  let ?a = "jn_next j" and ?dn = "en_origin e" and ?h = "jn_heap (linked e j)"
  note d = journal_repD [OF assms]
  have a: "?a \<notin> set gs" "\<And>x. x \<in> set gs \<Longrightarrow> x \<noteq> ?a"
    using d(2) by blast+
  have "jn_tail j \<noteq> Some ?a" "jn_tails j ?dn \<noteq> Some ?a"
    using a(1) first_in [of "rev gs" ?a] d(5) first_in [of "rev (locals (jn_heap j) ?dn gs)" ?a] d(6) [of ?dn] by (auto simp: local_rep_def)
  note fields = linked_fields [OF this]
  have glob: "links en_prevGlobal en_nextGlobal ?h (gs @ [?a])"
    by (rule links_snoc [OF d(3,1) a(1)]) (simp_all add: fields d(5) a(2))
  have ends: "jn_head (linked e j) = first (gs @ [?a])" "jn_tail (linked e j) = first (rev (gs @ [?a]))"
    using d(4) by (auto simp: fields first_append first_None_iff)
  have loc: "local_rep dn (locals ?h dn (gs @ [?a])) (linked e j)" for dn
  proof -
    let ?ls = "locals (jn_heap j) dn gs"
    have ls: "locals ?h dn (gs @ [?a]) = ?ls @ (if ?dn = dn then [?a] else [])"
      using a(2) by (auto simp: linked_origin intro!: filter_cong)
    have r: "links en_prevLocal en_nextLocal (jn_heap j) ?ls" "jn_heads j dn = first ?ls" "jn_tails j dn = first (rev ?ls)" "seqs (jn_heap j) ?ls"
      using d(6) [of dn] by (simp_all add: local_rep_def)
    have dist: "distinct ?ls" "?a \<notin> set ?ls" "\<And>x. x \<in> set ?ls \<Longrightarrow> x \<noteq> ?a"
      using d(1) a by auto
    show ?thesis
    proof (cases "?dn = dn")
      case True
      have "links en_prevLocal en_nextLocal ?h (?ls @ [?a])"
        by (rule links_snoc [OF r(1) dist(1,2)]) (simp_all only: fields True r(3) dist(3) if_True if_False simp_thms refl)
      moreover have "seqs ?h (?ls @ [?a])"
        by (rule seqs_snoc [OF r(4)]) (simp_all only: fields True r(3) dist(3) if_True if_False first_hd hd_rev rev_is_Nil_conv not_False_eq_True option.case refl)
      ultimately show ?thesis
        unfolding ls local_rep_def using r(2) True by (auto simp: fields first_append first_None_iff)
    next
      case False
      have "x \<noteq> ?a \<and> jn_tails j ?dn \<noteq> Some x" if "x \<in> set ?ls" for x
        using that dist(3) [OF that] d(6) [of ?dn] first_in [of "rev (locals (jn_heap j) ?dn gs)" x] False by (auto simp: local_rep_def)
      then have "links en_prevLocal en_nextLocal ?h ?ls"
        by (intro links_cong [OF r(1)]) (simp add: fields)
      moreover have "seqs ?h ?ls"
        by (rule seqs_cong [OF r(4)]) (simp only: fields dist(3) if_False simp_thms)
      ultimately show ?thesis
        unfolding ls local_rep_def using r(2,3) False by (simp add: fields)
    qed
  qed
  have "qt_max q = 8192" if "jn_quota (linked e j) dn = Some q" for dn q
    using that d(7) by (auto simp: fields split: if_splits)
  then show ?thesis
    unfolding journal_rep_def using d(1,2) a(1) glob ends loc by (auto simp: linked_data(2) less_Suc_eq)
qed

section \<open>Journals and logs\<close>

text \<open>The log that a journal stands for: all entries in the order they came, of which appending keeps at
  most 8192 of an origin, the newest.\<close>

definition log_append :: "log_entry \<Rightarrow> log_entry list \<Rightarrow> log_entry list" where
  "log_append e es =
     (let es1 = es @ [e]; same = (\<lambda>x. le_DN x = le_DN e) in drop_matching (length (filter same es1) - 8192) same es1)"

definition journal_holds :: "log_entry list \<Rightarrow> journal \<Rightarrow> bool" where
  "journal_holds log j \<longleftrightarrow>
     (\<exists>gs. journal_rep gs j \<and> map (\<lambda>a. external (jn_heap j a)) gs = log) \<and> (\<forall>dn. length (filter (\<lambda>e. le_DN e = dn) log) \<le> 8192)"

lemma journal_holds_new: "journal_holds [] newJournal"
  using journal_rep_new by (auto simp: journal_holds_def)

lemma le_DN_external: "le_DN (external e) = en_origin e"
  by (simp add: external_def)

lemma external_same_data: "same_data e e' \<Longrightarrow> external e = external e'"
  by (simp add: same_data_def external_def)

lemma filter_log_append:
  "filter (\<lambda>x. le_DN x = dn) (log_append e es) =
     (if dn = le_DN e then lastn 8192 (filter (\<lambda>x. le_DN x = dn) es @ [e]) else filter (\<lambda>x. le_DN x = dn) es)"
proof (cases "dn = le_DN e")
  case True
  then show ?thesis
    by (simp add: log_append_def Let_def filter_drop_matching lastn_def)
next
  case False
  have "filter (\<lambda>x. le_DN x = dn) (drop_matching n (\<lambda>x. le_DN x = le_DN e) (es @ [e])) = filter (\<lambda>x. le_DN x = dn) (es @ [e])" for n
    using False by (intro filter_drop_matching_other) simp
  then show ?thesis
    using False by (simp add: log_append_def Let_def)
qed

lemma length_locals: "length (locals h dn gs) = length (filter (\<lambda>x. le_DN x = dn) (map (\<lambda>a. external (h a)) gs))"
  by (induction gs) (auto simp: le_DN_external)

lemma journal_append_holds:
  assumes "journal_holds log j"
  shows "journal_holds (log_append (external e) log) (snd (journal_append e j))"
proof -
  obtain gs where gs: "journal_rep gs j" "map (\<lambda>a. external (jn_heap j a)) gs = log"
    using assms by (auto simp: journal_holds_def)
  let ?a = "jn_next j" and ?j = "linked e j" and ?dn = "en_origin e"
  let ?gs = "gs @ [?a]" and ?j' = "apply_quota ?dn ?j"
  have rep: "journal_rep ?gs ?j"
    using gs(1) by (rule linked_rep)
  have "\<And>x. x \<in> set gs \<Longrightarrow> x \<noteq> ?a"
    using journal_repD(2) [OF gs(1)] by blast
  then have log: "map (\<lambda>a. external (jn_heap ?j a)) ?gs = log @ [external e]"
    using external_same_data [OF linked_data(1)] gs(2) by auto
  let ?n = "length (locals (jn_heap ?j) ?dn ?gs)"
  have n: "?n = length (filter (\<lambda>x. le_DN x = ?dn) (log @ [external e]))"
    unfolding length_locals log ..
  have "length (filter (\<lambda>x. le_DN x = ?dn) log) \<le> 8192"
    using assms by (simp add: journal_holds_def)
  then have "?n \<le> 8193"
    unfolding n by (simp add: le_DN_external)
  then have "?n < 2 ^ 64"
    by (rule le_less_trans) simp
  moreover have "locals (jn_heap ?j) ?dn ?gs \<noteq> []"
    by (simp add: linked_origin)
  ultimately have q: "journal_rep (drop_matching (?n - 8192) (\<lambda>a. en_origin (jn_heap ?j a) = ?dn) ?gs) ?j' \<and> same_entries ?j ?j'"
    using linked_data(4) by (intro apply_quota_rep [OF rep])
  have "map (\<lambda>a. external (jn_heap ?j' a)) (drop_matching (?n - 8192) (\<lambda>a. en_origin (jn_heap ?j a) = ?dn) ?gs) =
      drop_matching (?n - 8192) (\<lambda>x. le_DN x = ?dn) (map (\<lambda>a. external (jn_heap ?j a)) ?gs)"
    using same_entries_external [of ?j ?j'] q map_drop_matching [of "\<lambda>a. external (jn_heap ?j a)" "?n - 8192" "\<lambda>x. le_DN x = ?dn" ?gs]
    by (simp add: le_DN_external)
  also have "\<dots> = log_append (external e) log"
    unfolding log n by (simp add: log_append_def Let_def le_DN_external)
  finally have "\<exists>gs'. journal_rep gs' ?j' \<and> map (\<lambda>a. external (jn_heap ?j' a)) gs' = log_append (external e) log"
    using q by blast
  moreover have "length (filter (\<lambda>x. le_DN x = dn) (log_append (external e) log)) \<le> 8192" for dn
    using assms by (simp add: filter_log_append length_lastn journal_holds_def)
  ultimately show ?thesis
    by (simp add: journal_holds_def journal_append_linked)
qed

text \<open>The journal after a sequence of entries, and its log.\<close>

definition journal_of :: "entry list \<Rightarrow> journal" where
  "journal_of es = fold (\<lambda>e j. snd (journal_append e j)) es newJournal"

definition log_of :: "log_entry list \<Rightarrow> log_entry list" where
  "log_of es = fold log_append es []"

lemma journal_of_holds: "journal_holds (log_of (map external es)) (journal_of es)"
proof (induction es rule: rev_induct)
  case Nil
  then show ?case
    by (simp add: log_of_def journal_of_def journal_holds_new)
next
  case (snoc e es)
  then show ?case
    using journal_append_holds [of "log_of (map external es)" "journal_of es" e] by (simp add: log_of_def journal_of_def)
qed

lemma log_of_origin: "filter (\<lambda>x. le_DN x = dn) (log_of es) = lastn 8192 (filter (\<lambda>x. le_DN x = dn) es)"
proof (induction es rule: rev_induct)
  case (snoc e es)
  have "log_of (es @ [e]) = log_append e (log_of es)"
    by (simp add: log_of_def)
  then show ?case
    using snoc by (auto simp: filter_log_append lastn_lastn_append)
qed (simp add: log_of_def lastn_def)

section \<open>Scans\<close>

definition passes :: "entry_filter list \<Rightarrow> entry \<Rightarrow> bool" where
  "passes filters e \<longleftrightarrow> list_all (\<lambda>f. f e) filters"

text \<open>What a scan over the entries from the newest on collects.\<close>

definition scan_result :: "int \<Rightarrow> 'a list \<Rightarrow> 'a list" where
  "scan_result cnt xs = (if cnt = BacklogAllAvailable then xs else take (nat cnt) xs)"

lemma scan_from_list:
  assumes "links pv nx heap (us @ vs)" and "distinct (us @ vs)"
    and "cnt = BacklogAllAvailable \<or> int (length res) < cnt"
  shows "scan_from heap pv cnt filters (first (rev us)) res = Some (scan_result cnt (res @ filter (\<lambda>a. passes filters (heap a)) (rev us)))"
  using assms
proof (induction us arbitrary: vs res rule: rev_induct)
  case Nil
  then show ?case
    by (subst scan_from.simps) (auto simp: scan_result_def)
next
  case (snoc a us)
  let ?res = "if passes filters (heap a) then res @ [a] else res"
  have "pv (heap a) = next_in (rev (us @ a # vs)) a"
    using snoc.prems(1) by (simp add: links_def)
  also have "\<dots> = first (rev us)"
    using snoc.prems(2) next_in_split [of a "rev vs" "rev us"] by simp
  finally have pv: "pv (heap a) = first (rev us)" .
  have step: "scan_from heap pv cnt filters (first (rev (us @ [a]))) res =
      (if cnt \<noteq> BacklogAllAvailable \<and> int (length ?res) \<ge> cnt then Some ?res else scan_from heap pv cnt filters (first (rev us)) ?res)"
    by (subst scan_from.simps) (simp add: passes_def pv Let_def)
  show ?case
  proof (cases "cnt \<noteq> BacklogAllAvailable \<and> int (length ?res) \<ge> cnt")
    case True
    then have "passes filters (heap a)" "nat cnt = length res + 1"
      using snoc.prems(3) by (auto split: if_splits)
    then show ?thesis
      unfolding step using True by (simp add: scan_result_def)
  next
    case False
    then show ?thesis
      unfolding step using snoc.IH [of "a # vs" ?res] snoc.prems(1,2) by auto
  qed
qed

lemma scan_from_prevs:
  assumes "links pv nx heap xs" and "distinct xs" and "cnt = BacklogAllAvailable \<or> 0 < cnt"
  shows "scan_from heap pv cnt filters (first (rev xs)) [] = Some (scan_result cnt (filter (\<lambda>a. passes filters (heap a)) (rev xs)))"
  using scan_from_list [of pv nx heap xs "[]" cnt "[]" filters] assms by simp

text \<open>The newest entries, in the order they came.\<close>

definition newest :: "int \<Rightarrow> 'a list \<Rightarrow> 'a list" where
  "newest cnt xs = (if cnt = BacklogAllAvailable then xs else lastn (nat cnt) xs)"

lemma rev_scan_result: "rev (scan_result cnt (rev xs)) = newest cnt xs"
  by (simp add: scan_result_def newest_def lastn_def take_rev)

lemma newest_map: "newest cnt (map f xs) = map f (newest cnt xs)"
  by (simp add: newest_def lastn_def drop_map)

lemma scanEntries_eq:
  assumes "journal_rep gs j" and "cnt = BacklogAllAvailable \<or> 0 < cnt"
  shows "scanEntries j cnt filters = Some (newest cnt (filter (passes filters) (map (jn_heap j) gs)))"
  using scan_from_prevs [OF journal_repD(3,1) [OF assms(1)] assms(2), of filters] journal_repD(5) [OF assms(1)]
  by (simp add: scanEntries_def SliceStable_rev rev_filter [symmetric] rev_scan_result newest_map [symmetric] filter_map comp_def)

lemma getEntries_eq:
  assumes "journal_rep gs j" and "cnt = BacklogAllAvailable \<or> 0 < cnt"
  shows "getEntries j cnt dn filters = Some (newest cnt (filter (passes filters) (map (jn_heap j) (locals (jn_heap j) dn gs))))"
proof -
  have r: "links en_prevLocal en_nextLocal (jn_heap j) (locals (jn_heap j) dn gs)" "jn_tails j dn = first (rev (locals (jn_heap j) dn gs))"
    using journal_repD(6) [OF assms(1), of dn] by (simp_all add: local_rep_def)
  have "distinct (locals (jn_heap j) dn gs)"
    using journal_repD(1) [OF assms(1)] by simp
  then show ?thesis
    using scan_from_prevs [OF r(1) _ assms(2), of filters] r(2)
    by (simp add: getEntries_def SliceStable_rev rev_filter [symmetric] rev_scan_result newest_map [symmetric] filter_map comp_def del: filter_filter)
qed

section \<open>Properties\<close>

text \<open>C3: After any sequence of appends to a new journal, a scan of everything returns the log of those
  entries, of which appending keeps the newest 8192 of every origin; and the entries of an origin are
  exactly the newest 8192 that were appended with it, in order.\<close>

theorem journal_refines_log:
  "map_option (map external) (scanEntries (journal_of es) BacklogAllAvailable []) = Some (log_of (map external es)) \<and>
   (\<forall>dn. map_option (map external) (getEntries (journal_of es) BacklogAllAvailable dn []) =
      Some (lastn 8192 (filter (\<lambda>x. le_DN x = dn) (map external es))))"
proof -
  obtain gs where gs: "journal_rep gs (journal_of es)" "map (\<lambda>a. external (jn_heap (journal_of es) a)) gs = log_of (map external es)"
    using journal_of_holds [of es] by (auto simp: journal_holds_def)
  have "passes [] = (\<lambda>_. True)"
    by (simp add: fun_eq_iff passes_def)
  then have all: "scanEntries (journal_of es) BacklogAllAvailable [] = Some (map (jn_heap (journal_of es)) gs)"
      "getEntries (journal_of es) BacklogAllAvailable dn [] = Some (map (jn_heap (journal_of es)) (locals (jn_heap (journal_of es)) dn gs))" for dn
    by (simp_all add: scanEntries_eq [OF gs(1)] getEntries_eq [OF gs(1)] newest_def)
  have "map external (map (jn_heap (journal_of es)) (locals (jn_heap (journal_of es)) dn gs)) =
      filter (\<lambda>x. le_DN x = dn) (log_of (map external es))" for dn
    unfolding gs(2) [symmetric] by (simp add: filter_map comp_def le_DN_external)
  then show ?thesis
    using all gs(2) by (simp add: log_of_origin comp_def)
qed

text \<open>C18: The scan along the links of one origin is equivalent to the scan of all entries with the filter
  for that origin; and both return the newest entries that pass, up to the number asked for, in the
  order in which they were logged.\<close>

theorem scan_equivalence:
  assumes "cnt = BacklogAllAvailable \<or> 0 < cnt"
  shows "scanEntries (journal_of es) cnt (filterExact dn # filters) = getEntries (journal_of es) cnt dn filters \<and>
    (\<exists>all. scanEntries (journal_of es) BacklogAllAvailable [] = Some all \<and>
       scanEntries (journal_of es) cnt filters = Some (newest cnt (filter (passes filters) all)))"
proof -
  obtain gs where gs: "journal_rep gs (journal_of es)"
    using journal_of_holds [of es] by (auto simp: journal_holds_def)
  have "filter (passes (filterExact dn # filters)) (map (jn_heap (journal_of es)) gs) =
      filter (passes filters) (map (jn_heap (journal_of es)) (locals (jn_heap (journal_of es)) dn gs))"
    by (induction gs) (auto simp: passes_def filterExact_def)
  moreover have "passes [] = (\<lambda>_. True)"
    by (simp add: fun_eq_iff passes_def)
  ultimately show ?thesis
    using assms by (simp add: scanEntries_eq [OF gs] getEntries_eq [OF gs] newest_def)
qed

definition demo_entry :: "dn \<Rightarrow> string \<Rightarrow> entry" where
  "demo_entry dn data = no_entry\<lparr>en_origin := dn, en_raw := Some \<lparr>ln_Data = data, ln_OriginalLength = int (length data)\<rparr>\<rparr>"

theorem scan_equivalence_witness:
  "scanEntries (journal_of [demo_entry ''a'' ''1'', demo_entry ''b'' ''2'', demo_entry ''a'' ''3'']) 1 [filterExact ''a''] =
     getEntries (journal_of [demo_entry ''a'' ''1'', demo_entry ''b'' ''2'', demo_entry ''a'' ''3'']) 1 ''a'' []"
  by (rule conjunct1 [OF scan_equivalence]) simp

lemma fold_filters: "fold (\<lambda>f s. if \<not> f e then s else s) fs s = s"
  by (induction fs) auto

text \<open>The filters of a subscriber have no effect: whatever they are, notifying delivers the entry to
  every subscriber that is not done and has room, and counts it as missed by the others.\<close>

theorem notify_ignores_filters:
  "jn_subscribers (fst (notify e j)) =
     map (\<lambda>sub. if length (sub_dataC sub) < sub_cap sub then sub\<lparr>sub_dataC := sub_dataC sub @ [external e]\<rparr>
                else sub\<lparr>sub_missed := sub_missed sub + 1\<rparr>)
       (filter (\<lambda>sub. \<not> sub_done sub) (jn_subscribers j))"
  unfolding notify_def notify_one_def fold_filters by simp

end
