(* ===== verification/LogTree.thy ===== *)
theory LogTree
  imports Journal
begin

text \<open>
  The log tree of \<^verbatim>\<open>osbase/logtree\<close>: the tree of loggers (\<^verbatim>\<open>logtree.go\<close>), the publishing interfaces
  (\<^verbatim>\<open>logtree_publisher.go\<close>) and the reading interface (\<^verbatim>\<open>logtree_access.go\<close>), on top of the journal. A
  pointer to a node of the tree is the path of DN parts from the root; nodes are never removed. The
  call site and the time, which the publishers ask the runtime for, are arguments. A message is what
  \<^verbatim>\<open>fmt.Sprint\<close> or \<^verbatim>\<open>fmt.Sprintf\<close> made of the arguments of the call.
\<close>

section \<open>The tree of loggers\<close>

datatype lt_node = LtNode (nd_dn: dn) (nd_verbosity: int) (nd_rawLineBuffer: line_buffer) (nd_children: "(string \<times> lt_node) list")

record log_tree =
  lt_journal :: journal
  lt_root :: lt_node

definition newNode :: "dn \<Rightarrow> lt_node" where
  "newNode dn = LtNode dn 0 (NewLineBuffer 1024) []"

definition lt_New :: log_tree where
  "lt_New = \<lparr>lt_journal = newJournal, lt_root = newNode []\<rparr>"

text \<open>A traversal: the DN wanted, the path taken and the path left.\<close>

record node_traversal =
  nt_want :: dn
  nt_current :: "string list"
  nt_left :: "string list"

definition newTraversal :: "dn \<Rightarrow> (string, node_traversal) result" where
  "newTraversal dn = rbind (DN_Path dn) (\<lambda>parts. Inr \<lparr>nt_want = dn, nt_current = [], nt_left = parts\<rparr>)"

definition nt_next :: "node_traversal \<Rightarrow> string \<times> dn \<times> node_traversal" where
  "nt_next t =
     (case nt_left t of
        [] \<Rightarrow> ([], nt_want t, t)
      | part # left \<Rightarrow>
          (let current = nt_current t @ [part] in (part, join_with (CHR ''.'') current, t\<lparr>nt_current := current, nt_left := left\<rparr>)))"

text \<open>The tree with the nodes on the way created; the traversal ends at the node of its path.\<close>

function nt_execute :: "node_traversal \<Rightarrow> lt_node \<Rightarrow> lt_node" where
  "nt_execute t (LtNode dn v b children) =
     (case nt_next t of
        (part, full, t1) \<Rightarrow>
          if part = [] \<or> nt_left t = [] then LtNode dn v b children
          else
            (let child = (case map_of children part of None \<Rightarrow> newNode full | Some n \<Rightarrow> n) in
             LtNode dn v b (AList.update part (nt_execute t1 child) children)))"
  by pat_completeness auto
termination by (relation "measure (\<lambda>(t, n). length (nt_left t))") (auto simp: nt_next_def Let_def split: list.splits)

declare nt_execute.simps [simp del]

fun node_at :: "string list \<Rightarrow> lt_node \<Rightarrow> lt_node option" where
  "node_at [] n = Some n"
| "node_at (part # path) n = (case map_of (nd_children n) part of None \<Rightarrow> None | Some c \<Rightarrow> node_at path c)"

fun map_node :: "(lt_node \<Rightarrow> lt_node) \<Rightarrow> string list \<Rightarrow> lt_node \<Rightarrow> lt_node" where
  "map_node f [] n = f n"
| "map_node f (part # path) (LtNode dn v b children) =
     (case map_of children part of
        None \<Rightarrow> LtNode dn v b children
      | Some c \<Rightarrow> LtNode dn v b (AList.update part (map_node f path c) children))"

definition nodeByDN :: "dn \<Rightarrow> log_tree \<Rightarrow> (string, string list \<times> log_tree) result" where
  "nodeByDN dn l =
     rbind (newTraversal dn) (\<lambda>traversal.
       Inr (nt_left traversal, l\<lparr>lt_root := nt_execute traversal (lt_root l)\<rparr>))"

section \<open>Publishing\<close>

record leveled_publisher =
  pb_node :: "string list"
  pb_depth :: int

definition LeveledFor :: "dn \<Rightarrow> log_tree \<Rightarrow> (string, leveled_publisher \<times> log_tree) result" where
  "LeveledFor dn l = rbind (nodeByDN dn l) (\<lambda>(node, l1). Inr (\<lparr>pb_node = node, pb_depth = 0\<rparr>, l1))"

definition RawFor :: "dn \<Rightarrow> log_tree \<Rightarrow> (string, string list \<times> log_tree) result" where
  "RawFor dn l = nodeByDN dn l"

text \<open>The panicking versions: the error is the panic.\<close>

definition MustLeveledFor :: "dn \<Rightarrow> log_tree \<Rightarrow> (string, leveled_publisher \<times> log_tree) result" where
  "MustLeveledFor dn l = LeveledFor dn l"

definition MustRawFor :: "dn \<Rightarrow> log_tree \<Rightarrow> (string, string list \<times> log_tree) result" where
  "MustRawFor dn l = RawFor dn l"

definition SetVerbosity :: "dn \<Rightarrow> int \<Rightarrow> log_tree \<Rightarrow> (string, log_tree) result" where
  "SetVerbosity dn level l =
     rbind (nodeByDN dn l) (\<lambda>(node, l1).
       Inr (l1\<lparr>lt_root := map_node (\<lambda>n. LtNode (nd_dn n) level (nd_rawLineBuffer n) (nd_children n)) node (lt_root l1)\<rparr>))"

definition new_entry :: "dn \<Rightarrow> leveled_payload option \<Rightarrow> line option \<Rightarrow> entry" where
  "new_entry dn leveled raw = no_entry\<lparr>en_origin := dn, en_leveled := leveled, en_raw := raw\<rparr>"

text \<open>Appending an entry and notifying the subscribers. The entry may have been unlinked by the time of
  the notification, which does not change what it holds.\<close>

definition record_entry :: "entry \<Rightarrow> log_tree \<Rightarrow> log_tree" where
  "record_entry e l =
     (let (a, j) = journal_append e (lt_journal l) in l\<lparr>lt_journal := fst (notify (jn_heap j a) j)\<rparr>)"

definition node_dn :: "string list \<Rightarrow> log_tree \<Rightarrow> dn" where
  "node_dn node l = nd_dn (the (node_at node (lt_root l)))"

definition logRaw :: "string list \<Rightarrow> line \<Rightarrow> log_tree \<Rightarrow> log_tree" where
  "logRaw node line l = record_entry (new_entry (node_dn node l) None (Some line)) l"

text \<open>Writing to the raw logger of a node: the line buffer hands every completed line to \<open>logRaw\<close>.\<close>

definition raw_Write :: "string list \<Rightarrow> string \<Rightarrow> log_tree \<Rightarrow> (lb_fail, nat \<times> log_tree) result" where
  "raw_Write node data l =
     rbind (lnb_Write data (nd_rawLineBuffer (the (node_at node (lt_root l))))) (\<lambda>((n, lines), b).
       Inr (n, fold (logRaw node) lines
                 (l\<lparr>lt_root := map_node (\<lambda>x. LtNode (nd_dn x) (nd_verbosity x) b (nd_children x)) node (lt_root l)\<rparr>)))"

definition LogExternalLeveled :: "int \<Rightarrow> leveled_publisher \<Rightarrow> external_leveled_payload \<Rightarrow> log_tree \<Rightarrow> log_tree" where
  "LogExternalLeveled now publisher e l = record_entry (new_entry (node_dn (pb_node publisher) l) (Some (sanitize now e)) None) l"

definition trim_newlines :: "string \<Rightarrow> string" where
  "trim_newlines s = rev (dropWhile (\<lambda>c. c = CHR 0x0A) (rev (dropWhile (\<lambda>c. c = CHR 0x0A) s)))"

text \<open>The call site: what \<^verbatim>\<open>runtime.Caller\<close> returns, or \<open>None\<close> if it fails.\<close>

definition call_site :: "(string \<times> int) option \<Rightarrow> string \<times> int" where
  "call_site caller = (case caller of None \<Rightarrow> (''???'', 1) | Some (file, line) \<Rightarrow> (last (split_on (CHR ''/'') file), line))"

definition logLeveled :: "(int \<Rightarrow> (string \<times> int) option) \<Rightarrow> int \<Rightarrow> leveled_publisher \<Rightarrow> int \<Rightarrow> severity \<Rightarrow> string \<Rightarrow> log_tree \<Rightarrow> log_tree" where
  "logLeveled caller now publisher depth severity msg l =
     (let (file, line) = call_site (caller (2 + depth));
          messages = split_on (CHR 0x0A) (trim_newlines msg);
          p = \<lparr>lp_messages = messages, lp_timestamp = now, lp_severity = severity, lp_file = file, lp_line = line\<rparr> in
      record_entry (new_entry (node_dn (pb_node publisher) l) (Some p) None) l)"

definition publisher_Info :: "(int \<Rightarrow> (string \<times> int) option) \<Rightarrow> int \<Rightarrow> leveled_publisher \<Rightarrow> string \<Rightarrow> log_tree \<Rightarrow> log_tree" where
  "publisher_Info caller now publisher msg l = logLeveled caller now publisher (pb_depth publisher) INFO msg l"

definition publisher_Warning :: "(int \<Rightarrow> (string \<times> int) option) \<Rightarrow> int \<Rightarrow> leveled_publisher \<Rightarrow> string \<Rightarrow> log_tree \<Rightarrow> log_tree" where
  "publisher_Warning caller now publisher msg l = logLeveled caller now publisher (pb_depth publisher) WARNING msg l"

definition publisher_Error :: "(int \<Rightarrow> (string \<times> int) option) \<Rightarrow> int \<Rightarrow> leveled_publisher \<Rightarrow> string \<Rightarrow> log_tree \<Rightarrow> log_tree" where
  "publisher_Error caller now publisher msg l = logLeveled caller now publisher (pb_depth publisher) ERROR msg l"

definition publisher_Fatal :: "(int \<Rightarrow> (string \<times> int) option) \<Rightarrow> int \<Rightarrow> leveled_publisher \<Rightarrow> string \<Rightarrow> log_tree \<Rightarrow> log_tree" where
  "publisher_Fatal caller now publisher msg l = logLeveled caller now publisher (pb_depth publisher) FATAL msg l"

definition WithAddedStackDepth :: "int \<Rightarrow> leveled_publisher \<Rightarrow> leveled_publisher" where
  "WithAddedStackDepth depth publisher = publisher\<lparr>pb_depth := pb_depth publisher + depth\<rparr>"

record verbose =
  vb_publisher :: leveled_publisher
  vb_enabled :: bool

definition publisher_V :: "int \<Rightarrow> leveled_publisher \<Rightarrow> log_tree \<Rightarrow> verbose" where
  "publisher_V v publisher l =
     \<lparr>vb_publisher = publisher, vb_enabled = nd_verbosity (the (node_at (pb_node publisher) (lt_root l))) \<ge> v\<rparr>"

definition verbose_Info :: "(int \<Rightarrow> (string \<times> int) option) \<Rightarrow> int \<Rightarrow> verbose \<Rightarrow> string \<Rightarrow> log_tree \<Rightarrow> log_tree" where
  "verbose_Info caller now v msg l =
     (if \<not> vb_enabled v then l else logLeveled caller now (vb_publisher v) (pb_depth (vb_publisher v)) INFO msg l)"

section \<open>Reading\<close>

record log_read_option =
  ro_withChildren :: bool
  ro_withStream :: bool
  ro_withBacklog :: int
  ro_onlyLeveled :: bool
  ro_onlyRaw :: bool
  ro_leveledWithMinimumSeverity :: severity

definition no_option :: log_read_option where
  "no_option = \<lparr>ro_withChildren = False, ro_withStream = False, ro_withBacklog = 0, ro_onlyLeveled = False, ro_onlyRaw = False,
     ro_leveledWithMinimumSeverity = []\<rparr>"

definition WithChildren :: log_read_option where "WithChildren = no_option\<lparr>ro_withChildren := True\<rparr>"

definition WithStream :: log_read_option where "WithStream = no_option\<lparr>ro_withStream := True\<rparr>"

definition WithBacklog :: "int \<Rightarrow> log_read_option" where "WithBacklog n = no_option\<lparr>ro_withBacklog := n\<rparr>"

definition OnlyRaw :: log_read_option where "OnlyRaw = no_option\<lparr>ro_onlyRaw := True\<rparr>"

definition OnlyLeveled :: log_read_option where "OnlyLeveled = no_option\<lparr>ro_onlyLeveled := True\<rparr>"

definition LeveledWithMinimumSeverity :: "severity \<Rightarrow> log_read_option" where
  "LeveledWithMinimumSeverity s = no_option\<lparr>ro_leveledWithMinimumSeverity := s\<rparr>"

text \<open>The loop over the options: what they add up to.\<close>

definition combine_option :: "log_read_option \<Rightarrow> log_read_option \<Rightarrow> log_read_option" where
  "combine_option opt acc =
     \<lparr>ro_withChildren = ro_withChildren acc \<or> ro_withChildren opt,
      ro_withStream = ro_withStream acc \<or> ro_withStream opt,
      ro_withBacklog = (if ro_withBacklog opt > 0 \<or> ro_withBacklog opt = BacklogAllAvailable then ro_withBacklog opt else ro_withBacklog acc),
      ro_onlyLeveled = ro_onlyLeveled acc \<or> ro_onlyLeveled opt,
      ro_onlyRaw = ro_onlyRaw acc \<or> ro_onlyRaw opt,
      ro_leveledWithMinimumSeverity =
        (if ro_leveledWithMinimumSeverity opt \<noteq> [] then ro_leveledWithMinimumSeverity opt else ro_leveledWithMinimumSeverity acc)\<rparr>"

definition read_filters :: "dn \<Rightarrow> log_read_option \<Rightarrow> entry_filter list" where
  "read_filters dn o' =
     (if ro_onlyLeveled o' then [filterOnlyLeveled] else []) @
     (if ro_onlyRaw o' then [filterOnlyRaw] else []) @
     (if ro_withChildren o' then [filterSubtree dn] else [filterExact dn]) @
     (if ro_leveledWithMinimumSeverity o' \<noteq> [] then [filterSeverity (ro_leveledWithMinimumSeverity o')] else [])"

record log_reader =
  lr_Backlog :: "log_entry list"
  lr_Stream :: "subscriber option"

definition reader_Missed :: "log_reader \<Rightarrow> 64 word" where
  "reader_Missed r = (case lr_Stream r of None \<Rightarrow> 0 | Some sub \<Rightarrow> sub_missed sub)"

text \<open>Closing the channel twice is a panic.\<close>

definition reader_Close :: "log_reader \<Rightarrow> (string, log_reader) result" where
  "reader_Close r =
     (case lr_Stream r of
        None \<Rightarrow> Inr r
      | Some sub \<Rightarrow> if sub_done sub then Inl ''close of closed channel'' else Inr (r\<lparr>lr_Stream := Some (sub\<lparr>sub_done := True\<rparr>)\<rparr>))"

text \<open>Reading; \<open>None\<close> stands for a scan that does not end.\<close>

definition lt_Read :: "dn \<Rightarrow> log_read_option list \<Rightarrow> log_tree \<Rightarrow> (string, log_reader \<times> log_tree) result option" where
  "lt_Read dn opts l =
     (let o' = fold combine_option opts no_option; backlog = ro_withBacklog o'; filters = read_filters dn o' in
      if ro_onlyLeveled o' \<and> ro_onlyRaw o'
      then Some (Inl ''cannot return logs that are simultaneously OnlyRaw and OnlyLeveled'')
      else
        (case (if backlog > 0 \<or> backlog = BacklogAllAvailable
               then (if ro_withChildren o' then scanEntries (lt_journal l) backlog filters else getEntries (lt_journal l) backlog dn filters)
               else Some []) of
           None \<Rightarrow> None
         | Some entries \<Rightarrow>
             (if ro_withStream o'
              then (let sub = \<lparr>sub_filters = filters, sub_dataC = [], sub_cap = 128, sub_dataClosed = False, sub_done = False, sub_missed = 0\<rparr> in
                    Some (Inr (\<lparr>lr_Backlog = map external entries, lr_Stream = Some sub\<rparr>, l\<lparr>lt_journal := subscribe sub (lt_journal l)\<rparr>)))
              else Some (Inr (\<lparr>lr_Backlog = map external entries, lr_Stream = None\<rparr>, l)))))"

section \<open>The invariant\<close>

text \<open>Every node knows its own DN.\<close>

definition tree_ok :: "string list \<Rightarrow> lt_node \<Rightarrow> bool" where
  "tree_ok cur n \<longleftrightarrow> (\<forall>path m. node_at path n = Some m \<longrightarrow> nd_dn m = join_with (CHR ''.'') (cur @ path))"

lemma tree_ok_LtNode:
  "tree_ok cur (LtNode dn v b ch) \<longleftrightarrow>
     dn = join_with (CHR ''.'') cur \<and> (\<forall>part c. map_of ch part = Some c \<longrightarrow> tree_ok (cur @ [part]) c)"
proof
  assume ok: "tree_ok cur (LtNode dn v b ch)"
  have "dn = join_with (CHR ''.'') cur"
    using ok [unfolded tree_ok_def, rule_format, of "[]" "LtNode dn v b ch"] by simp
  moreover have "tree_ok (cur @ [part]) c" if "map_of ch part = Some c" for part c
    unfolding tree_ok_def using ok [unfolded tree_ok_def, rule_format, of "part # _"] that by simp
  ultimately show "dn = join_with (CHR ''.'') cur \<and> (\<forall>part c. map_of ch part = Some c \<longrightarrow> tree_ok (cur @ [part]) c)"
    by blast
next
  assume h: "dn = join_with (CHR ''.'') cur \<and> (\<forall>part c. map_of ch part = Some c \<longrightarrow> tree_ok (cur @ [part]) c)"
  show "tree_ok cur (LtNode dn v b ch)"
    unfolding tree_ok_def
  proof (intro allI impI)
    fix path m
    assume "node_at path (LtNode dn v b ch) = Some m"
    then show "nd_dn m = join_with (CHR ''.'') (cur @ path)"
      using h by (cases path) (auto simp: tree_ok_def split: option.splits)
  qed
qed

lemma tree_ok_newNode: "tree_ok cur (newNode (join_with (CHR ''.'') cur))"
  by (simp add: newNode_def tree_ok_LtNode)

lemma tree_ok_child: "tree_ok cur (LtNode dn v b ch) \<Longrightarrow> tree_ok (cur @ [part])
    (case map_of ch part of None \<Rightarrow> newNode (join_with (CHR ''.'') (cur @ [part])) | Some n \<Rightarrow> n)"
  by (auto simp: tree_ok_LtNode tree_ok_newNode split: option.splits)

lemma nt_execute_Cons:
  assumes "nt_left t = part # left" and "part \<noteq> []"
  shows "nt_execute t (LtNode dn v b ch) = LtNode dn v b (AList.update part
    (nt_execute (t\<lparr>nt_current := nt_current t @ [part], nt_left := left\<rparr>)
      (case map_of ch part of None \<Rightarrow> newNode (join_with (CHR ''.'') (nt_current t @ [part])) | Some n \<Rightarrow> n)) ch)"
  using assms by (subst nt_execute.simps) (simp add: nt_next_def Let_def)

lemma nt_execute_ok:
  "tree_ok (nt_current t) n \<Longrightarrow> \<forall>p \<in> set (nt_left t). p \<noteq> [] \<Longrightarrow>
     tree_ok (nt_current t) (nt_execute t n) \<and> (\<exists>m. node_at (nt_left t) (nt_execute t n) = Some m)"
proof (induction "nt_left t" arbitrary: t n)
  case Nil
  have "nt_execute t n = n"
    using Nil(1) [symmetric] by (cases n) (simp add: nt_execute.simps nt_next_def)
  then show ?case
    using Nil by simp
next
  case (Cons part left)
  obtain dn v b ch where n: "n = LtNode dn v b ch"
    by (cases n)
  let ?t = "t\<lparr>nt_current := nt_current t @ [part], nt_left := left\<rparr>"
  let ?c = "case map_of ch part of None \<Rightarrow> newNode (join_with (CHR ''.'') (nt_current t @ [part])) | Some n \<Rightarrow> n"
  have step: "nt_execute t n = LtNode dn v b (AList.update part (nt_execute ?t ?c) ch)"
    unfolding n using Cons.hyps(2) [symmetric] Cons.prems(2) by (intro nt_execute_Cons) auto
  have "tree_ok (nt_current ?t) ?c"
    using tree_ok_child Cons.prems(1) by (simp add: n)
  moreover have "\<forall>p \<in> set (nt_left ?t). p \<noteq> []"
    using Cons.prems(2) Cons.hyps(2) [symmetric] by simp
  ultimately have ih: "tree_ok (nt_current t @ [part]) (nt_execute ?t ?c)" "\<exists>m. node_at left (nt_execute ?t ?c) = Some m"
    using Cons.hyps(1) [of ?t ?c] by simp_all
  have "tree_ok (nt_current t) (LtNode dn v b (AList.update part (nt_execute ?t ?c) ch))"
    using Cons.prems(1) ih(1) unfolding n tree_ok_LtNode by auto
  moreover have "\<exists>m. node_at (part # left) (LtNode dn v b (AList.update part (nt_execute ?t ?c) ch)) = Some m"
    using ih(2) by simp
  ultimately show ?case
    unfolding step Cons.hyps(2) [symmetric] by blast
qed

lemma DN_Path_parts: "DN_Path dn = Inr parts \<Longrightarrow> (\<forall>p \<in> set parts. p \<noteq> []) \<and> join_with (CHR ''.'') parts = dn"
  by (auto simp: DN_Path_def Let_def list_ex_iff split: if_splits)

lemma nodeByDN_ok:
  assumes "nodeByDN dn l = Inr (node, l1)" and "tree_ok [] (lt_root l)"
  shows "tree_ok [] (lt_root l1)" "node_dn node l1 = dn" "lt_journal l1 = lt_journal l" "\<exists>m. node_at node (lt_root l1) = Some m"
proof -
  obtain parts where parts: "DN_Path dn = Inr parts" "node = parts"
      and l1: "l1 = l\<lparr>lt_root := nt_execute \<lparr>nt_want = dn, nt_current = [], nt_left = parts\<rparr> (lt_root l)\<rparr>"
    using assms(1) by (auto simp: nodeByDN_def newTraversal_def rbind_eq_Inr_iff)
  note ok = nt_execute_ok [of "\<lparr>nt_want = dn, nt_current = [], nt_left = parts\<rparr>" "lt_root l"]
  show t: "tree_ok [] (lt_root l1)" and m: "\<exists>m. node_at node (lt_root l1) = Some m"
    using ok assms(2) DN_Path_parts [OF parts(1)] parts(2) l1 by auto
  then obtain m where "node_at node (lt_root l1) = Some m"
    by blast
  then show "node_dn node l1 = dn"
    using t DN_Path_parts [OF parts(1)] parts(2) by (auto simp: node_dn_def tree_ok_def)
  show "lt_journal l1 = lt_journal l"
    by (simp add: l1)
qed

lemma map_node_ok:
  assumes "\<And>n. nd_dn (f n) = nd_dn n \<and> nd_children (f n) = nd_children n"
  shows "tree_ok cur n \<Longrightarrow> tree_ok cur (map_node f path n)"
proof (induction path arbitrary: cur n)
  case Nil
  then show ?case
    using assms [of n] by (cases n; cases "f n") (auto simp: tree_ok_LtNode)
next
  case (Cons part path)
  then show ?case
    by (cases n) (auto simp: tree_ok_LtNode split: option.splits)
qed

text \<open>The journal of a log tree stands for a log, and its tree is sound.\<close>

definition tree_inv :: "log_entry list \<Rightarrow> log_tree \<Rightarrow> bool" where
  "tree_inv log l \<longleftrightarrow> journal_holds log (lt_journal l) \<and> tree_ok [] (lt_root l)"

lemma journal_rep_subscribers: "journal_rep gs (j\<lparr>jn_subscribers := subs\<rparr>) = journal_rep gs j"
  by (simp add: journal_rep_def local_rep_def)

lemma journal_holds_subscribers: "journal_holds log (j\<lparr>jn_subscribers := subs\<rparr>) = journal_holds log j"
  by (simp add: journal_holds_def journal_rep_subscribers)

lemma record_entry_inv: "tree_inv log l \<Longrightarrow> tree_inv (log_append (external e) log) (record_entry e l)"
  using journal_append_holds [of log "lt_journal l" e]
  by (cases "journal_append e (lt_journal l)") (simp add: tree_inv_def record_entry_def notify_def journal_holds_subscribers)

section \<open>Reachable log trees\<close>

inductive lt_reachable :: "log_tree \<Rightarrow> bool" where
  reach_New: "lt_reachable lt_New"
| reach_LeveledFor: "lt_reachable l \<Longrightarrow> LeveledFor dn l = Inr (p, l1) \<Longrightarrow> lt_reachable l1"
| reach_RawFor: "lt_reachable l \<Longrightarrow> RawFor dn l = Inr (node, l1) \<Longrightarrow> lt_reachable l1"
| reach_SetVerbosity: "lt_reachable l \<Longrightarrow> SetVerbosity dn level l = Inr l1 \<Longrightarrow> lt_reachable l1"
| reach_logLeveled: "lt_reachable l \<Longrightarrow> lt_reachable (logLeveled caller now p depth severity msg l)"
| reach_LogExternalLeveled: "lt_reachable l \<Longrightarrow> lt_reachable (LogExternalLeveled now p e l)"
| reach_raw_Write: "lt_reachable l \<Longrightarrow> raw_Write node data l = Inr (n, l1) \<Longrightarrow> lt_reachable l1"
| reach_Read: "lt_reachable l \<Longrightarrow> lt_Read dn opts l = Some (Inr (r, l1)) \<Longrightarrow> lt_reachable l1"

lemma nodeByDN_inv: "tree_inv log l \<Longrightarrow> nodeByDN dn l = Inr (node, l1) \<Longrightarrow> tree_inv log l1"
  using nodeByDN_ok [of dn l node l1] by (simp add: tree_inv_def)

lemma map_node_inv:
  assumes "tree_inv log l" and "\<And>n. nd_dn (f n) = nd_dn n \<and> nd_children (f n) = nd_children n"
  shows "tree_inv log (l\<lparr>lt_root := map_node f node (lt_root l)\<rparr>)"
  using assms map_node_ok [of f "[]" "lt_root l" node] by (simp add: tree_inv_def)

lemma record_lines_inv: "tree_inv log l \<Longrightarrow> \<exists>log'. tree_inv log' (fold (logRaw node) lines l)"
proof (induction lines arbitrary: log l)
  case (Cons line lines)
  show ?case
    using Cons.IH [OF record_entry_inv [OF Cons.prems]] by (simp add: logRaw_def)
qed auto

lemma lt_reachable_inv: "lt_reachable l \<Longrightarrow> \<exists>log. tree_inv log l"
proof (induction rule: lt_reachable.induct)
  case reach_New
  have "tree_inv [] lt_New"
    using journal_holds_new tree_ok_newNode [of "[]"] by (simp add: tree_inv_def lt_New_def)
  then show ?case ..
next
  case (reach_LeveledFor l dn p l1)
  then show ?case
    by (auto simp: LeveledFor_def rbind_eq_Inr_iff intro: nodeByDN_inv)
next
  case (reach_RawFor l dn node l1)
  then show ?case
    by (auto simp: RawFor_def intro: nodeByDN_inv)
next
  case (reach_SetVerbosity l dn level l1)
  then obtain log node l2 where "tree_inv log l2"
      "l1 = l2\<lparr>lt_root := map_node (\<lambda>n. LtNode (nd_dn n) level (nd_rawLineBuffer n) (nd_children n)) node (lt_root l2)\<rparr>"
    by (auto simp: SetVerbosity_def rbind_eq_Inr_iff intro: nodeByDN_inv)
  moreover have "tree_inv log (l2\<lparr>lt_root := map_node (\<lambda>n. LtNode (nd_dn n) level (nd_rawLineBuffer n) (nd_children n)) node (lt_root l2)\<rparr>)"
    using calculation(1) by (rule map_node_inv) simp
  ultimately show ?case
    by blast
next
  case (reach_raw_Write l node data n l1)
  then obtain log where log: "tree_inv log l"
    by blast
  obtain lines b where "l1 = fold (logRaw node) lines
      (l\<lparr>lt_root := map_node (\<lambda>x. LtNode (nd_dn x) (nd_verbosity x) b (nd_children x)) node (lt_root l)\<rparr>)"
    using reach_raw_Write.hyps(2) by (auto simp: raw_Write_def rbind_eq_Inr_iff)
  moreover have "tree_inv log (l\<lparr>lt_root := map_node (\<lambda>x. LtNode (nd_dn x) (nd_verbosity x) b (nd_children x)) node (lt_root l)\<rparr>)"
    using log by (rule map_node_inv) simp
  ultimately show ?case
    using record_lines_inv by simp
next
  case (reach_Read l dn opts r l1)
  then show ?case
    by (auto simp: lt_Read_def Let_def subscribe_def tree_inv_def journal_holds_subscribers split: if_splits option.splits)
qed (auto simp: logLeveled_def LogExternalLeveled_def split: prod.splits intro: record_entry_inv)

lemma getEntries_newest:
  assumes "journal_holds log j" and "cnt = BacklogAllAvailable \<or> 0 < cnt"
  shows "map_option (map external) (getEntries j cnt dn [filterExact dn]) = Some (newest cnt (filter (\<lambda>x. le_DN x = dn) log))"
proof -
  obtain gs where gs: "journal_rep gs j" "map (\<lambda>a. external (jn_heap j a)) gs = log"
    using assms(1) by (auto simp: journal_holds_def)
  have "filter (passes [filterExact dn]) (map (jn_heap j) (locals (jn_heap j) dn gs)) = map (jn_heap j) (locals (jn_heap j) dn gs)"
    by (simp add: filter_id_conv passes_def filterExact_def)
  moreover have "map external (map (jn_heap j) (locals (jn_heap j) dn gs)) = filter (\<lambda>x. le_DN x = dn) log"
    unfolding gs(2) [symmetric] by (simp add: filter_map comp_def le_DN_external)
  ultimately show ?thesis
    by (simp add: getEntries_eq [OF gs(1) assms(2)] flip: newest_map)
qed

lemma node_dn_record_entry: "node_dn node (record_entry e l) = node_dn node l"
  by (simp add: node_dn_def record_entry_def split: prod.splits)

section \<open>Properties\<close>

text \<open>C12: In any log tree that can be reached by the operations, a message logged for a valid DN is what
  reading the newest entry of that DN returns: under that DN, with the severity it was logged with
  and split into its lines.\<close>

theorem logged_message_is_read:
  assumes "lt_reachable l" and "LeveledFor dn l = Inr (p, l1)"
  shows "\<exists>file line.
    lt_Read dn [WithBacklog 1] (logLeveled caller now p depth severity msg l1) =
      Some (Inr (\<lparr>lr_Backlog = [\<lparr>le_Leveled = Some \<lparr>lp_messages = split_on (CHR 0x0A) (trim_newlines msg), lp_timestamp = now,
          lp_severity = severity, lp_file = file, lp_line = line\<rparr>, le_Raw = None, le_DN = dn\<rparr>], lr_Stream = None\<rparr>,
        logLeveled caller now p depth severity msg l1))"
proof -
  obtain log where log: "tree_inv log l"
    using lt_reachable_inv [OF assms(1)] by blast
  have node: "nodeByDN dn l = Inr (pb_node p, l1)"
    using assms(2) by (auto simp: LeveledFor_def rbind_eq_Inr_iff)
  have inv: "tree_inv log l1" and dn: "node_dn (pb_node p) l1 = dn"
    using nodeByDN_inv [OF log node] nodeByDN_ok(2) [OF node] log by (simp_all add: tree_inv_def)
  obtain fl ln where cs: "call_site (caller (2 + depth)) = (fl, ln)"
    by (cases "call_site (caller (2 + depth))")
  define e where "e = new_entry dn (Some \<lparr>lp_messages = split_on (CHR 0x0A) (trim_newlines msg), lp_timestamp = now,
    lp_severity = severity, lp_file = fl, lp_line = ln\<rparr>) None"
  define l2 where "l2 = logLeveled caller now p depth severity msg l1"
  have l2: "l2 = record_entry e l1"
    by (simp add: l2_def logLeveled_def cs dn e_def)
  have ext: "external e = \<lparr>le_Leveled = Some \<lparr>lp_messages = split_on (CHR 0x0A) (trim_newlines msg), lp_timestamp = now,
      lp_severity = severity, lp_file = fl, lp_line = ln\<rparr>, le_Raw = None, le_DN = dn\<rparr>"
    by (simp add: e_def new_entry_def external_def)
  have "journal_holds (log_append (external e) log) (lt_journal l2)"
    using record_entry_inv [OF inv, of e] by (simp add: l2 tree_inv_def)
  then have "map_option (map external) (getEntries (lt_journal l2) 1 dn [filterExact dn]) =
      Some (newest 1 (filter (\<lambda>x. le_DN x = dn) (log_append (external e) log)))"
    by (intro getEntries_newest) auto
  also have "newest 1 (filter (\<lambda>x. le_DN x = dn) (log_append (external e) log)) = [external e]"
    by (simp add: filter_log_append ext newest_def lastn_def BacklogAllAvailable_def)
  finally have "map_option (map external) (getEntries (lt_journal l2) 1 dn [filterExact dn]) = Some [external e]" .
  then obtain entries where "getEntries (lt_journal l2) 1 dn [filterExact dn] = Some entries" "map external entries = [external e]"
    unfolding map_option_eq_Some by (elim exE conjE)
  then have "lt_Read dn [WithBacklog 1] l2 = Some (Inr (\<lparr>lr_Backlog = [external e], lr_Stream = None\<rparr>, l2))"
    by (simp add: lt_Read_def combine_option_def WithBacklog_def no_option_def read_filters_def)
  from this [unfolded l2_def ext] show ?thesis
    by (intro exI)
qed

lemma demo_publisher: "\<exists>l1. LeveledFor ''root.net'' lt_New = Inr (\<lparr>pb_node = [''root'', ''net''], pb_depth = 0\<rparr>, l1)"
  by (simp add: LeveledFor_def nodeByDN_def newTraversal_def DN_Path_def)

theorem logged_message_is_read_witness:
  "\<exists>p l1 file line. LeveledFor ''root.net'' lt_New = Inr (p, l1) \<and>
    lt_Read ''root.net'' [WithBacklog 1] (logLeveled (\<lambda>_. None) 7 p 0 WARNING ''a'' l1) =
      Some (Inr (\<lparr>lr_Backlog = [\<lparr>le_Leveled = Some \<lparr>lp_messages = split_on (CHR 0x0A) (trim_newlines ''a''), lp_timestamp = 7,
          lp_severity = WARNING, lp_file = file, lp_line = line\<rparr>, le_Raw = None, le_DN = ''root.net''\<rparr>], lr_Stream = None\<rparr>,
        logLeveled (\<lambda>_. None) 7 p 0 WARNING ''a'' l1))"
proof -
  obtain l1 where l1: "LeveledFor ''root.net'' lt_New = Inr (\<lparr>pb_node = [''root'', ''net''], pb_depth = 0\<rparr>, l1)"
    using demo_publisher by blast
  show ?thesis
    by (rule exI, rule exI, subst ex_simps, subst ex_simps, rule conjI, rule l1, rule logged_message_is_read [OF reach_New l1])
qed

end
