(* ===== verification/Supervisor.thy ===== *)
theory Supervisor
  imports Prelude "HOL-Library.List_Lexorder" "HOL-Library.Char_ord"
begin

text \<open>
  The supervision tree of \<^verbatim>\<open>osbase/supervisor\<close>: nodes and their states (\<^verbatim>\<open>supervisor_node.go\<close>), the
  processor, its restart logic and the liquidator (\<^verbatim>\<open>supervisor_processor.go\<close>) and the calls of runnables
  (\<^verbatim>\<open>supervisor.go\<close>).

  A node pointer is the path of names from the root. The context of a node is canceled if the node or
  an ancestor was canceled since it was last reset; a flag per node records the first. A runnable is
  opaque: what it does is a sequence of events, namely its calls of the supervisor and its return. The
  goroutines that wait to send a request, and those that run a runnable, are part of the state, and
  which of them proceeds is up to the sequence of events. Backoff only delays a request and has no
  other effect.

  Go maps are visited in an order that an argument determines by giving every DN a rank
  (\<open>ordered\<close>); every order arises from some ranking.
\<close>

section \<open>Nodes\<close>

type_synonym path = "string list"

datatype nodeState = NodeStateNew | NodeStateHealthy | NodeStateDead | NodeStateDone | NodeStateCanceled

datatype sup_node = SupNode (sn_state: nodeState) (sn_canceled: bool) (sn_reserved: "string list")
  (sn_groups: "string list list") (sn_children: "(string \<times> sup_node) list")

fun nodeState_String :: "nodeState \<Rightarrow> string" where
  "nodeState_String NodeStateNew = ''NODE_STATE_NEW''"
| "nodeState_String NodeStateHealthy = ''NODE_STATE_HEALTHY''"
| "nodeState_String NodeStateDead = ''NODE_STATE_DEAD''"
| "nodeState_String NodeStateDone = ''NODE_STATE_DONE''"
| "nodeState_String NodeStateCanceled = ''NODE_STATE_CANCELED''"

definition node_reset :: sup_node where
  "node_reset = SupNode NodeStateNew False [] [] []"

definition sup_newNode :: sup_node where
  "sup_newNode = node_reset"

definition node_dn :: "path \<Rightarrow> string" where
  "node_dn p = join_with (CHR ''.'') (''root'' # p)"

fun find_node :: "path \<Rightarrow> sup_node \<Rightarrow> sup_node option" where
  "find_node [] n = Some n"
| "find_node (name # p) n = (case map_of (sn_children n) name of None \<Rightarrow> None | Some c \<Rightarrow> find_node p c)"

fun map_child :: "string \<Rightarrow> ('a \<Rightarrow> 'a) \<Rightarrow> (string \<times> 'a) list \<Rightarrow> (string \<times> 'a) list" where
  "map_child name f [] = []"
| "map_child name f ((k, c) # cs) = (if k = name then (k, f c) # cs else (k, c) # map_child name f cs)"

fun update_node :: "path \<Rightarrow> (sup_node \<Rightarrow> sup_node) \<Rightarrow> sup_node \<Rightarrow> sup_node" where
  "update_node [] f n = f n"
| "update_node (name # p) f (SupNode st cn rs gs cs) = SupNode st cn rs gs (map_child name (update_node p f) cs)"

fun set_state :: "nodeState \<Rightarrow> sup_node \<Rightarrow> sup_node" where
  "set_state st (SupNode _ cn rs gs cs) = SupNode st cn rs gs cs"

fun set_canceled :: "sup_node \<Rightarrow> sup_node" where
  "set_canceled (SupNode st _ rs gs cs) = SupNode st True rs gs cs"

text \<open>\<^verbatim>\<open>ctx.Err() != nil\<close> for the context of a node.\<close>

fun ctx_Err :: "path \<Rightarrow> sup_node \<Rightarrow> bool" where
  "ctx_Err [] n = sn_canceled n"
| "ctx_Err (name # p) n = (sn_canceled n \<or> (case map_of (sn_children n) name of None \<Rightarrow> False | Some c \<Rightarrow> ctx_Err p c))"

text \<open>The left of a result is a panic.\<close>

definition sup_nodeByDN :: "string \<Rightarrow> sup_node \<Rightarrow> (string, path) result" where
  "sup_nodeByDN dn root =
     (let parts = split_on (CHR ''.'') dn in
      if hd parts \<noteq> ''root'' then Inl ''DN does not start with root.''
      else case find_node (tl parts) root of None \<Rightarrow> Inl ''could not find node'' | Some _ \<Rightarrow> Inr (tl parts))"

definition groupSiblings :: "string \<Rightarrow> sup_node \<Rightarrow> string list option" where
  "groupSiblings name n = List.find (\<lambda>m. name \<in> set m) (sn_groups n)"

text \<open>The regular expression \<^verbatim>\<open>[a-z90-9_]{1,64}\<close> is not anchored: it matches a name that has one such
  character anywhere.\<close>

definition name_char :: "char \<Rightarrow> bool" where
  "name_char c \<longleftrightarrow> c \<in> set ''abcdefghijklmnopqrstuvwxyz0123456789_''"

definition reNodeName_MatchString :: "string \<Rightarrow> bool" where
  "reNodeName_MatchString name \<longleftrightarrow> list_ex name_char name"

section \<open>Calls of runnables\<close>

datatype signalType = SignalHealthy | SignalDone

fun check_names :: "string list \<Rightarrow> sup_node \<Rightarrow> string option" where
  "check_names [] n = None"
| "check_names (name # names) n =
     (if \<not> reNodeName_MatchString name then Some ''runnable name is invalid''
      else if map_of (sn_children n) name \<noteq> None then Some ''runnable already exists''
      else if name \<in> set (sn_reserved n) then Some ''runnable would shadow reserved name''
      else check_names names n)"

text \<open>Creating the children; the error keeps those created before it.\<close>

fun create_children :: "string list \<Rightarrow> sup_node \<Rightarrow> sup_node \<times> string option" where
  "create_children [] n = (n, None)"
| "create_children (name # names) (SupNode st cn rs gs cs) =
     (if groupSiblings name (SupNode st cn rs gs cs) \<noteq> None then (SupNode st cn rs gs cs, Some ''duplicate child name'')
      else create_children names (SupNode st cn rs gs (cs @ [(name, sup_newNode)])))"

text \<open>The node after the call, and the error or the names to schedule.\<close>

definition runGroup :: "string list \<Rightarrow> sup_node \<Rightarrow> sup_node \<times> (string, string list) result" where
  "runGroup names n =
     (if sn_state n \<noteq> NodeStateNew then (n, Inl ''cannot run new runnable on non-NEW node'')
      else case check_names names n of
             Some err \<Rightarrow> (n, Inl err)
           | None \<Rightarrow>
               (case create_children names n of
                  (n1, Some err) \<Rightarrow> (n1, Inl err)
                | (SupNode st cn rs gs cs, None) \<Rightarrow> (SupNode st cn rs (gs @ [names]) cs, Inr names)))"

definition node_signal :: "signalType \<Rightarrow> sup_node \<Rightarrow> (string, sup_node) result" where
  "node_signal sig n =
     (case sig of
        SignalHealthy \<Rightarrow> if sn_state n \<noteq> NodeStateNew then Inl ''node signaled healthy'' else Inr (set_state NodeStateHealthy n)
      | SignalDone \<Rightarrow> if sn_state n \<noteq> NodeStateHealthy then Inl ''node signaled done'' else Inr (set_state NodeStateDone n))"

definition SubLogger :: "string \<Rightarrow> sup_node \<Rightarrow> (string, sup_node) result" where
  "SubLogger name n =
     (if map_of (sn_children n) name \<noteq> None then Inl ''name already in use by child runnable''
      else if \<not> reNodeName_MatchString name then Inl ''sub-logger name is invalid''
      else case n of SupNode st cn rs gs cs \<Rightarrow> Inr (SupNode st cn (name # rs) gs cs))"

section \<open>The processor\<close>

text \<open>What a runnable returned: no error, an error that is the error of a canceled context, or another.\<close>

datatype run_err = ErrNil | ErrContext | ErrOther

definition processDied :: "string \<Rightarrow> run_err \<Rightarrow> sup_node \<Rightarrow> (string, sup_node) result" where
  "processDied dn err root =
     rbind (sup_nodeByDN dn root) (\<lambda>p.
       let n = the (find_node p root) in
       if sn_state n = NodeStateDone \<and> err = ErrNil then Inr root
       else if ctx_Err p root \<and> err = ErrContext then Inr (update_node p (set_state NodeStateCanceled) root)
       else
         (let root1 = update_node p (\<lambda>n. set_canceled (set_state NodeStateDead n)) root in
          if p = [] then Inr root1
          else
            (let parent = butlast p; name = last p;
                 group = (case groupSiblings name (the (find_node parent root)) of None \<Rightarrow> [] | Some m \<Rightarrow> m);
                 siblings = filter (\<lambda>sibling. sibling \<noteq> name) group in
             if list_ex (\<lambda>sibling. find_node (parent @ [sibling]) root = None) siblings
             then Inl ''invalid memory address or nil pointer dereference''
             else Inr (fold (\<lambda>sibling. update_node (parent @ [sibling]) set_canceled) siblings root1))))"

text \<open>Canceling the contexts of all nodes.\<close>

fun processKill :: "sup_node \<Rightarrow> sup_node" where
  "processKill (SupNode st _ rs gs cs) = SupNode st True rs gs (map (map_prod id processKill) cs)"

section \<open>Restarting\<close>

text \<open>The children of a node with their paths, in the order that the ranking \<open>ord\<close> gives.\<close>

definition child_paths :: "path \<Rightarrow> sup_node \<Rightarrow> (path \<times> sup_node) list" where
  "child_paths p n = map (\<lambda>(name, c). (p @ [name], c)) (sn_children n)"

definition ordered :: "(string \<Rightarrow> nat) \<Rightarrow> path \<Rightarrow> sup_node \<Rightarrow> (path \<times> sup_node) list" where
  "ordered ord p n = sort_key (\<lambda>(q, _). ord (node_dn q)) (child_paths p n)"

lemma size_children: "sum_list (map (\<lambda>(k, c). Suc (size c)) cs) \<le> size_list (size_prod (\<lambda>_. 0) size) cs"
  by (induction cs) auto

lemma size_ordered: "sum_list (map (\<lambda>(p, n). Suc (size n)) (ordered ord p n)) < Suc (size n)"
proof -
  have "mset (map (\<lambda>(p, n). Suc (size n)) (ordered ord p n)) = mset (map (\<lambda>(p, n). Suc (size n)) (child_paths p n))"
    by (simp add: ordered_def)
  then have "sum_list (map (\<lambda>(p, n). Suc (size n)) (ordered ord p n)) = sum_list (map (\<lambda>(p, n). Suc (size n)) (child_paths p n))"
    by (metis sum_mset_sum_list)
  also have "\<dots> = sum_list (map (\<lambda>(k, c). Suc (size c)) (sn_children n))"
    by (simp add: child_paths_def comp_def split_def)
  also have "\<dots> < Suc (size n)"
    using size_children [of "sn_children n"] by (cases n) simp
  finally show ?thesis .
qed

lemma sum_list_rev: "sum_list (rev xs) = sum_list (xs :: nat list)"
  by (induction xs) auto

text \<open>Phase one: the DNs of the nodes without children.\<close>

function gc_leaves :: "(string \<Rightarrow> nat) \<Rightarrow> (path \<times> sup_node) list \<Rightarrow> string list \<Rightarrow> string list" where
  "gc_leaves ord [] leaves = leaves"
| "gc_leaves ord ((p, n) # queue) leaves =
     gc_leaves ord (rev (ordered ord p n) @ queue) (if sn_children n = [] then List.insert (node_dn p) leaves else leaves)"
  by pat_completeness auto
termination
proof (relation "measure (\<lambda>(ord, queue, leaves). sum_list (map (\<lambda>(p, n). Suc (size n)) queue))", goal_cases)
  case (2 ord p n queue leaves)
  then show ?case
    using size_ordered [of ord p n] by (simp add: sum_list_rev flip: rev_map)
qed simp

text \<open>Phase two: from the leaves to the root, the DNs of the nodes whose whole subtree is down. A node
  with a child that has no decision yet goes back to the end of the queue, so the loop need not end
  for an arbitrary queue.\<close>

definition is_down :: "nodeState \<Rightarrow> bool" where
  "is_down st \<longleftrightarrow> st = NodeStateDone \<or> st = NodeStateCanceled \<or> st = NodeStateDead"

definition child_dns :: "path \<Rightarrow> sup_node \<Rightarrow> string list" where
  "child_dns p n = map (\<lambda>(q, _). node_dn q) (child_paths p n)"

partial_function (option) gc_ready :: "sup_node \<Rightarrow> path list \<Rightarrow> string list \<Rightarrow> string list \<Rightarrow> string list option" where
  "gc_ready root queue visited ready =
     (case queue of
        [] \<Rightarrow> Some ready
      | cur # queue1 \<Rightarrow>
          (let n = the (find_node cur root); cs = child_dns cur n in
           if \<not> list_all (\<lambda>c. c \<in> set visited) cs then gc_ready root (queue1 @ [cur]) visited ready
           else
             (let childrenReady = list_all (\<lambda>c. c \<in> set ready) cs;
                  visited1 = List.insert (node_dn cur) visited;
                  ready1 = (if childrenReady \<and> is_down (sn_state n) then List.insert (node_dn cur) ready else removeAll (node_dn cur) ready);
                  queue2 = (if cur \<noteq> [] \<and> node_dn (butlast cur) \<notin> set visited1 then queue1 @ [butlast cur] else queue1) in
              gc_ready root queue2 visited1 ready1)))"

text \<open>Phase three: from the root, the DNs of the largest subtrees to restart.\<close>

definition wants_restart :: "nodeState \<Rightarrow> bool" where
  "wants_restart st \<longleftrightarrow> st = NodeStateDead \<or> st = NodeStateCanceled"

function gc_can :: "(string \<Rightarrow> nat) \<Rightarrow> sup_node \<Rightarrow> string list \<Rightarrow> (path \<times> sup_node) list \<Rightarrow> string list \<Rightarrow> string list \<Rightarrow> string list" where
  "gc_can ord root ready [] want can = can"
| "gc_can ord root ready ((p, n) # queue) want can =
     (let want1 = (if wants_restart (sn_state n) then List.insert (node_dn p) want else want) in
      if node_dn p \<in> set want1 \<and> node_dn p \<in> set ready \<and> (p = [] \<or> \<not> ctx_Err (butlast p) root)
      then gc_can ord root ready queue want1 (List.insert (node_dn p) can)
      else gc_can ord root ready (queue @ ordered ord p n) want1 can)"
  by pat_completeness auto
termination
proof (relation "measure (\<lambda>(ord, root, ready, queue, want, can). sum_list (map (\<lambda>(p, n). Suc (size n)) queue))", goal_cases)
  case (3 ord root ready p n queue want can want1)
  then show ?case
    using size_ordered [of ord p n] by simp
qed simp_all

fun lookup_all :: "string list \<Rightarrow> sup_node \<Rightarrow> (string, path list) result" where
  "lookup_all [] root = Inr []"
| "lookup_all (dn # dns) root = rbind (sup_nodeByDN dn root) (\<lambda>p. rbind (lookup_all dns root) (\<lambda>ps. Inr (p # ps)))"

fun restart_all :: "string list \<Rightarrow> sup_node \<Rightarrow> (string, sup_node) result" where
  "restart_all [] root = Inr root"
| "restart_all (dn # dns) root = rbind (sup_nodeByDN dn root) (\<lambda>p. restart_all dns (update_node p (\<lambda>_. node_reset) root))"

text \<open>The tree after a run and the DNs to schedule; \<open>None\<close> if it does not end.\<close>

definition processGC :: "(nat \<Rightarrow> string \<Rightarrow> nat) \<Rightarrow> sup_node \<Rightarrow> (string, sup_node \<times> string list) result option" where
  "processGC ord root =
     (case lookup_all (sort_key (ord 1) (gc_leaves (ord 0) [([], root)] [])) root of
        Inl err \<Rightarrow> Some (Inl err)
      | Inr queue \<Rightarrow>
          (case gc_ready root queue [] [] of
             None \<Rightarrow> None
           | Some ready \<Rightarrow>
               (let dns = sort_key (ord 3) (gc_can (ord 2) root ready [([], root)] [] []) in
                Some (rbind (restart_all dns root) (\<lambda>root1. Inr (root1, dns))))))"

section \<open>The liquidator\<close>

function live_loop :: "(string \<Rightarrow> nat) \<Rightarrow> (path \<times> sup_node) list \<Rightarrow> string list \<Rightarrow> string list \<Rightarrow> string list" where
  "live_loop ord [] seen live = live"
| "live_loop ord ((p, n) # queue) seen live =
     (if node_dn p \<in> set seen then live_loop ord queue seen live
      else live_loop ord (queue @ ordered ord p n) (node_dn p # seen)
             (if sn_state n \<noteq> NodeStateDead \<and> sn_state n \<noteq> NodeStateDone then live @ [node_dn p] else live))"
  by pat_completeness auto
termination
proof (relation "measure (\<lambda>(ord, queue, seen, live). sum_list (map (\<lambda>(p, n). Suc (size n)) queue))", goal_cases)
  case (3 ord p n queue seen live)
  then show ?case
    using size_ordered [of ord p n] by simp
qed simp_all

definition liveRunnables :: "(string \<Rightarrow> nat) \<Rightarrow> sup_node \<Rightarrow> string list" where
  "liveRunnables ord root = sort (live_loop ord [([], root)] [] [])"

section \<open>The supervisor and its environment\<close>

datatype processorRequest = ReqSchedule string | ReqDied string run_err | ReqWaitSettled nat

datatype sup_mode = Processing | Liquidating | Exited

record supervisor =
  sv_root :: sup_node
  sv_pending :: "processorRequest list"
  sv_running :: "string list"
  sv_clean :: bool
  sv_cleanCycles :: nat
  sv_waiters :: "nat list"
  sv_settled :: "nat list"
  sv_mode :: sup_mode

text \<open>A panic in the processor ends the program. A runnable that panics in \<^verbatim>\<open>fromContext\<close> is recovered, but
  leaves the lock of the supervisor taken: every later operation blocks.\<close>

datatype sup_fail = Crash string | Deadlock | Diverges

definition sup_New :: supervisor where
  "sup_New =
     \<lparr>sv_root = sup_newNode, sv_pending = [ReqSchedule ''root''], sv_running = [], sv_clean = True, sv_cleanCycles = 0,
      sv_waiters = [], sv_settled = [], sv_mode = Processing\<rparr>"

definition crash :: "(string, 'a) result \<Rightarrow> (sup_fail, 'a) result" where
  "crash r = (case r of Inl msg \<Rightarrow> Inl (Crash msg) | Inr x \<Rightarrow> Inr x)"

definition markDirty :: "supervisor \<Rightarrow> supervisor" where
  "markDirty s = s\<lparr>sv_clean := False, sv_cleanCycles := 0\<rparr>"

text \<open>The goroutine that runs the runnable, or reports its panic, is one more running runnable.\<close>

definition processSchedule :: "string \<Rightarrow> supervisor \<Rightarrow> (sup_fail, supervisor) result" where
  "processSchedule dn s = rbind (crash (sup_nodeByDN dn (sv_root s))) (\<lambda>_. Inr (s\<lparr>sv_running := sv_running s @ [dn]\<rparr>))"

text \<open>The request case of the loop of \<^verbatim>\<open>processor\<close>.\<close>

definition processRequest :: "processorRequest \<Rightarrow> supervisor \<Rightarrow> (sup_fail, supervisor) result" where
  "processRequest r s =
     (case r of
        ReqSchedule dn \<Rightarrow> rbind (processSchedule dn s) (\<lambda>s1. Inr (markDirty s1))
      | ReqDied dn err \<Rightarrow>
          rbind (crash (processDied dn err (sv_root s))) (\<lambda>root1. Inr (markDirty (s\<lparr>sv_root := root1\<rparr>)))
      | ReqWaitSettled w \<Rightarrow> Inr (s\<lparr>sv_waiters := sv_waiters s @ [w]\<rparr>))"

text \<open>The body of the loop of \<^verbatim>\<open>liquidator\<close>.\<close>

definition liquidate_dn :: "string \<Rightarrow> supervisor \<Rightarrow> (sup_fail, supervisor) result" where
  "liquidate_dn dn s =
     rbind (crash (sup_nodeByDN dn (sv_root s))) (\<lambda>p. Inr (s\<lparr>sv_root := update_node p (set_state NodeStateDead) (sv_root s)\<rparr>))"

definition liquidateRequest :: "processorRequest \<Rightarrow> supervisor \<Rightarrow> (sup_fail, supervisor) result" where
  "liquidateRequest r s =
     rbind (case r of
              ReqSchedule dn \<Rightarrow> liquidate_dn dn s
            | ReqDied dn _ \<Rightarrow> liquidate_dn dn s
            | ReqWaitSettled _ \<Rightarrow> Inr s)
       (\<lambda>s1. Inr (if liveRunnables (\<lambda>_. 0) (sv_root s1) = [] then s1\<lparr>sv_mode := Exited\<rparr> else s1))"

text \<open>The tick of the loop of \<^verbatim>\<open>processor\<close>.\<close>

definition processTick :: "(nat \<Rightarrow> string \<Rightarrow> nat) \<Rightarrow> supervisor \<Rightarrow> (sup_fail, supervisor) result" where
  "processTick ord s =
     rbind (if sv_clean s then Inr s
            else case processGC ord (sv_root s) of
                   None \<Rightarrow> Inl Diverges
                 | Some r \<Rightarrow>
                     rbind (crash r) (\<lambda>(root1, dns). Inr (s\<lparr>sv_root := root1, sv_pending := sv_pending s @ map ReqSchedule dns\<rparr>)))
       (\<lambda>s1.
          let s2 = s1\<lparr>sv_clean := True, sv_cleanCycles := sv_cleanCycles s1 + 1\<rparr> in
          Inr (if sv_cleanCycles s2 > 50 then s2\<lparr>sv_settled := sv_settled s2 @ sv_waiters s2, sv_waiters := []\<rparr> else s2))"

text \<open>What can happen: the processor or the liquidator takes one of the requests; the ticker fires; the
  context of the supervisor is canceled; a runnable returns, panics or calls the supervisor; a test
  waits. The numbers choose a request or a running runnable.\<close>

datatype sup_event =
    EvRequest nat
  | EvTick "nat \<Rightarrow> string \<Rightarrow> nat"
  | EvShutdown
  | EvReturn nat run_err
  | EvRunGroup nat "string list"
  | EvSignal nat signalType
  | EvSubLogger nat string
  | EvWaitSettled nat

definition sup_return :: "nat \<Rightarrow> run_err \<Rightarrow> supervisor \<Rightarrow> supervisor" where
  "sup_return i err s = s\<lparr>sv_running := remove_at i (sv_running s), sv_pending := sv_pending s @ [ReqDied (sv_running s ! i) err]\<rparr>"

definition fromContext :: "nat \<Rightarrow> supervisor \<Rightarrow> (sup_fail, path) result" where
  "fromContext i s = (case sup_nodeByDN (sv_running s ! i) (sv_root s) of Inl _ \<Rightarrow> Inl Deadlock | Inr p \<Rightarrow> Inr p)"

definition RunGroup :: "nat \<Rightarrow> string list \<Rightarrow> supervisor \<Rightarrow> (sup_fail, supervisor) result" where
  "RunGroup i names s =
     rbind (fromContext i s) (\<lambda>p.
       case runGroup names (the (find_node p (sv_root s))) of
         (n1, Inl err) \<Rightarrow> Inr (s\<lparr>sv_root := update_node p (\<lambda>_. n1) (sv_root s)\<rparr>)
       | (n1, Inr names) \<Rightarrow>
           Inr (s\<lparr>sv_root := update_node p (\<lambda>_. n1) (sv_root s),
                  sv_pending := sv_pending s @ map (\<lambda>name. ReqSchedule (node_dn (p @ [name]))) names\<rparr>))"

definition sup_Run :: "nat \<Rightarrow> string \<Rightarrow> supervisor \<Rightarrow> (sup_fail, supervisor) result" where
  "sup_Run i name s = RunGroup i [name] s"

definition Signal :: "nat \<Rightarrow> signalType \<Rightarrow> supervisor \<Rightarrow> (sup_fail, supervisor) result" where
  "Signal i sig s =
     rbind (fromContext i s) (\<lambda>p.
       case node_signal sig (the (find_node p (sv_root s))) of
         Inl err \<Rightarrow> Inr (sup_return i ErrOther s)
       | Inr n1 \<Rightarrow> Inr (s\<lparr>sv_root := update_node p (\<lambda>_. n1) (sv_root s)\<rparr>))"

definition sup_SubLogger :: "nat \<Rightarrow> string \<Rightarrow> supervisor \<Rightarrow> (sup_fail, supervisor) result" where
  "sup_SubLogger i name s =
     rbind (fromContext i s) (\<lambda>p.
       case SubLogger name (the (find_node p (sv_root s))) of
         Inl err \<Rightarrow> Inr s
       | Inr n1 \<Rightarrow> Inr (s\<lparr>sv_root := update_node p (\<lambda>_. n1) (sv_root s)\<rparr>))"

text \<open>An event that is not possible has no effect.\<close>

definition sup_do :: "sup_event \<Rightarrow> supervisor \<Rightarrow> (sup_fail, supervisor) result" where
  "sup_do ev s =
     (case ev of
        EvRequest i \<Rightarrow>
          if i < length (sv_pending s) \<and> sv_mode s \<noteq> Exited then
            (let r = sv_pending s ! i; s1 = s\<lparr>sv_pending := remove_at i (sv_pending s)\<rparr> in
             if sv_mode s = Processing then processRequest r s1 else liquidateRequest r s1)
          else Inr s
      | EvTick ord \<Rightarrow> if sv_mode s = Processing then processTick ord s else Inr s
      | EvShutdown \<Rightarrow>
          Inr (if sv_mode s = Processing then s\<lparr>sv_root := processKill (sv_root s), sv_mode := Liquidating\<rparr> else s)
      | EvReturn i err \<Rightarrow> Inr (if i < length (sv_running s) then sup_return i err s else s)
      | EvRunGroup i names \<Rightarrow> if i < length (sv_running s) \<and> distinct names then RunGroup i names s else Inr s
      | EvSignal i sig \<Rightarrow> if i < length (sv_running s) then Signal i sig s else Inr s
      | EvSubLogger i name \<Rightarrow> if i < length (sv_running s) then sup_SubLogger i name s else Inr s
      | EvWaitSettled w \<Rightarrow> Inr (s\<lparr>sv_pending := sv_pending s @ [ReqWaitSettled w]\<rparr>))"

fun sup_run :: "sup_event list \<Rightarrow> supervisor \<Rightarrow> (sup_fail, supervisor) result" where
  "sup_run [] s = Inr s"
| "sup_run (ev # evs) s = rbind (sup_do ev s) (sup_run evs)"

end
