(* ===== verification/SupervisorGC.thy ===== *)
theory SupervisorGC
  imports Supervisor "HOL-Library.Sublist"
begin

text \<open>
  The restart logic of the supervisor, \<^verbatim>\<open>processGC\<close>: it returns for every well-formed tree, whatever
  order Go's maps are visited in, and does what a simple recursive definition says (\<open>restart\<close>): from
  the root down, every subtree that is down as a whole, whose top failed or was canceled and whose
  parent's context is still live, is reset.
\<close>

section \<open>Trees and paths\<close>

lemma find_node_append: "find_node (p @ q) n = Option.bind (find_node p n) (find_node q)"
  by (induction p n rule: find_node.induct) (auto split: option.splits)

lemma map_of_map_child: "map_of (map_child name f cs) k = (if k = name then map_option f (map_of cs k) else map_of cs k)"
  by (induction cs) auto

lemma keys_map_child [simp]: "map fst (map_child name f cs) = map fst cs"
  by (induction name f cs rule: map_child.induct) auto

lemma update_node_fields [simp]:
  "sn_state (update_node (x # p) f n) = sn_state n" "sn_canceled (update_node (x # p) f n) = sn_canceled n"
  "sn_groups (update_node (x # p) f n) = sn_groups n" "map fst (sn_children (update_node (x # p) f n)) = map fst (sn_children n)"
  by (cases n; simp)+

lemma map_of_update_node:
  "map_of (sn_children (update_node (x # p) f n)) k =
     (if k = x then map_option (update_node p f) (map_of (sn_children n) k) else map_of (sn_children n) k)"
  by (cases n) (simp add: map_of_map_child)

lemma find_update_below: "find_node (p @ q) (update_node p f n) = Option.bind (find_node p n) (\<lambda>m. find_node q (f m))"
proof (induction p arbitrary: n)
  case (Cons x p)
  then show ?case
    by (auto simp: map_of_update_node split: option.splits)
qed simp

lemma find_update_above: "find_node p (update_node (p @ x # q) f n) = map_option (update_node (x # q) f) (find_node p n)"
proof (induction p arbitrary: n)
  case (Cons y p)
  then show ?case
    by (auto simp: map_of_update_node split: option.splits)
qed simp

lemma find_update_other: "\<not> prefix p q \<Longrightarrow> \<not> prefix q p \<Longrightarrow> find_node q (update_node p f n) = find_node q n"
proof (induction p arbitrary: q n)
  case (Cons x p)
  then show ?case
    by (cases q) (auto simp: map_of_update_node split: option.splits)
qed simp

text \<open>A node is well-formed if the names of its children are distinct and free of dots and its groups
  name only children.\<close>

definition node_ok :: "sup_node \<Rightarrow> bool" where
  "node_ok n \<longleftrightarrow> distinct (map fst (sn_children n)) \<and> (\<forall>k \<in> set (map fst (sn_children n)). CHR ''.'' \<notin> set k) \<and>
     (\<forall>g \<in> set (sn_groups n). set g \<subseteq> set (map fst (sn_children n)))"

definition all_nodes :: "(sup_node \<Rightarrow> bool) \<Rightarrow> sup_node \<Rightarrow> bool" where
  "all_nodes P n \<longleftrightarrow> (\<forall>p m. find_node p n = Some m \<longrightarrow> P m)"

abbreviation wf_tree :: "sup_node \<Rightarrow> bool" where
  "wf_tree \<equiv> all_nodes node_ok"

lemma all_nodes_here: "all_nodes P n \<Longrightarrow> P n"
  unfolding all_nodes_def by (metis find_node.simps(1))

lemma all_nodes_find: "all_nodes P n \<Longrightarrow> find_node p n = Some m \<Longrightarrow> all_nodes P m"
  unfolding all_nodes_def
proof (intro allI impI)
  fix q k
  assume "\<forall>p m. find_node p n = Some m \<longrightarrow> P m" "find_node p n = Some m" "find_node q m = Some k"
  then show "P k"
    using find_node_append [of p q n] by auto
qed

lemma wf_child:
  assumes "wf_tree n" and "(k, c) \<in> set (sn_children n)"
  shows "map_of (sn_children n) k = Some c" "find_node [k] n = Some c" "wf_tree c"
proof -
  show k: "map_of (sn_children n) k = Some c"
    using all_nodes_here [OF assms(1)] assms(2) by (simp add: node_ok_def)
  then show f: "find_node [k] n = Some c"
    by simp
  show "wf_tree c"
    by (rule all_nodes_find [OF assms(1) f])
qed

lemma all_nodes_iff:
  assumes "wf_tree n"
  shows "all_nodes P n \<longleftrightarrow> P n \<and> (\<forall>(k, c) \<in> set (sn_children n). all_nodes P c)"
proof
  assume "all_nodes P n"
  then show "P n \<and> (\<forall>(k, c) \<in> set (sn_children n). all_nodes P c)"
    using all_nodes_here [of P n] all_nodes_find [of P n] wf_child(2) [OF assms] by blast
next
  assume h: "P n \<and> (\<forall>(k, c) \<in> set (sn_children n). all_nodes P c)"
  show "all_nodes P n"
    unfolding all_nodes_def
  proof (intro allI impI)
    fix p m
    assume "find_node p n = Some m"
    then show "P m"
    proof (cases p)
      case (Cons x q)
      then obtain c where c: "map_of (sn_children n) x = Some c" "find_node q c = Some m"
        using \<open>find_node p n = Some m\<close> by (auto split: option.splits)
      then have "all_nodes P c"
        using h by (auto dest: map_of_SomeD)
      then show ?thesis
        using c(2) by (auto simp: all_nodes_def)
    qed (use h in simp)
  qed
qed

lemma find_dot_free:
  assumes "wf_tree n" and "find_node p n = Some m"
  shows "\<forall>x \<in> set p. CHR ''.'' \<notin> set x"
  using assms
proof (induction p arbitrary: n)
  case (Cons x p)
  then obtain c where c: "map_of (sn_children n) x = Some c" "find_node p c = Some m"
    by (auto split: option.splits)
  then have "(x, c) \<in> set (sn_children n)"
    by (auto dest: map_of_SomeD)
  then show ?case
    using Cons.IH [OF wf_child(3) [OF Cons.prems(1)] c(2)] all_nodes_here [OF Cons.prems(1)] by (auto simp: node_ok_def)
qed simp

lemma split_node_dn: "\<forall>x \<in> set p. CHR ''.'' \<notin> set x \<Longrightarrow> split_on (CHR ''.'') (node_dn p) = ''root'' # p"
  unfolding node_dn_def by (rule split_on_join) auto

lemma node_dn_inj: "\<forall>x \<in> set p. CHR ''.'' \<notin> set x \<Longrightarrow> \<forall>x \<in> set q. CHR ''.'' \<notin> set x \<Longrightarrow> node_dn p = node_dn q \<longleftrightarrow> p = q"
  using split_node_dn [of p] split_node_dn [of q] by (metis list.inject)

lemma nodeByDN_found: "\<forall>x \<in> set p. CHR ''.'' \<notin> set x \<Longrightarrow> find_node p root = Some n \<Longrightarrow> sup_nodeByDN (node_dn p) root = Inr p"
  by (simp add: sup_nodeByDN_def split_node_dn)

lemma nodeByDN_wf: "wf_tree root \<Longrightarrow> find_node p root = Some n \<Longrightarrow> sup_nodeByDN (node_dn p) root = Inr p"
  using nodeByDN_found find_dot_free by blast

lemma dn_eq_iff: "wf_tree root \<Longrightarrow> find_node p root = Some n \<Longrightarrow> find_node q root = Some m \<Longrightarrow> node_dn p = node_dn q \<longleftrightarrow> p = q"
  using node_dn_inj find_dot_free by blast

section \<open>Phase one\<close>

definition leaf_paths :: "sup_node \<Rightarrow> path set" where
  "leaf_paths n = {p. \<exists>m. find_node p n = Some m \<and> sn_children m = []}"

lemma leaf_paths_rec:
  assumes "wf_tree n"
  shows "leaf_paths n = (if sn_children n = [] then {[]} else (\<Union>(k, c) \<in> set (sn_children n). (#) k ` leaf_paths c))"
proof -
  have cons: "x # q \<in> leaf_paths n \<longleftrightarrow> x # q \<in> (\<Union>(k, c) \<in> set (sn_children n). (#) k ` leaf_paths c)" for x q
  proof
    assume "x # q \<in> leaf_paths n"
    then obtain c where "map_of (sn_children n) x = Some c" "q \<in> leaf_paths c"
      by (auto simp: leaf_paths_def split: option.splits)
    then show "x # q \<in> (\<Union>(k, c) \<in> set (sn_children n). (#) k ` leaf_paths c)"
      by (auto dest: map_of_SomeD)
  next
    assume "x # q \<in> (\<Union>(k, c) \<in> set (sn_children n). (#) k ` leaf_paths c)"
    then obtain c where "(x, c) \<in> set (sn_children n)" "q \<in> leaf_paths c"
      by auto
    then show "x # q \<in> leaf_paths n"
      using wf_child(1) [OF assms] by (simp add: leaf_paths_def)
  qed
  show ?thesis
  proof (rule set_eqI)
    fix p
    show "p \<in> leaf_paths n \<longleftrightarrow>
        p \<in> (if sn_children n = [] then {[]} else (\<Union>(k, c) \<in> set (sn_children n). (#) k ` leaf_paths c))"
      using cons by (cases p) (auto simp: leaf_paths_def)
  qed
qed

lemma set_ordered: "set (ordered ord p n) = (\<lambda>(k, c). (p @ [k], c)) ` set (sn_children n)"
  by (simp add: ordered_def child_paths_def)

lemma gc_leaves_set:
  "\<forall>(p, n) \<in> set queue. wf_tree n \<Longrightarrow>
     set (gc_leaves ord queue leaves) = set leaves \<union> (\<Union>(p, n) \<in> set queue. (\<lambda>q. node_dn (p @ q)) ` leaf_paths n) \<and>
     (distinct leaves \<longrightarrow> distinct (gc_leaves ord queue leaves))"
proof (induction ord queue leaves rule: gc_leaves.induct)
  case (2 ord p n queue leaves)
  have wf: "wf_tree n"
    using "2.prems" by simp
  have "\<forall>(q, c) \<in> set (rev (ordered ord p n) @ queue). wf_tree c"
    using "2.prems" wf_child(3) [OF wf] by (auto simp: set_ordered)
  note ih = "2.IH" [OF this]
  have "(\<Union>(q, c) \<in> set (ordered ord p n). (\<lambda>r. node_dn (q @ r)) ` leaf_paths c) =
      (\<lambda>q. node_dn (p @ q)) ` (\<Union>(k, c) \<in> set (sn_children n). (#) k ` leaf_paths c)"
    by (force simp: set_ordered)
  then show ?case
    using ih leaf_paths_rec [OF wf] by (auto simp: set_insert)
qed simp

lemma lookup_all_wf:
  assumes "wf_tree root" and "\<forall>p \<in> set ps. find_node p root \<noteq> None"
  shows "lookup_all (map node_dn ps) root = Inr ps"
  using assms(2)
proof (induction ps)
  case (Cons p ps)
  then show ?case
    using nodeByDN_wf [OF assms(1), of p] by auto
qed simp

section \<open>Phase two\<close>

text \<open>The specification: a subtree is down if every node of it is.\<close>

fun subtree_down :: "sup_node \<Rightarrow> bool" where
  "subtree_down (SupNode st cn rs gs cs) \<longleftrightarrow> is_down st \<and> list_all (\<lambda>(k, c). subtree_down c) cs"

lemma subtree_down_rec: "subtree_down n \<longleftrightarrow> is_down (sn_state n) \<and> (\<forall>(k, c) \<in> set (sn_children n). subtree_down c)"
  by (cases n) (auto simp: list_all_iff)

lemma set_child_dns: "set (child_dns p n) = (\<lambda>(k, c). node_dn (p @ [k])) ` set (sn_children n)"
  by (force simp: child_dns_def child_paths_def)

definition gc_inv :: "sup_node \<Rightarrow> path list \<Rightarrow> string list \<Rightarrow> string list \<Rightarrow> bool" where
  "gc_inv root queue visited ready \<longleftrightarrow>
     (\<forall>p \<in> set queue. find_node p root \<noteq> None) \<and>
     (\<forall>p n. find_node p root = Some n \<longrightarrow> node_dn p \<in> set visited \<longrightarrow>
        set (child_dns p n) \<subseteq> set visited \<and> (node_dn p \<in> set ready \<longleftrightarrow> subtree_down n)) \<and>
     (\<forall>p n. find_node p root = Some n \<longrightarrow> node_dn p \<notin> set visited \<longrightarrow>
        (\<exists>q \<in> set queue. node_dn q \<notin> set visited \<and> prefix p q))"

lemma gc_inv_cong: "set q1 = set q2 \<Longrightarrow> gc_inv root q1 = gc_inv root q2"
  unfolding gc_inv_def by simp

definition processable :: "sup_node \<Rightarrow> string list \<Rightarrow> path \<Rightarrow> bool" where
  "processable root visited p \<longleftrightarrow> list_all (\<lambda>c. c \<in> set visited) (child_dns p (the (find_node p root)))"

lemma gc_ready_rotate:
  "\<forall>u \<in> set us. \<not> processable root visited u \<Longrightarrow> gc_ready root (us @ vs) visited ready = gc_ready root (vs @ us) visited ready"
proof (induction us arbitrary: vs)
  case (Cons u us)
  have "gc_ready root ((u # us) @ vs) visited ready = gc_ready root (us @ vs @ [u]) visited ready"
    using Cons.prems by (subst gc_ready.simps) (simp add: processable_def Let_def)
  also have "\<dots> = gc_ready root ((vs @ [u]) @ us) visited ready"
    using Cons.IH [of "vs @ [u]"] Cons.prems by simp
  finally show ?case
    by simp
qed simp

lemma child_found: "wf_tree root \<Longrightarrow> find_node p root = Some n \<Longrightarrow> (k, c) \<in> set (sn_children n) \<Longrightarrow> find_node (p @ [k]) root = Some c"
  using wf_child(2) [OF all_nodes_find [of node_ok root p n], of k c] by (simp add: find_node_append)

lemma queue_has_processable:
  assumes "wf_tree root" and inv: "gc_inv root queue visited ready" and "queue \<noteq> []"
  shows "\<exists>x \<in> set queue. processable root visited x"
proof (rule ccontr)
  assume none: "\<not> (\<exists>x \<in> set queue. processable root visited x)"
  obtain x where x: "x \<in> set queue" "\<forall>y \<in> set queue. length y \<le> length x"
  proof -
    have "Max (length ` set queue) \<in> length ` set queue"
      using assms(3) by (intro Max_in) auto
    then obtain x where "x \<in> set queue" "length x = Max (length ` set queue)"
      by auto
    then show ?thesis
      using that [of x] by simp
  qed
  obtain n where n: "find_node x root = Some n"
    using inv x(1) by (auto simp: gc_inv_def)
  obtain k c where k: "(k, c) \<in> set (sn_children n)" "node_dn (x @ [k]) \<notin> set visited"
    using none x(1) n by (auto simp: processable_def list_all_iff set_child_dns)
  obtain y where "y \<in> set queue" "prefix (x @ [k]) y"
    using inv child_found [OF assms(1) n k(1)] k(2) unfolding gc_inv_def by blast
  then show False
    using x(2) prefix_length_le by fastforce
qed

lemma gc_inv_step:
  assumes wf: "wf_tree root" and inv: "gc_inv root (x # q) visited ready" and x: "find_node x root = Some n"
    and proc: "set (child_dns x n) \<subseteq> set visited"
  defines "v \<equiv> List.insert (node_dn x) visited"
    and "r \<equiv> (if list_all (\<lambda>c. c \<in> set ready) (child_dns x n) \<and> is_down (sn_state n) then List.insert (node_dn x) ready else removeAll (node_dn x) ready)"
    and "q2 \<equiv> (if x \<noteq> [] \<and> node_dn (butlast x) \<notin> set (List.insert (node_dn x) visited) then q @ [butlast x] else q)"
  shows "gc_inv root q2 v r"
proof -
  have sv: "set v = insert (node_dn x) (set visited)"
    by (simp add: v_def)
  have kids: "node_dn (x @ [k]) \<in> set ready \<longleftrightarrow> subtree_down c" if "(k, c) \<in> set (sn_children n)" for k c
    using inv child_found [OF wf x that] proc that unfolding gc_inv_def by (force simp: set_child_dns)
  have rx: "node_dn x \<in> set r \<longleftrightarrow> subtree_down n"
  proof -
    have "list_all (\<lambda>c. c \<in> set ready) (child_dns x n) \<longleftrightarrow> (\<forall>(k, c) \<in> set (sn_children n). subtree_down c)"
      using kids by (force simp: set_child_dns list_all_iff)
    then show ?thesis
      by (simp add: r_def subtree_down_rec [of n])
  qed
  have rp: "node_dn p \<in> set r \<longleftrightarrow> node_dn p \<in> set ready" if "node_dn p \<noteq> node_dn x" for p
    using that by (auto simp: r_def)
  have found: "\<forall>p \<in> set q2. find_node p root \<noteq> None"
  proof -
    have "find_node (butlast x) root \<noteq> None" if "x \<noteq> []"
      using x find_node_append [of "butlast x" "[last x]" root] that by (cases "find_node (butlast x) root") auto
    then show ?thesis
      using inv by (auto simp: gc_inv_def q2_def)
  qed
  have vis: "set (child_dns p m) \<subseteq> set v \<and> (node_dn p \<in> set r \<longleftrightarrow> subtree_down m)"
    if "find_node p root = Some m" "node_dn p \<in> set v" for p m
  proof (cases "p = x")
    case True
    then show ?thesis
      using x that proc rx sv by auto
  next
    case False
    then have "node_dn p \<noteq> node_dn x"
      using dn_eq_iff [OF wf that(1) x] by simp
    then show ?thesis
      using inv that sv rp unfolding gc_inv_def by (metis insertE subset_insertI2)
  qed
  have cover: "\<exists>y \<in> set q2. node_dn y \<notin> set v \<and> prefix p y" if p: "find_node p root = Some m" "node_dn p \<notin> set v" for p m
  proof -
    obtain y where y: "y \<in> set (x # q)" "node_dn y \<notin> set visited" "prefix p y"
      using inv p sv unfolding gc_inv_def by (metis insert_iff)
    show ?thesis
    proof (cases "y = x")
      case False
      obtain my where "find_node y root = Some my"
        using inv y(1) unfolding gc_inv_def by blast
      then show ?thesis
        using False y dn_eq_iff [OF wf _ x] sv by (auto simp: q2_def)
    next
      case True
      obtain z where z: "x = p @ z"
        using y(3) unfolding True by (rule prefixE)
      have "z \<noteq> []"
      proof
        assume "z = []"
        then have "p = x"
          using z by simp
        then show False
          using p(2) unfolding sv by simp
      qed
      then have ne: "x \<noteq> []" and pre: "prefix p (butlast x)"
        using z by (simp_all add: butlast_append)
      obtain b where b: "find_node (butlast x) root = Some b" "find_node [last x] b = Some n"
        using x find_node_append [of "butlast x" "[last x]" root] ne by (cases "find_node (butlast x) root") auto
      then have "(last x, n) \<in> set (sn_children b)"
        by (auto split: option.splits dest: map_of_SomeD)
      then have "node_dn x \<in> set (child_dns (butlast x) b)"
        using ne by (force simp: set_child_dns)
      then have "node_dn (butlast x) \<notin> set visited"
        using inv b(1) y(2) True unfolding gc_inv_def by blast
      moreover have "butlast x \<noteq> x"
        using ne by (metis append_butlast_last_id append_self_conv list.distinct(1))
      ultimately have "node_dn (butlast x) \<notin> set v"
        using dn_eq_iff [OF wf b(1) x] sv by simp
      then show ?thesis
        using ne pre by (auto simp: q2_def v_def)
    qed
  qed
  show ?thesis
    unfolding gc_inv_def using found vis cover by blast
qed

lemma gc_ready_step:
  assumes wf: "wf_tree root" and inv: "gc_inv root queue visited ready" and "queue \<noteq> []"
  obtains queue1 visited1 ready1 where "gc_inv root queue1 visited1 ready1"
    "gc_ready root queue visited ready = gc_ready root queue1 visited1 ready1"
    "sum_list (map (\<lambda>p. Suc (length p)) queue1) < sum_list (map (\<lambda>p. Suc (length p)) queue)"
proof -
  obtain us x vs where q: "queue = us @ x # vs" "processable root visited x" "\<forall>u \<in> set us. \<not> processable root visited u"
    using split_list_first_prop [OF queue_has_processable [OF assms]] by blast
  obtain n where n: "find_node x root = Some n"
    using inv q(1) by (auto simp: gc_inv_def)
  let ?q = "vs @ us"
  let ?v = "List.insert (node_dn x) visited"
  let ?r = "if list_all (\<lambda>c. c \<in> set ready) (child_dns x n) \<and> is_down (sn_state n) then List.insert (node_dn x) ready else removeAll (node_dn x) ready"
  let ?q2 = "if x \<noteq> [] \<and> node_dn (butlast x) \<notin> set ?v then ?q @ [butlast x] else ?q"
  have "gc_inv root (x # ?q) visited ready"
  proof -
    have "set queue = set (x # ?q)"
      by (auto simp: q(1))
    then show ?thesis
      using inv gc_inv_cong [of queue "x # ?q" root] by simp
  qed
  moreover have "set (child_dns x n) \<subseteq> set visited"
    using q(2) n by (auto simp: processable_def list_all_iff)
  ultimately have inv2: "gc_inv root ?q2 ?v ?r"
    by (intro gc_inv_step [OF wf _ n])
  have eq: "gc_ready root queue visited ready = gc_ready root ?q2 ?v ?r"
  proof -
    have "gc_ready root queue visited ready = gc_ready root (x # ?q) visited ready"
      using gc_ready_rotate [OF q(3), of "x # vs" ready] q(1) by simp
    also have "\<dots> = gc_ready root ?q2 ?v ?r"
      using q(2) n by (subst gc_ready.simps) (simp add: Let_def processable_def)
    finally show ?thesis .
  qed
  have "sum_list (map (\<lambda>p. Suc (length p)) ?q2) < sum_list (map (\<lambda>p. Suc (length p)) queue)"
    by (cases x) (simp_all add: q(1))
  then show ?thesis
    using that [OF inv2 eq] by blast
qed

lemma gc_ready_correct:
  assumes "wf_tree root"
  shows "gc_inv root queue visited ready \<Longrightarrow>
    \<exists>res. gc_ready root queue visited ready = Some res \<and>
      (\<forall>p n. find_node p root = Some n \<longrightarrow> (node_dn p \<in> set res \<longleftrightarrow> subtree_down n))"
proof (induction "sum_list (map (\<lambda>p. Suc (length p)) queue)" arbitrary: queue visited ready rule: less_induct)
  case less
  show ?case
  proof (cases "queue = []")
    case True
    then have "gc_ready root queue visited ready = Some ready"
      by (subst gc_ready.simps) simp
    then show ?thesis
      using less.prems True unfolding gc_inv_def by (metis empty_iff list.set(1))
  next
    case False
    then show ?thesis
      using gc_ready_step [OF assms less.prems] less.hyps by metis
  qed
qed

section \<open>Phase three\<close>

text \<open>The specification of the restarts, and the paths it resets.\<close>

fun restart :: "bool \<Rightarrow> sup_node \<Rightarrow> sup_node" where
  "restart perr (SupNode st cn rs gs cs) =
     (if wants_restart st \<and> subtree_down (SupNode st cn rs gs cs) \<and> \<not> perr then node_reset
      else SupNode st cn rs gs (map (\<lambda>(k, c). (k, restart (perr \<or> cn) c)) cs))"

fun restart_paths :: "bool \<Rightarrow> sup_node \<Rightarrow> path set" where
  "restart_paths perr (SupNode st cn rs gs cs) =
     (if wants_restart st \<and> subtree_down (SupNode st cn rs gs cs) \<and> \<not> perr then {[]}
      else (\<Union>(k, c) \<in> set cs. (#) k ` restart_paths (perr \<or> cn) c))"

lemma restart_paths_rec:
  "restart_paths perr n = (if wants_restart (sn_state n) \<and> subtree_down n \<and> \<not> perr then {[]}
     else (\<Union>(k, c) \<in> set (sn_children n). (#) k ` restart_paths (perr \<or> sn_canceled n) c))"
  by (cases n) simp

definition parent_err :: "path \<Rightarrow> sup_node \<Rightarrow> bool" where
  "parent_err p root \<longleftrightarrow> p \<noteq> [] \<and> ctx_Err (butlast p) root"

lemma ctx_Err_snoc: "find_node p root = Some n \<Longrightarrow> ctx_Err (p @ [k]) root \<longleftrightarrow> ctx_Err p root \<or> (\<exists>c. map_of (sn_children n) k = Some c \<and> sn_canceled c)"
  by (induction p root rule: find_node.induct) (auto split: option.splits)

lemma ctx_Err_parent: "find_node p root = Some n \<Longrightarrow> ctx_Err p root \<longleftrightarrow> parent_err p root \<or> sn_canceled n"
proof (cases p rule: rev_cases)
  case (snoc q k)
  assume "find_node p root = Some n"
  then obtain m where "find_node q root = Some m" "map_of (sn_children m) k = Some n"
    by (cases "find_node q root") (auto simp: snoc find_node_append split: option.splits)
  then show ?thesis
    using ctx_Err_snoc [of q root m k] by (simp add: parent_err_def snoc)
qed (simp add: parent_err_def)

lemma gc_can_set:
  assumes wf: "wf_tree root" and ready: "\<And>p n. find_node p root = Some n \<Longrightarrow> node_dn p \<in> set ready \<longleftrightarrow> subtree_down n"
  shows "\<forall>(p, n) \<in> set queue. find_node p root = Some n \<Longrightarrow>
    \<forall>d \<in> set want. \<forall>p n. find_node p root = Some n \<longrightarrow> node_dn p = d \<longrightarrow> wants_restart (sn_state n) \<Longrightarrow>
    set (gc_can ord root ready queue want can) =
      set can \<union> (\<Union>(p, n) \<in> set queue. (\<lambda>q. node_dn (p @ q)) ` restart_paths (parent_err p root) n) \<and>
    (distinct can \<longrightarrow> distinct (gc_can ord root ready queue want can))"
proof (induction "sum_list (map (\<lambda>(p, n). Suc (size n)) queue)" arbitrary: queue want can rule: less_induct)
  case less
  show ?case
  proof (cases queue)
    case (Cons pn qs)
    obtain p n where pn: "pn = (p, n)"
      by (cases pn)
    have p: "find_node p root = Some n"
      using less.prems(1) by (simp add: Cons pn)
    define want1 where "want1 = (if wants_restart (sn_state n) then List.insert (node_dn p) want else want)"
    have want1: "\<forall>d \<in> set want1. \<forall>p n. find_node p root = Some n \<longrightarrow> node_dn p = d \<longrightarrow> wants_restart (sn_state n)"
    proof (intro ballI allI impI)
      fix d q m
      assume d: "d \<in> set want1" "find_node q root = Some m" "node_dn q = d"
      show "wants_restart (sn_state m)"
      proof (cases "d \<in> set want")
        case False
        then have "wants_restart (sn_state n)" "d = node_dn p"
          using d(1) by (auto simp: want1_def split: if_splits)
        then show ?thesis
          using dn_eq_iff [OF wf d(2) p] d p by auto
      qed (use less.prems(2) d in blast)
    qed
    have in_want: "node_dn p \<in> set want1 \<longleftrightarrow> wants_restart (sn_state n)"
    proof
      assume "node_dn p \<in> set want1"
      then show "wants_restart (sn_state n)"
        using want1 p by blast
    qed (simp add: want1_def)
    let ?go = "wants_restart (sn_state n) \<and> subtree_down n \<and> \<not> parent_err p root"
    have step: "gc_can ord root ready queue want can =
        (if ?go then gc_can ord root ready qs want1 (List.insert (node_dn p) can)
         else gc_can ord root ready (qs @ ordered ord p n) want1 can)"
      using in_want ready [OF p] by (auto simp: Cons pn Let_def want1_def [symmetric] parent_err_def)
    show ?thesis
    proof (cases ?go)
      case True
      have "set (gc_can ord root ready qs want1 (List.insert (node_dn p) can)) = set (List.insert (node_dn p) can) \<union>
          (\<Union>(p, n) \<in> set qs. (\<lambda>q. node_dn (p @ q)) ` restart_paths (parent_err p root) n) \<and>
          (distinct (List.insert (node_dn p) can) \<longrightarrow> distinct (gc_can ord root ready qs want1 (List.insert (node_dn p) can)))"
        using less.hyps [of qs want1 "List.insert (node_dn p) can"] less.prems(1) want1 by (simp add: Cons pn)
      then show ?thesis
        using True step restart_paths_rec [of "parent_err p root" n] by (simp add: Cons pn)
    next
      case False
      have kids: "\<forall>(q, c) \<in> set (ordered ord p n). find_node q root = Some c"
        using child_found [OF wf p] by (auto simp: set_ordered)
      have err: "parent_err (p @ [k]) root \<longleftrightarrow> parent_err p root \<or> sn_canceled n" for k
        using ctx_Err_parent [OF p] by (simp add: parent_err_def)
      have rp: "restart_paths (parent_err p root) n =
          (\<Union>(k, c) \<in> set (sn_children n). (#) k ` restart_paths (parent_err p root \<or> sn_canceled n) c)"
        by (subst restart_paths_rec) (simp only: False if_False)
      have "(\<Union>(q, c) \<in> set (ordered ord p n). (\<lambda>r. node_dn (q @ r)) ` restart_paths (parent_err q root) c) =
          (\<lambda>q. node_dn (p @ q)) ` restart_paths (parent_err p root) n"
        unfolding rp by (force simp: set_ordered err)
      then have un: "(\<Union>(p, n) \<in> set (qs @ ordered ord p n). (\<lambda>q. node_dn (p @ q)) ` restart_paths (parent_err p root) n) =
          (\<Union>(p, n) \<in> set queue. (\<lambda>q. node_dn (p @ q)) ` restart_paths (parent_err p root) n)"
        by (simp add: Cons pn Un_commute)
      have dec: "sum_list (map (\<lambda>(p, n). Suc (size n)) (qs @ ordered ord p n)) < sum_list (map (\<lambda>(p, n). Suc (size n)) queue)"
        using size_ordered [of ord p n] by (simp add: Cons pn)
      have found: "\<forall>(q, c) \<in> set (qs @ ordered ord p n). find_node q root = Some c"
        using less.prems(1) kids by (simp add: Cons ball_Un)
      have eq: "gc_can ord root ready queue want can = gc_can ord root ready (qs @ ordered ord p n) want1 can"
        unfolding step by (simp only: False if_False)
      show ?thesis
        unfolding eq using less.hyps [OF dec found want1, of can] unfolding un .
    qed
  qed simp
qed

section \<open>The restarts\<close>

abbreviation reset_at :: "path \<Rightarrow> sup_node \<Rightarrow> sup_node" where
  "reset_at p \<equiv> update_node p (\<lambda>_. node_reset)"

definition tails :: "string \<Rightarrow> path list \<Rightarrow> path list" where
  "tails k ps = map tl (filter (\<lambda>p. hd p = k) ps)"

lemma map_child_distinct: "distinct (map fst cs) \<Longrightarrow> map_child name f cs = map (\<lambda>(k, c). (k, if k = name then f c else c)) cs"
proof (induction name f cs rule: map_child.induct)
  case (2 name f k c cs)
  then have "map (\<lambda>(k, c). (k, if k = name then f c else c)) cs = cs" if "k = name"
    using that by (intro map_idI) force
  then show ?case
    using 2 by simp
qed simp

lemma fold_reset_children:
  assumes "distinct (map fst cs)" and "\<forall>p \<in> set ps. p \<noteq> []"
  shows "fold reset_at ps (SupNode st cn rs gs cs) = SupNode st cn rs gs (map (\<lambda>(k, c). (k, fold reset_at (tails k ps) c)) cs)"
  using assms
proof (induction ps arbitrary: cs)
  case (Cons p ps)
  obtain x q where p: "p = x # q"
    using Cons.prems(2) by (cases p) auto
  let ?cs = "map (\<lambda>(k, c). (k, if k = x then reset_at q c else c)) cs"
  have "map fst ?cs = map fst cs"
    by (simp add: split_def)
  then have d: "distinct (map fst ?cs)"
    using Cons.prems(1) by metis
  have "fold reset_at (p # ps) (SupNode st cn rs gs cs) = fold reset_at ps (SupNode st cn rs gs ?cs)"
    using Cons.prems(1) by (simp add: p map_child_distinct)
  also have "\<dots> = SupNode st cn rs gs (map (\<lambda>(k, c). (k, fold reset_at (tails k ps) c)) ?cs)"
    using Cons.IH [OF d] Cons.prems(2) by simp
  also have "map (\<lambda>(k, c). (k, fold reset_at (tails k ps) c)) ?cs = map (\<lambda>(k, c). (k, fold reset_at (tails k (p # ps)) c)) cs"
    by (auto simp: p tails_def)
  finally show ?case .
qed (simp add: tails_def)

lemma tails_facts:
  assumes "\<forall>p \<in> set ps. p \<noteq> []"
  shows "set (tails k ps) = {q. k # q \<in> set ps}" "distinct ps \<Longrightarrow> distinct (tails k ps)"
proof -
  show "set (tails k ps) = {q. k # q \<in> set ps}"
    using assms by (force simp: tails_def image_iff)
  have "inj_on tl (set (filter (\<lambda>p. hd p = k) ps))"
    using assms by (auto simp: inj_on_def) (metis list.collapse)
  then show "distinct ps \<Longrightarrow> distinct (tails k ps)"
    by (simp add: tails_def distinct_map)
qed

lemma restart_fold:
  "wf_tree n \<Longrightarrow> distinct ps \<Longrightarrow> set ps = restart_paths perr n \<Longrightarrow> fold reset_at ps n = restart perr n"
proof (induction perr n arbitrary: ps rule: restart.induct)
  case (1 perr st cn rs gs cs)
  let ?n = "SupNode st cn rs gs cs"
  show ?case
  proof (cases "wants_restart st \<and> subtree_down ?n \<and> \<not> perr")
    case True
    then have "set ps = {[]}"
      using "1.prems"(3) by (simp only: restart_paths.simps True simp_thms if_True)
    then have "ps = [[]]"
      using "1.prems"(2) by (cases ps; cases "tl ps") auto
    then show ?thesis
      using True by (simp del: subtree_down.simps)
  next
    case False
    have set: "set ps = (\<Union>(k, c) \<in> set cs. (#) k ` restart_paths (perr \<or> cn) c)"
      using "1.prems"(3) by (simp only: restart_paths.simps False if_False)
    then have ne: "\<forall>p \<in> set ps. p \<noteq> []"
      by auto
    have d: "distinct (map fst cs)"
      using all_nodes_here [OF "1.prems"(1)] by (simp add: node_ok_def)
    have "fold reset_at (tails k ps) c = restart (perr \<or> cn) c" if kc: "(k, c) \<in> set cs" for k c
    proof -
      have "set (tails k ps) = restart_paths (perr \<or> cn) c"
        using kc d by (auto simp: tails_facts(1) [OF ne] set dest: eq_key_imp_eq_value)
      moreover have "wf_tree c"
        using wf_child(3) [OF "1.prems"(1), of k c] kc by simp
      ultimately show ?thesis
        using "1.IH" [OF False kc refl, of "tails k ps"] tails_facts(2) [OF ne "1.prems"(2)] by simp
    qed
    then have "map (\<lambda>(k, c). (k, fold reset_at (tails k ps) c)) cs = map (\<lambda>(k, c). (k, restart (perr \<or> cn) c)) cs"
      by auto
    then show ?thesis
      using fold_reset_children [OF d ne] by (simp only: restart.simps False if_False)
  qed
qed

lemma restart_paths_found: "wf_tree n \<Longrightarrow> p \<in> restart_paths perr n \<Longrightarrow> find_node p n \<noteq> None"
proof (induction perr n arbitrary: p rule: restart_paths.induct)
  case (1 perr st cn rs gs cs)
  show ?case
  proof (cases "wants_restart st \<and> subtree_down (SupNode st cn rs gs cs) \<and> \<not> perr")
    case False
    then obtain k c q where kc: "(k, c) \<in> set cs" "p = k # q" "q \<in> restart_paths (perr \<or> cn) c"
      using "1.prems"(2) by (auto simp del: subtree_down.simps)
    then have "find_node q c \<noteq> None"
      using "1.IH" [OF False kc(1) refl _ kc(3)] wf_child(3) [OF "1.prems"(1), of k c] by simp
    then show ?thesis
      using wf_child(1) [OF "1.prems"(1), of k c] kc by simp
  qed (use "1.prems"(2) in \<open>simp del: subtree_down.simps\<close>)
qed

lemma restart_paths_antichain: "wf_tree n \<Longrightarrow> p \<in> restart_paths perr n \<Longrightarrow> q \<in> restart_paths perr n \<Longrightarrow> prefix p q \<Longrightarrow> p = q"
proof (induction perr n arbitrary: p q rule: restart_paths.induct)
  case (1 perr st cn rs gs cs)
  show ?case
  proof (cases "wants_restart st \<and> subtree_down (SupNode st cn rs gs cs) \<and> \<not> perr")
    case False
    obtain k c p1 where p: "(k, c) \<in> set cs" "p = k # p1" "p1 \<in> restart_paths (perr \<or> cn) c"
      using "1.prems"(2) False by (auto simp del: subtree_down.simps)
    obtain k2 c2 q1 where q: "(k2, c2) \<in> set cs" "q = k2 # q1" "q1 \<in> restart_paths (perr \<or> cn) c2"
      using "1.prems"(3) False by (auto simp del: subtree_down.simps)
    have "k2 = k"
      using "1.prems"(4) p(2) q(2) by simp
    then have "c2 = c"
      using wf_child(1) [OF "1.prems"(1), of k c] wf_child(1) [OF "1.prems"(1), of k2 c2] p(1) q(1) by simp
    then show ?thesis
      using "1.IH" [OF False p(1) refl _ p(3)] wf_child(3) [OF "1.prems"(1), of k c] p q "1.prems"(4) by simp
  qed (use "1.prems" in \<open>simp del: subtree_down.simps\<close>)
qed

lemma restart_all_fold:
  assumes "distinct ps" and "\<forall>p \<in> set ps. find_node p root \<noteq> None \<and> (\<forall>x \<in> set p. CHR ''.'' \<notin> set x)"
    and "\<forall>p \<in> set ps. \<forall>q \<in> set ps. prefix p q \<longrightarrow> p = q"
  shows "restart_all (map node_dn ps) root = Inr (fold reset_at ps root)"
  using assms
proof (induction ps arbitrary: root)
  case (Cons p ps)
  have "find_node q (reset_at p root) = find_node q root" if "q \<in> set ps" for q
    using that Cons.prems(1,3) by (intro find_update_other) auto
  then show ?case
    using Cons nodeByDN_found [of p root] by auto
qed simp

lemma gc_inv_start:
  assumes wf: "wf_tree root" and "set queue = leaf_paths root"
  shows "gc_inv root queue [] []"
proof -
  have leaf: "\<exists>q \<in> leaf_paths n. True" for n
  proof (induction n)
    case (SupNode st cn rs gs cs)
    show ?case
    proof (cases cs)
      case (Cons kc cs')
      obtain k c where kc: "kc = (k, c)"
        by (cases kc)
      then obtain q where "q \<in> leaf_paths c"
        using SupNode [of kc c] by (auto simp: Cons)
      then have "k # q \<in> leaf_paths (SupNode st cn rs gs cs)"
        by (simp add: leaf_paths_def Cons kc)
      then show ?thesis
        by blast
    qed (auto simp: leaf_paths_def intro!: exI [of _ "[]"])
  qed
  have "\<exists>q \<in> leaf_paths root. prefix p q" if p: "find_node p root = Some n" for p n
  proof -
    obtain q m where "find_node q n = Some m" "sn_children m = []"
      using leaf [of n] unfolding leaf_paths_def by blast
    then have "p @ q \<in> leaf_paths root"
      using p by (simp add: leaf_paths_def find_node_append)
    then show ?thesis
      by (intro bexI [of _ "p @ q"]) simp_all
  qed
  moreover have "\<forall>p \<in> leaf_paths root. find_node p root \<noteq> None"
    by (auto simp: leaf_paths_def)
  ultimately show ?thesis
    unfolding gc_inv_def assms(2) by simp
qed

lemma paths_of_dns:
  assumes wf: "wf_tree root" and "set dns = node_dn ` A" and "\<forall>p \<in> A. find_node p root \<noteq> None"
  obtains ps where "dns = map node_dn ps" "set ps = A"
proof -
  have inj: "inj_on node_dn A"
    using assms(3) dn_eq_iff [OF wf] by (fastforce simp: inj_on_def)
  define ps where "ps = map (inv_into A node_dn) dns"
  have "dns = map node_dn ps"
    using assms(2) by (auto simp: ps_def f_inv_into_f intro!: map_idI [symmetric])
  moreover have "set ps = A"
    using assms(2) inj by (simp add: ps_def image_comp)
  ultimately show ?thesis
    using that by blast
qed

lemma processGC_correct:
  assumes wf: "wf_tree root"
  shows "\<exists>dns. processGC ord root = Some (Inr (restart False root, dns)) \<and> distinct dns \<and> set dns = node_dn ` restart_paths False root"
proof -
  let ?l = "sort_key (ord 1) (gc_leaves (ord 0) [([], root)] [])"
  have "set ?l = node_dn ` leaf_paths root"
    using gc_leaves_set [of "[([], root)]" "ord 0" "[]"] wf by simp
  moreover have "\<forall>p \<in> leaf_paths root. find_node p root \<noteq> None"
    by (auto simp: leaf_paths_def)
  ultimately obtain queue where q: "?l = map node_dn queue" "set queue = leaf_paths root"
    by (rule paths_of_dns [OF wf])
  then have look: "lookup_all ?l root = Inr queue"
    using lookup_all_wf [OF wf, of queue] by (auto simp: leaf_paths_def)
  obtain ready where ready: "gc_ready root queue [] [] = Some ready"
      "\<And>p n. find_node p root = Some n \<Longrightarrow> node_dn p \<in> set ready \<longleftrightarrow> subtree_down n"
    using gc_ready_correct [OF wf gc_inv_start [OF wf q(2)]] by blast
  let ?d = "sort_key (ord 3) (gc_can (ord 2) root ready [([], root)] [] [])"
  have d: "set ?d = node_dn ` restart_paths False root" "distinct ?d"
    using gc_can_set [OF wf ready(2), of "[([], root)]" "[]" "ord 2" "[]"] by (simp_all add: parent_err_def)
  have found: "\<forall>p \<in> restart_paths False root. find_node p root \<noteq> None"
    using restart_paths_found [OF wf] by blast
  then obtain ps where ps: "?d = map node_dn ps" "set ps = restart_paths False root"
    using paths_of_dns [OF wf d(1)] by blast
  have dist: "distinct ps"
    using d(2) unfolding ps(1) by (simp add: distinct_map)
  have "restart_all (map node_dn ps) root = Inr (fold reset_at ps root)"
    using restart_all_fold [OF dist] found find_dot_free [OF wf] restart_paths_antichain [OF wf] ps(2) by blast
  then have "restart_all ?d root = Inr (restart False root)"
    unfolding ps(1) using restart_fold [OF wf dist ps(2)] by simp
  then have "processGC ord root = Some (Inr (restart False root, ?d))"
    unfolding processGC_def look by (simp add: ready(1) Let_def del: gc_can.simps)
  then show ?thesis
    using d by blast
qed

lemma node_reset_wf: "wf_tree node_reset" "restart_paths perr node_reset = {}" "\<not> subtree_down node_reset"
proof -
  have "find_node p node_reset = Some m \<Longrightarrow> m = node_reset" for p m
    by (cases p) (auto simp: node_reset_def)
  then show "wf_tree node_reset"
    by (force simp: all_nodes_def node_ok_def node_reset_def)
qed (simp_all add: node_reset_def is_down_def wants_restart_def)

lemma wf_treeI: "node_ok n \<Longrightarrow> \<forall>(k, c) \<in> set (sn_children n). wf_tree c \<Longrightarrow> wf_tree n"
  unfolding all_nodes_def
proof (intro allI impI)
  fix p m
  assume h: "node_ok n" "\<forall>(k, c) \<in> set (sn_children n). \<forall>p m. find_node p c = Some m \<longrightarrow> node_ok m" "find_node p n = Some m"
  then show "node_ok m"
    by (cases p) (auto split: option.splits dest!: map_of_SomeD)
qed

lemma wf_tree_SupNode:
  "wf_tree (SupNode st cn rs gs cs) \<longleftrightarrow> node_ok (SupNode st cn rs gs cs) \<and> (\<forall>(k, c) \<in> set cs. wf_tree c)"
proof
  assume wf: "wf_tree (SupNode st cn rs gs cs)"
  then show "node_ok (SupNode st cn rs gs cs) \<and> (\<forall>(k, c) \<in> set cs. wf_tree c)"
    using wf_child(3) [OF wf] all_nodes_here [OF wf] by auto
qed (intro wf_treeI, auto)

lemma restart_wf: "wf_tree n \<Longrightarrow> wf_tree (restart perr n)"
proof (induction perr n rule: restart.induct)
  case (1 perr st cn rs gs cs)
  show ?case
  proof (cases "wants_restart st \<and> subtree_down (SupNode st cn rs gs cs) \<and> \<not> perr")
    case True
    then show ?thesis
      by (simp del: subtree_down.simps add: node_reset_wf)
  next
    case False
    let ?cs = "map (\<lambda>(k, c). (k, restart (perr \<or> cn) c)) cs"
    have "map fst ?cs = map fst cs"
      by (simp add: split_def)
    then have "node_ok (SupNode st cn rs gs ?cs)"
      using all_nodes_here [OF "1.prems"] by (simp add: node_ok_def del: map_map set_map)
    moreover have "wf_tree (restart (perr \<or> cn) c)" if "(k, c) \<in> set cs" for k c
      using "1.IH" [OF False that refl] wf_child(3) [OF "1.prems", of k c] that by simp
    ultimately have "wf_tree (SupNode st cn rs gs ?cs)"
      by (intro wf_treeI) auto
    then show ?thesis
      by (simp only: restart.simps False if_False)
  qed
qed

lemma restart_down: "subtree_down (restart perr n) \<Longrightarrow> restart perr n = n"
proof (induction perr n rule: restart.induct)
  case (1 perr st cn rs gs cs)
  show ?case
  proof (cases "wants_restart st \<and> subtree_down (SupNode st cn rs gs cs) \<and> \<not> perr")
    case True
    then show ?thesis
      using "1.prems" by (simp del: subtree_down.simps add: node_reset_wf)
  next
    case False
    have "subtree_down (SupNode st cn rs gs (map (\<lambda>(k, c). (k, restart (perr \<or> cn) c)) cs))"
      using "1.prems" by (simp only: restart.simps False if_False)
    then have "restart (perr \<or> cn) c = c" if "(k, c) \<in> set cs" for k c
      using "1.IH" [OF False that refl] that by (force simp: list_all_iff)
    then have "map (\<lambda>(k, c). (k, restart (perr \<or> cn) c)) cs = cs"
      by (intro map_idI) auto
    then show ?thesis
      by (simp only: restart.simps False if_False)
  qed
qed

lemma restart_settles: "restart_paths perr (restart perr n) = {}"
proof (induction perr n rule: restart.induct)
  case (1 perr st cn rs gs cs)
  let ?n = "SupNode st cn rs gs cs"
  show ?case
  proof (cases "wants_restart st \<and> subtree_down ?n \<and> \<not> perr")
    case True
    then show ?thesis
      by (simp del: subtree_down.simps add: node_reset_wf)
  next
    case False
    let ?cs = "map (\<lambda>(k, c). (k, restart (perr \<or> cn) c)) cs"
    have eq: "restart perr ?n = SupNode st cn rs gs ?cs"
      by (simp only: restart.simps False if_False)
    have "\<not> (wants_restart st \<and> subtree_down (SupNode st cn rs gs ?cs) \<and> \<not> perr)"
      using restart_down [of perr ?n] False unfolding eq by auto
    moreover have "restart_paths (perr \<or> cn) (restart (perr \<or> cn) c) = {}" if "(k, c) \<in> set cs" for k c
      by (rule "1.IH" [OF False that refl])
    ultimately show ?thesis
      unfolding eq by (auto simp del: subtree_down.simps)
  qed
qed

lemma restart_nothing: "wf_tree n \<Longrightarrow> restart_paths perr n = {} \<Longrightarrow> restart perr n = n"
  using restart_fold [of n "[]" perr] by simp

text \<open>C2: For every well-formed tree and whatever the order in which Go's maps are visited, the restart
  pass ends without a panic, and it resets and schedules exactly the subtrees that the recursive
  definition \<open>restart\<close> resets: from the root down, those that are down as a whole, whose top is DEAD or
  CANCELED and whose parent's context is live. The tree it leaves is well-formed, and a second pass
  at once would restart nothing.\<close>

theorem processGC_restarts:
  assumes "wf_tree root"
  shows "\<exists>dns. processGC ord root = Some (Inr (restart False root, dns)) \<and>
    distinct dns \<and> set dns = node_dn ` restart_paths False root \<and>
    wf_tree (restart False root) \<and> processGC ord' (restart False root) = Some (Inr (restart False root, []))"
proof -
  have wf: "wf_tree (restart False root)"
    by (rule restart_wf [OF assms])
  have "processGC ord' (restart False root) = Some (Inr (restart False root, []))"
    using processGC_correct [OF wf, of ord'] restart_nothing [OF wf] restart_settles [of False root] by auto
  then show ?thesis
    using processGC_correct [OF assms, of ord] wf by auto
qed

theorem processGC_restarts_witness:
  "\<exists>dns. processGC (\<lambda>_ _. 0)
      (SupNode NodeStateHealthy False [] [[''a'', ''b'']]
        [(''a'', SupNode NodeStateDead True [] [] [(''c'', SupNode NodeStateDone False [] [] [])]), (''b'', SupNode NodeStateCanceled True [] [] [])]) =
      Some (Inr (SupNode NodeStateHealthy False [] [[''a'', ''b'']] [(''a'', node_reset), (''b'', node_reset)], dns)) \<and>
    set dns = {''root.a'', ''root.b''}"
proof -
  let ?r = "SupNode NodeStateHealthy False [] [[''a'', ''b'']]
    [(''a'', SupNode NodeStateDead True [] [] [(''c'', SupNode NodeStateDone False [] [] [])]), (''b'', SupNode NodeStateCanceled True [] [] [])]"
  have "wf_tree ?r"
    by (simp add: wf_tree_SupNode node_ok_def)
  from processGC_restarts [OF this, of "\<lambda>_ _. 0" "\<lambda>_ _. 0"] show ?thesis
    by (simp add: wants_restart_def is_down_def node_dn_def) blast
qed

end
