(* ===== verification/SupervisorRuns.thy ===== *)
theory SupervisorRuns
  imports SupervisorGC "HOL-Library.Multiset"
begin

text \<open>
  Runs of the supervisor. Every runnable of the tree has at most one carrier: a request to schedule it, a
  goroutine that runs it, or a request that reports its return. This makes the supervisor safe: no
  request names a node that is gone, so the processor does not panic, \<^verbatim>\<open>fromContext\<close> does not take the
  lock for good and the restart pass ends. It holds as long as names have no dots and a runnable that
  signaled DONE has returned before a restart. Otherwise the return of such a runnable can crash the processor. The
  liquidator ends exactly if no node was CANCELED when the supervisor was shut down.
\<close>

section \<open>States by path\<close>

definition state_at :: "path \<Rightarrow> sup_node \<Rightarrow> nodeState option" where
  "state_at p root = map_option sn_state (find_node p root)"

lemma state_at_append: "find_node p root = Some n \<Longrightarrow> state_at (p @ q) root = state_at q n"
  by (simp add: state_at_def find_node_append)

lemma state_at_update:
  assumes "find_node p root = Some n"
  shows "state_at q (update_node p f root) = (if prefix p q then state_at (drop (length p) q) (f n) else state_at q root)"
proof (cases "prefix p q")
  case True
  then show ?thesis
    using assms by (auto simp: prefix_def state_at_def find_update_below)
next
  case False
  show ?thesis
  proof (cases "prefix q p")
    case True
    then obtain x r where "p = q @ x # r"
      using False by (metis append_Nil2 list.exhaust prefixE prefix_order.refl)
    then show ?thesis
      using False find_update_above [of q x r f root] by (simp add: state_at_def option.map_comp comp_def)
  qed (use False find_update_other in \<open>simp add: state_at_def\<close>)
qed

lemma state_at_Cons: "state_at (k # q) n = Option.bind (map_of (sn_children n) k) (state_at q)"
  by (auto simp: state_at_def split: option.splits)

lemma state_at_Nil [simp]: "state_at [] n = Some (sn_state n)"
  by (simp add: state_at_def)

lemma state_at_set:
  assumes "find_node p root = Some n" and "sn_children (f n) = sn_children n"
  shows "state_at q (update_node p f root) = (if q = p then Some (sn_state (f n)) else state_at q root)"
proof (cases "prefix p q")
  case True
  then obtain r where r: "q = p @ r"
    by (rule prefixE)
  then show ?thesis
    using assms state_at_update [OF assms(1), of q f] state_at_append [OF assms(1), of r]
    by (cases r) (auto simp: state_at_Cons)
qed (use state_at_update [OF assms(1), of q f] in auto)

lemma wf_update:
  assumes "wf_tree root" and "find_node p root = Some n" and "wf_tree (f n)"
  shows "wf_tree (update_node p f root)"
  using assms
proof (induction p arbitrary: root)
  case (Cons k p)
  obtain c where c: "map_of (sn_children root) k = Some c" "find_node p c = Some n"
    using Cons.prems(2) by (auto split: option.splits)
  have ok: "node_ok (update_node (k # p) f root)"
    using all_nodes_here [OF Cons.prems(1)] by (simp add: node_ok_def del: set_map)
  have "wf_tree d" if kd: "(j, d) \<in> set (sn_children (update_node (k # p) f root))" for j d
  proof -
    have "map_of (sn_children (update_node (k # p) f root)) j = Some d"
      using kd ok by (simp add: node_ok_def del: set_map update_node_fields)
    then have "d = update_node p f c \<or> (j, d) \<in> set (sn_children root)"
      using c(1) by (auto simp: map_of_update_node split: if_splits dest: map_of_SomeD)
    moreover have "wf_tree (update_node p f c)"
      using Cons.IH [OF _ c(2) Cons.prems(3)] wf_child(3) [OF Cons.prems(1) map_of_SomeD [OF c(1)]] by blast
    ultimately show ?thesis
      using wf_child(3) [OF Cons.prems(1)] by blast
  qed
  then show ?case
    using ok by (intro wf_treeI) auto
qed simp

lemma wf_same_children:
  assumes "wf_tree n" and "sn_children m = sn_children n" and "sn_groups m = sn_groups n"
  shows "wf_tree m"
  using assms all_nodes_here [OF assms(1)] wf_child(3) [OF assms(1)] by (intro wf_treeI) (auto simp: node_ok_def)

section \<open>Carriers\<close>

definition req_dn :: "processorRequest \<Rightarrow> string list" where
  "req_dn r = (case r of ReqSchedule dn \<Rightarrow> [dn] | ReqDied dn _ \<Rightarrow> [dn] | ReqWaitSettled _ \<Rightarrow> [])"

definition carriers :: "supervisor \<Rightarrow> string list" where
  "carriers s = concat (map req_dn (sv_pending s)) @ sv_running s"

fun carriers_ok :: "nodeState \<Rightarrow> nat \<Rightarrow> bool" where
  "carriers_ok NodeStateNew c = (c = 1)"
| "carriers_ok NodeStateHealthy c = (c = 1)"
| "carriers_ok NodeStateDone c = (c \<le> 1)"
| "carriers_ok NodeStateDead c = (c = 0)"
| "carriers_ok NodeStateCanceled c = (c = 0)"

lemma carriers_pos:
  "carriers_ok st c \<Longrightarrow> c > 0 \<Longrightarrow> st \<in> {NodeStateNew, NodeStateHealthy, NodeStateDone}" "carriers_ok st c \<Longrightarrow> c > 0 \<Longrightarrow> c = 1"
  by (cases st; simp)+

definition tree_inv :: "sup_node \<Rightarrow> string multiset \<Rightarrow> bool" where
  "tree_inv root T \<longleftrightarrow> wf_tree root \<and>
     (\<forall>p st. state_at p root = Some st \<longrightarrow> carriers_ok st (count T (node_dn p))) \<and>
     (\<forall>dn \<in># T. \<exists>p. state_at p root \<noteq> None \<and> dn = node_dn p)"

definition sup_inv :: "supervisor \<Rightarrow> bool" where
  "sup_inv s \<longleftrightarrow> tree_inv (sv_root s) (mset (carriers s))"

lemma state_dn_eq: "wf_tree root \<Longrightarrow> state_at p root \<noteq> None \<Longrightarrow> state_at q root \<noteq> None \<Longrightarrow> node_dn p = node_dn q \<longleftrightarrow> p = q"
  using dn_eq_iff [of root p _ q] by (auto simp: state_at_def)

text \<open>The node of a carrier is there, and it is not DEAD or CANCELED.\<close>

lemma carrier_node:
  assumes "tree_inv root T" and "dn \<in># T"
  obtains p n where "dn = node_dn p" "find_node p root = Some n" "sup_nodeByDN dn root = Inr p"
    "sn_state n \<in> {NodeStateNew, NodeStateHealthy, NodeStateDone}" "count T dn = 1"
proof -
  obtain p where p: "state_at p root \<noteq> None" "dn = node_dn p"
    using assms unfolding tree_inv_def by blast
  then obtain n where n: "find_node p root = Some n"
    by (auto simp: state_at_def)
  then have "carriers_ok (sn_state n) (count T dn)"
    using assms(1) p(2) by (simp add: tree_inv_def state_at_def)
  moreover have "count T dn > 0"
    using assms(2) by simp
  ultimately have "sn_state n \<in> {NodeStateNew, NodeStateHealthy, NodeStateDone}" "count T dn = 1"
    using carriers_pos by blast+
  moreover have "sup_nodeByDN dn root = Inr p"
    using nodeByDN_wf [OF _ n] assms(1) p(2) by (simp add: tree_inv_def)
  ultimately show ?thesis
    using that n p(2) by blast
qed

text \<open>A change of the state of one node that goes with its carriers.\<close>

lemma tree_inv_set:
  assumes inv: "tree_inv root T" and p: "find_node p root = Some n"
    and f: "sn_children (f n) = sn_children n" "sn_groups (f n) = sn_groups n"
    and T: "T' \<subseteq># T" "\<And>dn. dn \<noteq> node_dn p \<Longrightarrow> count T' dn = count T dn" "carriers_ok (sn_state (f n)) (count T' (node_dn p))"
  shows "tree_inv (update_node p f root) T'"
proof -
  have wf: "wf_tree root"
    using inv by (simp add: tree_inv_def)
  note st = state_at_set [of p root n f, OF p f(1)]
  have "carriers_ok s (count T' (node_dn q))" if "state_at q (update_node p f root) = Some s" for q s
  proof (cases "q = p")
    case False
    then have q: "state_at q root = Some s"
      using that st by simp
    then have "node_dn q \<noteq> node_dn p"
      using False q state_dn_eq [OF wf, of q p] p by (auto simp: state_at_def)
    then show ?thesis
      using inv q T(2) by (simp add: tree_inv_def)
  qed (use that st T(3) in simp)
  moreover have "wf_tree (update_node p f root)"
  proof (rule wf_update [OF wf p])
    have "wf_tree n"
      by (rule all_nodes_find [OF wf p])
    then show "wf_tree (f n)"
      using f by (rule wf_same_children)
  qed
  moreover have "\<exists>q. state_at q (update_node p f root) \<noteq> None \<and> dn = node_dn q" if dn: "dn \<in># T'" for dn
  proof -
    obtain q where "state_at q root \<noteq> None" "dn = node_dn q"
      using inv mset_subset_eqD [OF T(1) dn] unfolding tree_inv_def by blast
    moreover have "state_at q (update_node p f root) \<noteq> None"
      using st [of q] \<open>state_at q root \<noteq> None\<close> by (simp split: if_splits)
    ultimately show ?thesis
      by blast
  qed
  ultimately show ?thesis
    unfolding tree_inv_def by blast
qed

section \<open>The operations keep the invariant\<close>

lemma count_remove:
  assumes "count T dn = 1"
  shows "T - {#dn#} \<subseteq># T" "d \<noteq> dn \<Longrightarrow> count (T - {#dn#}) d = count T d" "count (T - {#dn#}) dn = 0"
  using assms by auto

lemma set_fields [simp]:
  "sn_children (set_state st n) = sn_children n" "sn_groups (set_state st n) = sn_groups n" "sn_state (set_state st n) = st"
  "sn_children (set_canceled n) = sn_children n" "sn_groups (set_canceled n) = sn_groups n" "sn_state (set_canceled n) = sn_state n"
  by (cases n; simp)+

lemma tree_inv_cancel:
  assumes "tree_inv root T" and "find_node p root = Some n"
  shows "tree_inv (update_node p set_canceled root) T"
  using assms by (intro tree_inv_set [OF assms]) (auto simp: tree_inv_def state_at_def)

lemma tree_inv_cancel_all:
  "tree_inv root T \<Longrightarrow> \<forall>q \<in> set qs. state_at q root \<noteq> None \<Longrightarrow> tree_inv (fold (\<lambda>q. update_node q set_canceled) qs root) T"
proof (induction qs arbitrary: root)
  case (Cons q qs)
  obtain n where n: "find_node q root = Some n"
    using Cons.prems(2) by (auto simp: state_at_def)
  have "state_at r (update_node q set_canceled root) \<noteq> None" if "r \<in> set qs" for r
    using Cons.prems(2) that state_at_set [of q root n set_canceled r] n by simp
  then show ?case
    using Cons.IH [OF tree_inv_cancel [OF Cons.prems(1) n]] by simp
qed simp

text \<open>The siblings in a group are children of the parent.\<close>

lemma siblings_found:
  assumes wf: "wf_tree root" and "find_node parent root = Some m" and "groupSiblings name m = Some g" and "sibling \<in> set g"
  shows "find_node (parent @ [sibling]) root \<noteq> None"
proof -
  have "node_ok m"
    by (rule all_nodes_here [OF all_nodes_find [OF assms(1,2)]])
  moreover have "g \<in> set (sn_groups m)"
    using assms(3) by (auto simp: groupSiblings_def find_Some_iff)
  ultimately have "sibling \<in> fst ` set (sn_children m)"
    using assms(4) by (auto simp: node_ok_def)
  then have "map_of (sn_children m) sibling \<noteq> None"
    by (simp add: map_of_eq_None_iff)
  then show ?thesis
    using assms(2) by (auto simp: find_node_append split: option.splits)
qed

lemma parent_found:
  assumes "find_node p root = Some n" and "p \<noteq> []"
  obtains m where "find_node (butlast p) root = Some m"
  using assms find_node_append [of "butlast p" "[last p]" root] by (cases "find_node (butlast p) root") auto

lemma map_child_id: "map_of cs k = Some c \<Longrightarrow> f c = c \<Longrightarrow> map_child k f cs = cs"
  by (induction cs) (auto split: if_splits)

lemma update_node_id: "find_node p root = Some n \<Longrightarrow> f n = n \<Longrightarrow> update_node p f root = root"
proof (induction p arbitrary: root)
  case (Cons k p)
  then show ?case
    using map_child_id [of "sn_children root" k _ "update_node p f"] by (cases root) (auto split: option.splits)
qed simp

lemma processDied_inv:
  assumes inv: "tree_inv root T" and dn: "dn \<in># T"
  obtains root1 where "processDied dn err root = Inr root1" "tree_inv root1 (T - {#dn#})"
proof -
  obtain p n where p: "dn = node_dn p" "find_node p root = Some n" "sup_nodeByDN dn root = Inr p" "count T dn = 1"
    using carrier_node [OF assms] by metis
  have step: "tree_inv (update_node p f root) (T - {#dn#})"
    if "sn_children (f n) = sn_children n" "sn_groups (f n) = sn_groups n" "carriers_ok (sn_state (f n)) 0" for f
    using that count_remove [OF p(4)] p(1) by (intro tree_inv_set [OF inv p(2)]) auto
  have wf: "wf_tree root"
    using inv by (simp add: tree_inv_def)
  let ?dead = "update_node p (\<lambda>n. set_canceled (set_state NodeStateDead n)) root"
  have dead: "tree_inv ?dead (T - {#dn#})"
    by (rule step) simp_all
  define g where "g = (case groupSiblings (last p) (the (find_node (butlast p) root)) of None \<Rightarrow> [] | Some m \<Rightarrow> m)"
  define sibs where "sibs = map (\<lambda>s. butlast p @ [s]) (filter (\<lambda>s. s \<noteq> last p) g)"
  have found: "find_node (butlast p @ [s]) root \<noteq> None" if "p \<noteq> []" "s \<in> set g" for s
    using that siblings_found [OF wf] parent_found [OF p(2) that(1)] by (metis empty_iff g_def list.set(1) option.case_eq_if option.collapse option.sel)
  consider (ok) "sn_state n = NodeStateDone" "err = ErrNil"
    | (canceled) "\<not> (sn_state n = NodeStateDone \<and> err = ErrNil)" "ctx_Err p root \<and> err = ErrContext"
    | (root) "\<not> (sn_state n = NodeStateDone \<and> err = ErrNil)" "\<not> (ctx_Err p root \<and> err = ErrContext)" "p = []"
    | (dead) "\<not> (sn_state n = NodeStateDone \<and> err = ErrNil)" "\<not> (ctx_Err p root \<and> err = ErrContext)" "p \<noteq> []"
    by blast
  then show ?thesis
  proof cases
    case ok
    have "update_node p (set_state NodeStateDone) root = root"
      using update_node_id [OF p(2)] ok(1) by (cases n) simp
    then show ?thesis
      using that [of root] step [of "set_state NodeStateDone"] p ok by (simp add: processDied_def)
  next
    case canceled
    then show ?thesis
      using that [of "update_node p (set_state NodeStateCanceled) root"] step [of "set_state NodeStateCanceled"] p by (auto simp: processDied_def)
  next
    case root
    then show ?thesis
      using that [of ?dead] dead p by (auto simp: processDied_def)
  next
    case dead
    have "state_at q ?dead \<noteq> None" if "q \<in> set sibs" for q
      using that found [OF dead(3)] state_at_set [OF p(2), of "\<lambda>n. set_canceled (set_state NodeStateDead n)" q]
      by (auto simp: sibs_def state_at_def split: if_splits)
    then have "tree_inv (fold (\<lambda>q. update_node q set_canceled) sibs ?dead) (T - {#dn#})"
      using tree_inv_cancel_all [OF \<open>tree_inv ?dead (T - {#dn#})\<close>] by blast
    moreover have "processDied dn err root = Inr (fold (\<lambda>q. update_node q set_canceled) sibs ?dead)"
    proof -
      have "\<not> list_ex (\<lambda>s. find_node (butlast p @ [s]) root = None) (filter (\<lambda>s. s \<noteq> last p) g)"
        using found [OF dead(3)] by (auto simp: list_ex_iff)
      then show ?thesis
        using dead p(2,3) by (auto simp: processDied_def Let_def g_def [symmetric] sibs_def fold_map comp_def)
    qed
    ultimately show ?thesis
      using that by blast
  qed
qed

subsection \<open>New runnables\<close>

lemma check_names_fresh: "check_names names n = None \<Longrightarrow> k \<in> set names \<Longrightarrow> map_of (sn_children n) k = None"
  by (induction names) (auto split: if_splits)

lemma create_children_fresh:
  "\<forall>k \<in> set names. groupSiblings k (SupNode st cn rs gs cs) = None \<Longrightarrow>
     create_children names (SupNode st cn rs gs cs) = (SupNode st cn rs gs (cs @ map (\<lambda>k. (k, sup_newNode)) names), None)"
  by (induction names arbitrary: cs) (auto simp: groupSiblings_def)

definition grown :: "string list \<Rightarrow> sup_node \<Rightarrow> sup_node" where
  "grown names n =
     SupNode (sn_state n) (sn_canceled n) (sn_reserved n) (sn_groups n @ [names]) (sn_children n @ map (\<lambda>k. (k, sup_newNode)) names)"

text \<open>In a well-formed tree a group is created as a whole or not at all.\<close>

lemma runGroup_cases:
  assumes "node_ok n"
  obtains err where "runGroup names n = (n, Inl err)"
  | "runGroup names n = (grown names n, Inr names)" "sn_state n = NodeStateNew" "\<forall>k \<in> set names. map_of (sn_children n) k = None"
proof (cases "sn_state n = NodeStateNew \<and> check_names names n = None")
  case True
  obtain st cn rs gs cs where n: "n = SupNode st cn rs gs cs"
    by (cases n)
  have fresh: "\<forall>k \<in> set names. map_of (sn_children n) k = None"
    using True check_names_fresh by blast
  have "groupSiblings k n = None" if "k \<in> set names" for k
  proof -
    have "k \<notin> fst ` set cs"
      using fresh that by (simp add: n map_of_eq_None_iff)
    moreover have "set g \<subseteq> fst ` set cs" if "g \<in> set gs" for g
      using assms that by (simp add: node_ok_def n)
    ultimately have "k \<notin> set g" if "g \<in> set gs" for g
      using that by blast
    then show ?thesis
      by (simp add: groupSiblings_def n find_None_iff)
  qed
  then have cc: "create_children names n = (SupNode st cn rs gs (cs @ map (\<lambda>k. (k, sup_newNode)) names), None)"
    using create_children_fresh [of names st cn rs gs cs] by (simp add: n)
  have "runGroup names n = (SupNode st cn rs (gs @ [names]) (cs @ map (\<lambda>k. (k, sup_newNode)) names), Inr names)"
    using True by (simp add: runGroup_def cc)
  then have "runGroup names n = (grown names n, Inr names)"
    by (simp add: grown_def n)
  then show ?thesis
    using that(2) True fresh by blast
next
  case False
  then have "\<exists>err. runGroup names n = (n, Inl err)"
    by (cases "check_names names n") (auto simp: runGroup_def)
  then show ?thesis
    using that(1) by blast
qed

lemma wf_newNode: "wf_tree sup_newNode"
  by (simp add: sup_newNode_def node_reset_wf)

lemma grown_wf:
  assumes wf: "wf_tree n" and "distinct names" and "\<forall>k \<in> set names. map_of (sn_children n) k = None \<and> CHR ''.'' \<notin> set k"
  shows "wf_tree (grown names n)"
proof (rule wf_treeI)
  have "node_ok n"
    by (rule all_nodes_here [OF wf])
  then show "node_ok (grown names n)"
    using assms(2,3) by (auto simp: node_ok_def grown_def map_of_eq_None_iff comp_def)
  show "\<forall>(k, c) \<in> set (sn_children (grown names n)). wf_tree c"
    using wf_child(3) [OF wf] wf_newNode by (auto simp: grown_def)
qed

lemma state_at_grown:
  assumes p: "find_node p root = Some n" and fresh: "\<forall>k \<in> set names. map_of (sn_children n) k = None"
  shows "state_at q (update_node p (\<lambda>_. grown names n) root) =
    (if q \<in> (\<lambda>k. p @ [k]) ` set names then Some NodeStateNew else state_at q root)"
proof (cases "prefix p q")
  case True
  then obtain r where r: "q = p @ r"
    by (rule prefixE)
  then have eq: "state_at q (update_node p (\<lambda>_. grown names n) root) = state_at r (grown names n)"
    using state_at_update [OF p, of q] by simp
  show ?thesis
  proof (cases r)
    case (Cons k r')
    have "map_of (map (\<lambda>k. (k, sup_newNode)) names) k = (if k \<in> set names then Some sup_newNode else None)"
      by (induction names) auto
    then have "state_at r (grown names n) = (if k \<in> set names then state_at r' sup_newNode else state_at r n)"
      using fresh by (auto simp: Cons state_at_Cons grown_def map_add_def split: option.splits)
    moreover have "state_at r' sup_newNode = (if r' = [] then Some NodeStateNew else None)"
      by (cases r') (auto simp: sup_newNode_def node_reset_def state_at_Cons)
    moreover have "state_at r n = None" if "k \<in> set names"
      using fresh that by (simp add: Cons state_at_Cons)
    ultimately show ?thesis
      using eq r state_at_append [OF p, of r] by (auto simp: Cons)
  qed (use eq r state_at_append [OF p, of "[]"] in \<open>auto simp: grown_def\<close>)
qed (use state_at_update [OF p, of q] in auto)

lemma absent_no_carrier:
  assumes inv: "tree_inv root T" and "state_at q root = None" and "\<forall>x \<in> set q. CHR ''.'' \<notin> set x"
  shows "count T (node_dn q) = 0"
proof (rule ccontr)
  assume "count T (node_dn q) \<noteq> 0"
  then obtain r where r: "state_at r root \<noteq> None" "node_dn q = node_dn r"
    using inv unfolding tree_inv_def by (metis count_eq_zero_iff)
  then have "\<forall>x \<in> set r. CHR ''.'' \<notin> set x"
    using inv find_dot_free by (auto simp: state_at_def tree_inv_def)
  then show False
    using node_dn_inj [OF assms(3), of r] r assms(2) by simp
qed

lemma tree_inv_grown:
  assumes inv: "tree_inv root T" and p: "find_node p root = Some n" and "distinct names"
    and names: "\<forall>k \<in> set names. map_of (sn_children n) k = None \<and> CHR ''.'' \<notin> set k"
  shows "tree_inv (update_node p (\<lambda>_. grown names n) root) (T + mset (map (\<lambda>k. node_dn (p @ [k])) names))"
proof -
  have wf: "wf_tree root"
    using inv by (simp add: tree_inv_def)
  have dots: "\<forall>x \<in> set (p @ [k]). CHR ''.'' \<notin> set x" if "k \<in> set names" for k
    using find_dot_free [OF wf p] names that by auto
  let ?new = "map (\<lambda>k. node_dn (p @ [k])) names"
  have st: "state_at q (update_node p (\<lambda>_. grown names n) root) =
      (if q \<in> (\<lambda>k. p @ [k]) ` set names then Some NodeStateNew else state_at q root)" for q
    using state_at_grown [OF p] names by blast
  have "inj_on (\<lambda>k. node_dn (p @ [k])) (set names)"
    using node_dn_inj [OF dots dots] by (auto simp: inj_on_def)
  then have dist: "distinct ?new"
    using assms(3) by (simp add: distinct_map)
  have old: "count (mset ?new) (node_dn q) = 0" if q: "state_at q root \<noteq> None" "q \<notin> (\<lambda>k. p @ [k]) ` set names" for q
  proof -
    have "\<forall>x \<in> set q. CHR ''.'' \<notin> set x"
      using q(1) find_dot_free [OF wf] by (auto simp: state_at_def)
    then have "node_dn q \<notin> set ?new"
      using node_dn_inj [OF _ dots, of q] q(2) by auto
    then show ?thesis
      by (simp add: count_mset_0_iff del: mset_map set_map)
  qed
  have fresh: "state_at (p @ [k]) root = None" if "k \<in> set names" for k
    using state_at_append [OF p, of "[k]"] names that by (simp add: state_at_Cons)
  have "carriers_ok s (count (T + mset ?new) (node_dn q))" if "state_at q (update_node p (\<lambda>_. grown names n) root) = Some s" for q s
  proof (cases "q \<in> (\<lambda>k. p @ [k]) ` set names")
    case True
    then obtain k where k: "k \<in> set names" "q = p @ [k]"
      by auto
    have "count (mset ?new) (node_dn q) = 1"
      using dist k distinct_count_atmost_1 [of ?new] by (auto simp del: mset_map)
    then show ?thesis
      using that st [of q] True absent_no_carrier [OF inv fresh [OF k(1)] dots [OF k(1)]] k(2) by (simp del: mset_map)
  next
    case False
    then have q: "state_at q root = Some s"
      using that st by simp
    then have "count (T + mset ?new) (node_dn q) = count T (node_dn q)"
      using old [OF _ False] by (simp only: count_union option.distinct not_False_eq_True simp_thms add_0_right)
    then show ?thesis
      using q inv unfolding tree_inv_def by presburger
  qed
  moreover have "wf_tree (update_node p (\<lambda>_. grown names n) root)"
    using grown_wf [OF all_nodes_find [OF wf p] assms(3) names] by (intro wf_update [OF wf p])
  moreover have "\<exists>q. state_at q (update_node p (\<lambda>_. grown names n) root) \<noteq> None \<and> dn = node_dn q" if dn: "dn \<in># T + mset ?new" for dn
  proof (cases "dn \<in># T")
    case True
    then obtain q where "state_at q root \<noteq> None" "dn = node_dn q"
      using inv unfolding tree_inv_def by blast
    then show ?thesis
      using st [of q] by (intro exI [of _ q]) simp
  next
    case False
    then obtain k where "k \<in> set names" "dn = node_dn (p @ [k])"
      using dn by auto
    then show ?thesis
      using st [of "p @ [k]"] by (intro exI [of _ "p @ [k]"]) simp
  qed
  ultimately show ?thesis
    unfolding tree_inv_def by blast
qed

subsection \<open>Restarts\<close>

lemma subtree_down_find: "subtree_down n \<Longrightarrow> find_node p n = Some m \<Longrightarrow> subtree_down m"
proof (induction p arbitrary: n)
  case (Cons k p)
  obtain c where c: "map_of (sn_children n) k = Some c" "find_node p c = Some m"
    using Cons.prems(2) by (auto split: option.splits)
  then have "subtree_down c"
    using Cons.prems(1) by (auto simp: subtree_down_rec [of n] dest: map_of_SomeD)
  then show ?case
    using Cons.IH c(2) by blast
qed simp

lemma restart_rec:
  "restart perr n = (if wants_restart (sn_state n) \<and> subtree_down n \<and> \<not> perr then node_reset
     else SupNode (sn_state n) (sn_canceled n) (sn_reserved n) (sn_groups n)
       (map (\<lambda>(k, c). (k, restart (perr \<or> sn_canceled n) c)) (sn_children n)))"
  by (cases n) simp

lemma restart_here:
  assumes "wants_restart (sn_state n) \<and> subtree_down n \<and> \<not> perr"
  shows "restart_paths perr n = {[]}" "restart perr n = node_reset"
  unfolding restart_paths_rec [of perr n] restart_rec [of perr n] by (rule if_P [OF assms])+

lemma restart_paths_Cons:
  assumes "wf_tree n" and "\<not> (wants_restart (sn_state n) \<and> subtree_down n \<and> \<not> perr)"
  shows "k # p \<in> restart_paths perr n \<longleftrightarrow> (\<exists>c. map_of (sn_children n) k = Some c \<and> p \<in> restart_paths (perr \<or> sn_canceled n) c)"
    and "[] \<notin> restart_paths perr n"
proof -
  have rp: "restart_paths perr n = (\<Union>(k, c) \<in> set (sn_children n). (#) k ` restart_paths (perr \<or> sn_canceled n) c)"
    by (subst restart_paths_rec) (simp only: assms(2) if_False)
  show "[] \<notin> restart_paths perr n"
    unfolding rp by auto
  have "k # p \<in> restart_paths perr n \<longleftrightarrow> (\<exists>c. (k, c) \<in> set (sn_children n) \<and> p \<in> restart_paths (perr \<or> sn_canceled n) c)"
    unfolding rp by auto
  then show "k # p \<in> restart_paths perr n \<longleftrightarrow> (\<exists>c. map_of (sn_children n) k = Some c \<and> p \<in> restart_paths (perr \<or> sn_canceled n) c)"
    using wf_child(1) [OF assms(1)] map_of_SomeD by metis
qed

lemma state_at_reset: "state_at p node_reset = (if p = [] then Some NodeStateNew else None)"
  by (cases p) (simp_all add: node_reset_def state_at_Cons)

lemma state_at_restart:
  "wf_tree n \<Longrightarrow> state_at p (restart perr n) =
     (if p \<in> restart_paths perr n then Some NodeStateNew
      else if \<exists>q \<in> restart_paths perr n. prefix q p then None else state_at p n)"
proof (induction p arbitrary: perr n)
  case Nil
  show ?case
  proof (cases "wants_restart (sn_state n) \<and> subtree_down n \<and> \<not> perr")
    case True
    show ?thesis
      by (simp add: restart_here [OF True] node_reset_def)
  next
    case False
    then have "sn_state (restart perr n) = sn_state n"
      by (subst restart_rec) (simp only: if_False sup_node.sel)
    then show ?thesis
      using restart_paths_Cons(2) [OF Nil False] by auto
  qed
next
  case (Cons k p)
  show ?case
  proof (cases "wants_restart (sn_state n) \<and> subtree_down n \<and> \<not> perr")
    case True
    show ?thesis
      by (simp add: restart_here [OF True] state_at_reset)
  next
    case False
    note rp = restart_paths_Cons [OF Cons.prems False]
    have "sn_children (restart perr n) = map (\<lambda>(k, c). (k, restart (perr \<or> sn_canceled n) c)) (sn_children n)"
      by (subst restart_rec) (simp only: False if_False sup_node.sel)
    then have st: "state_at (k # p) (restart perr n) =
        (case map_of (sn_children n) k of None \<Rightarrow> None | Some c \<Rightarrow> state_at p (restart (perr \<or> sn_canceled n) c))"
      by (simp add: state_at_Cons map_of_map split: option.splits)
    have pre: "(\<exists>q \<in> restart_paths perr n. prefix q (k # p)) \<longleftrightarrow>
        (\<exists>c. map_of (sn_children n) k = Some c \<and> (\<exists>q \<in> restart_paths (perr \<or> sn_canceled n) c. prefix q p))"
    proof -
      have "(\<exists>q \<in> restart_paths perr n. prefix q (k # p)) \<longleftrightarrow> (\<exists>q. k # q \<in> restart_paths perr n \<and> prefix q p)"
        using rp(2) by (auto simp: prefix_Cons)
      then show ?thesis
        using rp(1) by blast
    qed
    show ?thesis
    proof (cases "map_of (sn_children n) k")
      case None
      then show ?thesis
        using st pre rp(1) by (simp add: state_at_Cons)
    next
      case (Some c)
      have "wf_tree c"
        by (rule wf_child(3) [OF Cons.prems map_of_SomeD [OF Some]])
      then show ?thesis
        using Cons.IH [of c "perr \<or> sn_canceled n"] st pre rp(1) Some by (simp add: state_at_Cons)
    qed
  qed
qed

lemma restart_paths_down:
  "wf_tree n \<Longrightarrow> q \<in> restart_paths perr n \<Longrightarrow> \<exists>m. find_node q n = Some m \<and> subtree_down m"
proof (induction q arbitrary: perr n)
  case Nil
  then have "subtree_down n"
    using restart_paths_Cons(2) [OF Nil(1), of perr] by blast
  then show ?case
    by simp
next
  case (Cons k q)
  show ?case
  proof (cases "wants_restart (sn_state n) \<and> subtree_down n \<and> \<not> perr")
    case True
    have "k # q \<in> {[]}"
      using Cons.prems(2) unfolding restart_here(1) [OF True] .
    then show ?thesis
      by simp
  next
    case False
    then obtain c where c: "map_of (sn_children n) k = Some c" "q \<in> restart_paths (perr \<or> sn_canceled n) c"
      using restart_paths_Cons(1) [OF Cons.prems(1) False] Cons.prems(2) by blast
    then show ?thesis
      using Cons.IH [OF wf_child(3) [OF Cons.prems(1) map_of_SomeD [OF c(1)]] c(2)] by simp
  qed
qed

lemma restarted_down:
  assumes "wf_tree n" and "q \<in> restart_paths perr n" and "prefix q p" and "state_at p n = Some st"
  shows "is_down st"
proof -
  obtain m r where m: "find_node q n = Some m" "subtree_down m" "p = q @ r"
    using restart_paths_down [OF assms(1,2)] assms(3) by (auto simp: prefix_def)
  then obtain k where "find_node r m = Some k" "sn_state k = st"
    using assms(4) by (auto simp: state_at_def find_node_append)
  then show ?thesis
    using subtree_down_find [OF m(2), of r k] subtree_down_rec [of k] by simp
qed

lemma tree_inv_restart:
  assumes inv: "tree_inv root T" and finished: "\<And>p. state_at p root = Some NodeStateDone \<Longrightarrow> count T (node_dn p) = 0"
    and dns: "distinct dns" "set dns = node_dn ` restart_paths False root"
  shows "tree_inv (restart False root) (T + mset dns)"
proof -
  have wf: "wf_tree root"
    using inv by (simp add: tree_inv_def)
  note st = state_at_restart [OF wf, of _ False]
  have down: "count T (node_dn p) = 0" if "q \<in> restart_paths False root" "prefix q p" "state_at p root = Some s" for p q s
  proof -
    have "carriers_ok s (count T (node_dn p))"
      using inv that(3) unfolding tree_inv_def by blast
    then show ?thesis
      using restarted_down [OF wf that] finished [of p] that(3) unfolding is_down_def by (elim disjE) simp_all
  qed
  have found: "state_at q root \<noteq> None" if "q \<in> restart_paths False root" for q
    using restart_paths_found [OF wf that] by (simp add: state_at_def)
  have "carriers_ok s (count (T + mset dns) (node_dn p))" if p: "state_at p (restart False root) = Some s" for p s
  proof (cases "p \<in> restart_paths False root")
    case True
    then have "count (mset dns) (node_dn p) = 1"
      using dns distinct_count_atmost_1 [of dns] by simp
    moreover have "count T (node_dn p) = 0"
      using down [OF True] found [OF True] by auto
    ultimately show ?thesis
      using st [of p] True p by simp
  next
    case False
    then have q: "state_at p root = Some s"
      using p st [of p] by (auto split: if_splits)
    have "node_dn p \<notin> set dns"
      using False dns(2) q found state_dn_eq [OF wf, of p] by auto
    then have "count (T + mset dns) (node_dn p) = count T (node_dn p)"
      by (simp add: not_in_iff)
    then show ?thesis
      using q inv unfolding tree_inv_def by presburger
  qed
  moreover have "\<exists>p. state_at p (restart False root) \<noteq> None \<and> dn = node_dn p" if dn: "dn \<in># T + mset dns" for dn
  proof (cases "dn \<in> set dns")
    case True
    then obtain p where "p \<in> restart_paths False root" "dn = node_dn p"
      using dns(2) by auto
    then show ?thesis
      using st [of p] by auto
  next
    case False
    then obtain p s where p: "state_at p root = Some s" "dn = node_dn p" "dn \<in># T"
      using dn inv unfolding tree_inv_def by auto
    then have "\<not> (\<exists>q \<in> restart_paths False root. prefix q p)"
      using down by (metis count_eq_zero_iff)
    then show ?thesis
      using st [of p] p by (metis option.distinct(1))
  qed
  ultimately show ?thesis
    using restart_wf [OF wf] unfolding tree_inv_def by blast
qed

subsection \<open>Shutdown\<close>

lemma processKill_fields:
  "sn_state (processKill n) = sn_state n" "sn_children (processKill n) = map (\<lambda>(k, c). (k, processKill c)) (sn_children n)"
  by (cases n; simp add: map_prod_def)+

lemma state_at_kill: "state_at p (processKill n) = state_at p n"
proof (induction p arbitrary: n)
  case (Cons k p)
  then show ?case
    by (cases "map_of (sn_children n) k") (simp_all add: state_at_Cons processKill_fields map_of_map)
qed (simp add: processKill_fields)

lemma kill_wf: "wf_tree n \<Longrightarrow> wf_tree (processKill n)"
proof (induction n rule: processKill.induct)
  case (1 st cn rs gs cs)
  let ?n = "SupNode st True rs gs (map (\<lambda>(k, c). (k, processKill c)) cs)"
  have "map fst (map (\<lambda>(k, c). (k, processKill c)) cs) = map fst cs"
    by (simp add: split_def)
  then have "node_ok ?n"
    using all_nodes_here [OF "1.prems"] by (simp add: node_ok_def del: map_map set_map)
  moreover have "wf_tree (processKill c)" if "(k, c) \<in> set cs" for k c
    using "1.IH" [of "(k, c)" c] that wf_child(3) [OF "1.prems", of k c] by simp
  ultimately have "wf_tree ?n"
    by (intro wf_treeI) auto
  then show ?case
    by (simp add: map_prod_def)
qed

lemma tree_inv_kill: "tree_inv root T \<Longrightarrow> tree_inv (processKill root) T"
  unfolding tree_inv_def state_at_kill using kill_wf by blast

section \<open>Events\<close>

lemma remove_at_mset: "i < length xs \<Longrightarrow> mset xs = add_mset (xs ! i) (mset (remove_at i xs))"
  by (subst id_take_nth_drop [of i xs]) (auto simp: remove_at_def)

lemma remove_at_requests:
  assumes "i < length rs"
  shows "mset (concat (map req_dn rs)) = mset (req_dn (rs ! i)) + mset (concat (map req_dn (remove_at i rs)))"
proof -
  have "mset (concat (map req_dn rs)) = mset (concat (map req_dn (take i rs @ rs ! i # drop (Suc i) rs)))"
    using id_take_nth_drop [OF assms] by simp
  then show ?thesis
    by (simp add: remove_at_def)
qed

lemma mset_carriers: "mset (carriers s) = mset (concat (map req_dn (sv_pending s))) + mset (sv_running s)"
  by (simp add: carriers_def)

text \<open>The runnables that signaled DONE have returned, and their returns have been processed.\<close>

definition done_returned :: "supervisor \<Rightarrow> bool" where
  "done_returned s \<longleftrightarrow>
     list_all (\<lambda>dn. case sup_nodeByDN dn (sv_root s) of Inl _ \<Rightarrow> True
                | Inr p \<Rightarrow> sn_state (the (find_node p (sv_root s))) \<noteq> NodeStateDone) (carriers s)"

definition ev_ok :: "sup_event \<Rightarrow> supervisor \<Rightarrow> bool" where
  "ev_ok ev s \<longleftrightarrow>
     (case ev of
        EvRunGroup _ names \<Rightarrow> list_all (\<lambda>name. CHR ''.'' \<notin> set name) names
      | EvTick _ \<Rightarrow> sv_clean s \<or> done_returned s
      | _ \<Rightarrow> True)"

inductive sup_reachable :: "supervisor \<Rightarrow> bool" where
  start: "sup_reachable sup_New"
| step: "sup_reachable s \<Longrightarrow> ev_ok ev s \<Longrightarrow> sup_do ev s = Inr s1 \<Longrightarrow> sup_reachable s1"

lemma done_returnedD:
  assumes "sup_inv s" and "done_returned s" and "state_at p (sv_root s) = Some NodeStateDone"
  shows "count (mset (carriers s)) (node_dn p) = 0"
proof -
  obtain n where n: "find_node p (sv_root s) = Some n" "sn_state n = NodeStateDone"
    using assms(3) by (auto simp: state_at_def)
  then have "sup_nodeByDN (node_dn p) (sv_root s) = Inr p"
    using nodeByDN_wf assms(1) by (auto simp: sup_inv_def tree_inv_def)
  then have "node_dn p \<notin> set (carriers s)"
    using assms(2) n by (auto simp: done_returned_def list_all_iff)
  then show ?thesis
    by (simp add: count_mset_0_iff)
qed

lemma take_request:
  assumes "sup_inv s" and "i < length (sv_pending s)"
  shows "tree_inv (sv_root s) (mset (req_dn (sv_pending s ! i)) + mset (carriers (s\<lparr>sv_pending := remove_at i (sv_pending s)\<rparr>)))"
  using assms remove_at_requests [OF assms(2)] by (simp add: sup_inv_def mset_carriers union_assoc)

lemma sup_return_inv:
  assumes "sup_inv s" and "i < length (sv_running s)"
  shows "sup_inv (sup_return i err s)"
  using assms remove_at_mset [OF assms(2)] by (simp add: sup_inv_def mset_carriers sup_return_def req_dn_def)

lemma running_carrier:
  assumes "sup_inv s" and "i < length (sv_running s)"
  obtains p n where "sv_running s ! i = node_dn p" "find_node p (sv_root s) = Some n" "fromContext i s = Inr p"
    "sn_state n \<in> {NodeStateNew, NodeStateHealthy, NodeStateDone}" "count (mset (carriers s)) (node_dn p) = 1"
proof -
  have "sv_running s ! i \<in># mset (carriers s)"
    using assms(2) by (simp add: carriers_def)
  then obtain p n where "sv_running s ! i = node_dn p" "find_node p (sv_root s) = Some n"
    "sup_nodeByDN (sv_running s ! i) (sv_root s) = Inr p" "sn_state n \<in> {NodeStateNew, NodeStateHealthy, NodeStateDone}"
    "count (mset (carriers s)) (sv_running s ! i) = 1"
    using assms(1) carrier_node unfolding sup_inv_def by metis
  then show ?thesis
    using that by (simp add: fromContext_def)
qed

lemma processRequest_inv:
  assumes inv: "tree_inv (sv_root s) (mset (req_dn r) + mset (carriers s))"
  shows "\<exists>s1. processRequest r s = Inr s1 \<and> sup_inv s1"
proof (cases r)
  case (ReqSchedule dn)
  then have "dn \<in># mset (req_dn r) + mset (carriers s)"
    by (simp add: req_dn_def)
  then obtain p where "sup_nodeByDN dn (sv_root s) = Inr p"
    by (rule carrier_node [OF inv])
  then show ?thesis
    using inv by (simp add: ReqSchedule processRequest_def processSchedule_def crash_def req_dn_def sup_inv_def mset_carriers markDirty_def)
next
  case (ReqDied dn err)
  then have "dn \<in># mset (req_dn r) + mset (carriers s)"
    by (simp add: req_dn_def)
  then obtain root1 where "processDied dn err (sv_root s) = Inr root1" "tree_inv root1 (mset (req_dn r) + mset (carriers s) - {#dn#})"
    by (rule processDied_inv [OF inv])
  moreover have "mset (req_dn r) + mset (carriers s) - {#dn#} = mset (carriers s)"
    by (simp add: ReqDied req_dn_def)
  ultimately show ?thesis
    by (simp add: ReqDied processRequest_def crash_def sup_inv_def mset_carriers markDirty_def)
qed (use inv in \<open>simp add: processRequest_def req_dn_def sup_inv_def mset_carriers\<close>)

lemma liquidate_inv:
  assumes inv: "tree_inv (sv_root s) (add_mset dn (mset (carriers s)))"
  shows "\<exists>s1. liquidate_dn dn s = Inr s1 \<and> sup_inv s1"
proof -
  obtain p n where p: "dn = node_dn p" "find_node p (sv_root s) = Some n" "sup_nodeByDN dn (sv_root s) = Inr p"
    "count (add_mset dn (mset (carriers s))) dn = 1"
    using carrier_node [OF inv, of dn] by (metis union_single_eq_member)
  have "tree_inv (update_node p (set_state NodeStateDead) (sv_root s)) (mset (carriers s))"
    using p(1,4) by (intro tree_inv_set [OF inv p(2)]) auto
  then show ?thesis
    using p(3) by (simp add: liquidate_dn_def crash_def sup_inv_def mset_carriers)
qed

lemma liquidateRequest_inv:
  assumes inv: "tree_inv (sv_root s) (mset (req_dn r) + mset (carriers s))"
  shows "\<exists>s1. liquidateRequest r s = Inr s1 \<and> sup_inv s1"
proof -
  have "\<exists>s1. (case r of ReqSchedule dn \<Rightarrow> liquidate_dn dn s | ReqDied dn _ \<Rightarrow> liquidate_dn dn s | ReqWaitSettled _ \<Rightarrow> Inr s) = Inr s1 \<and> sup_inv s1"
    using inv liquidate_inv [of s] by (cases r) (auto simp: req_dn_def sup_inv_def)
  moreover have "sup_inv (s1\<lparr>sv_mode := m\<rparr>) = sup_inv s1" for s1 m
    by (simp add: sup_inv_def mset_carriers)
  ultimately show ?thesis
    by (auto simp: liquidateRequest_def)
qed

lemma processTick_inv:
  assumes inv: "sup_inv s" and "sv_clean s \<or> done_returned s"
  shows "\<exists>s1. processTick ord s = Inr s1 \<and> sup_inv s1"
proof (cases "sv_clean s")
  case True
  then show ?thesis
    using inv by (simp add: processTick_def sup_inv_def mset_carriers Let_def)
next
  case False
  have "wf_tree (sv_root s)"
    using inv by (simp add: sup_inv_def tree_inv_def)
  then obtain dns where dns: "processGC ord (sv_root s) = Some (Inr (restart False (sv_root s), dns))" "distinct dns"
      "set dns = node_dn ` restart_paths False (sv_root s)"
    using processGC_correct by blast
  have "tree_inv (restart False (sv_root s)) (mset (carriers s) + mset dns)"
    using inv done_returnedD [OF inv] assms(2) False dns(2,3) by (intro tree_inv_restart) (auto simp: sup_inv_def)
  moreover have "concat (map req_dn (map ReqSchedule dns)) = dns"
    by (induction dns) (simp_all add: req_dn_def)
  ultimately show ?thesis
    using False dns(1) by (simp add: processTick_def crash_def sup_inv_def mset_carriers Let_def union_assoc union_commute union_lcomm)
qed

lemma RunGroup_inv:
  assumes inv: "sup_inv s" and "i < length (sv_running s)" and "distinct names" and "list_all (\<lambda>name. CHR ''.'' \<notin> set name) names"
  shows "\<exists>s1. RunGroup i names s = Inr s1 \<and> sup_inv s1"
proof -
  obtain p n where p: "find_node p (sv_root s) = Some n" "fromContext i s = Inr p"
    using running_carrier [OF assms(1,2)] by metis
  have "wf_tree (sv_root s)"
    using inv by (simp add: sup_inv_def tree_inv_def)
  then have "node_ok n"
    using all_nodes_here [OF all_nodes_find [OF _ p(1)]] by blast
  then show ?thesis
  proof (cases rule: runGroup_cases [of n names])
    case (1 err)
    then show ?thesis
      using inv p update_node_id [OF p(1), of "\<lambda>_. n"] by (simp add: RunGroup_def sup_inv_def mset_carriers)
  next
    case 2
    have "concat (map req_dn (map (\<lambda>name. ReqSchedule (node_dn (p @ [name]))) names)) = map (\<lambda>k. node_dn (p @ [k])) names"
      by (induction names) (simp_all add: req_dn_def)
    moreover have "tree_inv (update_node p (\<lambda>_. grown names n) (sv_root s)) (mset (carriers s) + mset (map (\<lambda>k. node_dn (p @ [k])) names))"
      using inv 2(3) assms(3,4) by (intro tree_inv_grown [OF _ p(1)]) (auto simp: sup_inv_def list_all_iff)
    ultimately show ?thesis
      using p 2(1) by (simp add: RunGroup_def sup_inv_def mset_carriers union_assoc union_commute union_lcomm del: mset_map)
  qed
qed

lemma Signal_inv:
  assumes inv: "sup_inv s" and "i < length (sv_running s)"
  shows "\<exists>s1. Signal i sig s = Inr s1 \<and> sup_inv s1"
proof -
  obtain p n where p: "find_node p (sv_root s) = Some n" "fromContext i s = Inr p" "count (mset (carriers s)) (node_dn p) = 1"
    using running_carrier [OF assms(1,2)] by metis
  have step: "tree_inv (update_node p (\<lambda>_. set_state st n) (sv_root s)) (mset (carriers s))" if "carriers_ok st 1" for st
    using inv p(3) that by (intro tree_inv_set [OF _ p(1)]) (auto simp: sup_inv_def)
  show ?thesis
  proof (cases "node_signal sig n")
    case (Inl err)
    then show ?thesis
      using p sup_return_inv [OF assms] by (simp add: Signal_def)
  next
    case (Inr n1)
    then obtain st where "n1 = set_state st n" "carriers_ok st 1"
      by (auto simp: node_signal_def split: signalType.splits if_splits)
    then show ?thesis
      using p Inr step by (simp add: Signal_def sup_inv_def mset_carriers)
  qed
qed

lemma SubLogger_inv:
  assumes inv: "sup_inv s" and "i < length (sv_running s)"
  shows "\<exists>s1. sup_SubLogger i name s = Inr s1 \<and> sup_inv s1"
proof -
  obtain p n where p: "find_node p (sv_root s) = Some n" "fromContext i s = Inr p"
    using running_carrier [OF assms(1,2)] by metis
  show ?thesis
  proof (cases "SubLogger name n")
    case (Inl err)
    then show ?thesis
      using p inv by (simp add: sup_SubLogger_def)
  next
    case (Inr n1)
    then have "sn_children n1 = sn_children n" "sn_groups n1 = sn_groups n" "sn_state n1 = sn_state n"
      by (auto simp: SubLogger_def split: if_splits sup_node.splits)
    then have "tree_inv (update_node p (\<lambda>_. n1) (sv_root s)) (mset (carriers s))"
      using inv p(1) by (intro tree_inv_set [OF _ p(1)]) (auto simp: sup_inv_def tree_inv_def state_at_def)
    then show ?thesis
      using p Inr by (simp add: sup_SubLogger_def sup_inv_def mset_carriers)
  qed
qed

lemma sup_do_inv:
  assumes inv: "sup_inv s" and "ev_ok ev s"
  shows "\<exists>s1. sup_do ev s = Inr s1 \<and> sup_inv s1"
proof (cases ev)
  case (EvRequest i)
  show ?thesis
  proof (cases "i < length (sv_pending s) \<and> sv_mode s \<noteq> Exited")
    case True
    then show ?thesis
      using take_request [OF inv, of i] processRequest_inv [of "s\<lparr>sv_pending := remove_at i (sv_pending s)\<rparr>"]
        liquidateRequest_inv [of "s\<lparr>sv_pending := remove_at i (sv_pending s)\<rparr>"]
      by (simp add: EvRequest sup_do_def Let_def)
  next
    case False
    then show ?thesis
      using inv by (auto simp: EvRequest sup_do_def)
  qed
next
  case EvShutdown
  then show ?thesis
    using inv tree_inv_kill by (simp add: sup_do_def sup_inv_def mset_carriers)
next
  case (EvWaitSettled w)
  then show ?thesis
    using inv by (simp add: sup_do_def sup_inv_def mset_carriers req_dn_def)
next
  case (EvTick ord)
  then show ?thesis
    using assms processTick_inv [OF inv, of ord] by (simp add: sup_do_def ev_ok_def)
next
  case (EvRunGroup i names)
  then show ?thesis
    using assms RunGroup_inv [OF inv, of i names] by (simp add: sup_do_def ev_ok_def)
next
  case (EvReturn i err)
  then show ?thesis
    using inv sup_return_inv [OF inv, of i err] by (simp add: sup_do_def)
next
  case (EvSignal i sig)
  then show ?thesis
    using inv Signal_inv [OF inv, of i sig] by (simp add: sup_do_def)
next
  case (EvSubLogger i name)
  then show ?thesis
    using inv SubLogger_inv [OF inv, of i name] by (simp add: sup_do_def)
qed

lemma sup_New_inv: "sup_inv sup_New"
proof -
  have "state_at p sup_newNode = (if p = [] then Some NodeStateNew else None)" for p
    by (simp add: sup_newNode_def state_at_reset)
  then show ?thesis
    by (auto simp: sup_inv_def tree_inv_def sup_New_def carriers_def req_dn_def wf_newNode node_dn_def)
qed

lemma sup_reachable_inv: "sup_reachable s \<Longrightarrow> sup_inv s"
proof (induction rule: sup_reachable.induct)
  case (step s ev s1)
  then show ?case
    using sup_do_inv [of s ev] by auto
qed (rule sup_New_inv)

text \<open>C1: As long as runnables are given names without dots and every runnable that signaled DONE has
  returned before the next restart pass, the supervisor is safe whatever happens and in whatever
  order: no event makes the processor or the liquidator panic, leaves the lock of the supervisor taken,
  or makes the restart pass run forever. In every state it reaches, a NEW or HEALTHY node has exactly
  one carrier (a pending schedule request, a running goroutine, or a pending report of its return), so
  no runnable runs twice or is forgotten; a DONE node has at most one and a DEAD or CANCELED one none.\<close>

theorem supervisor_safe:
  assumes "sup_reachable s" and "ev_ok ev s"
  shows "\<exists>s1. sup_do ev s = Inr s1 \<and> wf_tree (sv_root s1) \<and>
    (\<forall>p st. state_at p (sv_root s1) = Some st \<longrightarrow> carriers_ok st (count_list (carriers s1) (node_dn p)))"
  using sup_do_inv [OF sup_reachable_inv [OF assms(1)] assms(2)] by (auto simp: sup_inv_def tree_inv_def count_mset)

theorem supervisor_safe_witness:
  "\<exists>s1. sup_do (EvRequest 0) sup_New = Inr s1 \<and> carriers_ok NodeStateNew (count_list (carriers s1) ''root'')"
proof -
  obtain s1 where s1: "sup_do (EvRequest 0) sup_New = Inr s1"
      "\<And>p st. state_at p (sv_root s1) = Some st \<Longrightarrow> carriers_ok st (count_list (carriers s1) (node_dn p))"
    using supervisor_safe [OF sup_reachable.start, of "EvRequest 0"] by (auto simp: ev_ok_def)
  have "state_at [] (sv_root s1) = Some NodeStateNew"
    using s1(1) by (auto simp: sup_do_def sup_New_def processRequest_def processSchedule_def crash_def sup_nodeByDN_def sup_newNode_def node_reset_def
        remove_at_def markDirty_def)
  then show ?thesis
    using s1(1) s1(2) [of "[]" NodeStateNew] by (simp add: node_dn_def)
qed

section \<open>When the liquidator ends\<close>





























section \<open>Returns of runnables whose node is gone\<close>

lemma nodeByDN_gone: "\<forall>x \<in> set p. CHR ''.'' \<notin> set x \<Longrightarrow> state_at p root = None \<Longrightarrow> sup_nodeByDN (node_dn p) root = Inl ''could not find node''"
  by (simp add: sup_nodeByDN_def split_node_dn state_at_def)

text \<open>C26: A runnable whose node is removed by a restart pass while it still runs crashes the processor: if the pass
  restarts a node above a running runnable, such as one that signaled DONE, and the runnable returns, whatever it returns,
  before its node is created again, then processing its return panics, since the node cannot be found.\<close>

theorem restarted_over_running_crashes:
  assumes "wf_tree (sv_root s)" and "sv_mode s = Processing" and "\<not> sv_clean s"
    and "p \<in> restart_paths False (sv_root s)" and "strict_prefix p q" and "find_node q (sv_root s) = Some n"
    and "i < length (sv_running s)" and "sv_running s ! i = node_dn q"
  shows "\<exists>j. sup_run [EvTick ord, EvReturn i err, EvRequest j] s = Inl (Crash ''could not find node'')"
proof -
  obtain dns where dns: "processGC ord (sv_root s) = Some (Inr (restart False (sv_root s), dns))"
    using processGC_correct [OF assms(1)] by blast
  have "prefix p q" "q \<notin> restart_paths False (sv_root s)"
    using assms(4,5) restart_paths_antichain [OF assms(1) assms(4), of q] by (auto simp: strict_prefix_def)
  then have "state_at q (restart False (sv_root s)) = None"
    using assms(4) by (auto simp: state_at_restart [OF assms(1)])
  then have gone: "sup_nodeByDN (node_dn q) (restart False (sv_root s)) = Inl ''could not find node''"
    by (rule nodeByDN_gone [OF find_dot_free [OF assms(1,6)]])
  obtain s1 where s1: "processTick ord s = Inr s1" "sv_root s1 = restart False (sv_root s)" "sv_running s1 = sv_running s" "sv_mode s1 = Processing"
    using assms(2,3) dns by (auto simp: processTick_def crash_def Let_def)
  let ?s2 = "sup_return i err s1"
  have tick: "sup_do (EvTick ord) s = Inr s1"
    using assms(2) s1(1) by (simp add: sup_do_def)
  have return: "sup_do (EvReturn i err) s1 = Inr ?s2"
    using assms(7) s1(3) by (simp add: sup_do_def)
  have s2: "sv_root ?s2 = restart False (sv_root s)" "sv_mode ?s2 = Processing" "sv_pending ?s2 = sv_pending s1 @ [ReqDied (node_dn q) err]"
    using s1 assms(8) by (simp_all add: sup_return_def)
  have "processDied (node_dn q) err (restart False (sv_root s)) = Inl ''could not find node''"
    by (simp add: processDied_def gone)
  then have "sup_do (EvRequest (length (sv_pending s1))) ?s2 = Inl (Crash ''could not find node'')"
    by (simp add: sup_do_def s2 processRequest_def crash_def)
  then have "sup_run [EvTick ord, EvReturn i err, EvRequest (length (sv_pending s1))] s = Inl (Crash ''could not find node'')"
    by (simp add: tick return)
  then show ?thesis
    by blast
qed

text \<open>A child signals DONE but does not return, and its parent fails.\<close>

definition done_child_events :: "sup_event list" where
  "done_child_events =
     [EvRequest 0, EvRunGroup 0 [''a''], EvRequest 0, EvSignal 1 SignalHealthy, EvSignal 1 SignalDone, EvReturn 0 ErrOther, EvRequest 0]"

definition done_child :: supervisor where
  "done_child =
     \<lparr>sv_root = SupNode NodeStateDead True [] [[''a'']] [(''a'', SupNode NodeStateDone False [] [] [])],
      sv_pending = [], sv_running = [''root.a''], sv_clean = False, sv_cleanCycles = 0, sv_waiters = [], sv_settled = [], sv_mode = Processing\<rparr>"

lemma done_child_run: "sup_run done_child_events sup_New = Inr done_child"
  by code_simp

theorem restarted_over_running_crashes_witness:
  "sup_run done_child_events sup_New = Inr done_child \<and>
   (\<exists>j. sup_run [EvTick (\<lambda>_ _. 0), EvReturn 0 ErrNil, EvRequest j] done_child = Inl (Crash ''could not find node''))"
proof -
  have "wf_tree (sv_root done_child)" "[] \<in> restart_paths False (sv_root done_child)"
    by (simp_all add: done_child_def wf_tree_SupNode node_ok_def wants_restart_def is_down_def)
  moreover have "node_dn [''a''] = ''root.a''"
    by code_simp
  ultimately show ?thesis
    using restarted_over_running_crashes [of done_child "[]" "[''a'']"] done_child_run by (simp add: done_child_def)
qed

end
