(* ===== verification/NetIP.thy ===== *)
theory NetIP
  imports Prelude "HOL-Library.Word"
begin

unbundle bit_operations_syntax

text \<open>
  IP addresses and networks of Go's \<^verbatim>\<open>net\<close> package, as far as the repository uses them: an address is a
  byte slice of length 4 or 16, or any other length for an invalid address; \<^verbatim>\<open>nil\<close> is the empty list.
\<close>

type_synonym ip = "8 word list"
type_synonym ip_mask = "8 word list"

record ip_net =
  in_IP :: ip
  in_Mask :: ip_mask

definition v4InV6Prefix :: ip where
  "v4InV6Prefix = replicate 10 0 @ [0xff, 0xff]"

definition IPv4 :: "8 word \<Rightarrow> 8 word \<Rightarrow> 8 word \<Rightarrow> 8 word \<Rightarrow> ip" where
  "IPv4 a b c d = v4InV6Prefix @ [a, b, c, d]"

definition IPv4zero :: ip where "IPv4zero = IPv4 0 0 0 0"

definition IPv4bcast :: ip where "IPv4bcast = IPv4 255 255 255 255"

definition IPv6unspecified :: ip where "IPv6unspecified = replicate 16 0"

definition IPv6loopback :: ip where "IPv6loopback = replicate 15 0 @ [1]"

definition To4 :: "ip \<Rightarrow> ip" where
  "To4 a = (if length a = 4 then a else if length a = 16 \<and> take 12 a = v4InV6Prefix then drop 12 a else [])"

definition ip_Equal :: "ip \<Rightarrow> ip \<Rightarrow> bool" where
  "ip_Equal a x \<longleftrightarrow>
     (if length a = length x then a = x
      else if length a = 4 \<and> length x = 16 then take 12 x = v4InV6Prefix \<and> a = drop 12 x
      else if length a = 16 \<and> length x = 4 then take 12 a = v4InV6Prefix \<and> drop 12 a = x
      else False)"

definition IsUnspecified :: "ip \<Rightarrow> bool" where
  "IsUnspecified a \<longleftrightarrow> ip_Equal a IPv4zero \<or> ip_Equal a IPv6unspecified"

definition IsLoopback :: "ip \<Rightarrow> bool" where
  "IsLoopback a \<longleftrightarrow> (if To4 a \<noteq> [] then To4 a ! 0 = 127 else ip_Equal a IPv6loopback)"

definition IsMulticast :: "ip \<Rightarrow> bool" where
  "IsMulticast a \<longleftrightarrow> (if To4 a \<noteq> [] then To4 a ! 0 AND 0xf0 = 0xe0 else length a = 16 \<and> a ! 0 = 0xff)"

definition IsLinkLocalUnicast :: "ip \<Rightarrow> bool" where
  "IsLinkLocalUnicast a \<longleftrightarrow>
     (if To4 a \<noteq> [] then To4 a ! 0 = 169 \<and> To4 a ! 1 = 254 else length a = 16 \<and> a ! 0 = 0xfe \<and> a ! 1 AND 0xc0 = 0x80)"

definition IsGlobalUnicast :: "ip \<Rightarrow> bool" where
  "IsGlobalUnicast a \<longleftrightarrow>
     (length a = 4 \<or> length a = 16) \<and> \<not> ip_Equal a IPv4bcast \<and> \<not> IsUnspecified a \<and> \<not> IsLoopback a \<and> \<not> IsMulticast a \<and> \<not> IsLinkLocalUnicast a"

definition ip_Mask :: "ip \<Rightarrow> ip_mask \<Rightarrow> ip" where
  "ip_Mask a msk =
     (let msk1 = (if length msk = 16 \<and> length a = 4 \<and> list_all (\<lambda>b. b = 0xff) (take 12 msk) then drop 12 msk else msk);
          a1 = (if length msk1 = 4 \<and> length a = 16 \<and> take 12 a = v4InV6Prefix then drop 12 a else a) in
      if length a1 \<noteq> length msk1 then [] else map2 (AND) a1 msk1)"

definition DefaultMask :: "ip \<Rightarrow> ip_mask" where
  "DefaultMask a =
     (if To4 a = [] then []
      else if To4 a ! 0 < 0x80 then [255, 0, 0, 0]
      else if To4 a ! 0 < 0xc0 then [255, 255, 0, 0]
      else [255, 255, 255, 0])"

text \<open>The number of leading ones of a mask, or nothing if it is not ones followed by zeros.\<close>

definition leading_ones :: "8 word \<Rightarrow> nat option" where
  "leading_ones v = List.find (\<lambda>n. v = NOT (mask (8 - n))) [0..<8]"

fun simpleMaskLength :: "ip_mask \<Rightarrow> nat \<Rightarrow> nat option" where
  "simpleMaskLength [] n = Some n"
| "simpleMaskLength (v # m) n =
     (if v = 0xff then simpleMaskLength m (n + 8)
      else case leading_ones v of
             None \<Rightarrow> None
           | Some k \<Rightarrow> if list_all (\<lambda>b. b = 0) m then Some (n + k) else None)"

definition mask_Size :: "ip_mask \<Rightarrow> nat \<times> nat" where
  "mask_Size m = (case simpleMaskLength m 0 of None \<Rightarrow> (0, 0) | Some ones \<Rightarrow> (ones, length m * 8))"

definition networkNumberAndMask :: "ip_net \<Rightarrow> ip \<times> ip_mask" where
  "networkNumberAndMask n =
     (let a = (if To4 (in_IP n) \<noteq> [] then To4 (in_IP n) else in_IP n); m = in_Mask n in
      if To4 (in_IP n) = [] \<and> length a \<noteq> 16 then ([], [])
      else if length m = 4 then (if length a \<noteq> 4 then ([], []) else (a, m))
      else if length m = 16 then (a, if length a = 4 then drop 12 m else m)
      else ([], []))"

definition net_Contains :: "ip_net \<Rightarrow> ip \<Rightarrow> bool" where
  "net_Contains n a =
     (let (nn, m) = networkNumberAndMask n; a1 = (if To4 a \<noteq> [] then To4 a else a) in
      length a1 = length nn \<and> list_all (\<lambda>i. nn ! i AND m ! i = a1 ! i AND m ! i) [0..<length a1])"

end
