(* ===== verification/Dhcp.thy ===== *)
theory Dhcp
  imports NetIP "HOL-Library.Log_Nat"
begin

text \<open>
  The DHCPv4 client of \<^verbatim>\<open>metropolis/node/core/network/dhcp4c\<close>: the state machine of \<^verbatim>\<open>dhcpc.go\<close> and the
  opening and closing of its transports (\<^verbatim>\<open>transport\<close>).

  The messages and their options are those of the package \<^verbatim>\<open>dhcpv4\<close>, which is not part of the repository:
  a message is a record of the fields that the client uses, and the functions of the package that read and
  write options are an argument (\<open>dhcp_lib\<close>). What a call of \<^verbatim>\<open>runState\<close> takes from its environment is an
  argument too (\<open>dhcp_env\<close>): the clock, randomness, the next backoff, the outcomes of system calls and of
  the lease callback, and what the transport receives. Instants and durations are in nanoseconds. The
  calls of the lease callback and the messages sent are recorded in the state, the newest first.
\<close>

section \<open>Messages\<close>

datatype option_code =
    OptionSubnetMask | OptionRouter | OptionDomainNameServer | OptionBroadcastAddress | OptionStaticRoutingTable
  | OptionRequestedIPAddress | OptionIPAddressLeaseTime | OptionDHCPMessageType | OptionServerIdentifier
  | OptionParameterRequestList | OptionMaximumDHCPMessageSize | OptionRenewTimeValue | OptionRebindingTimeValue
  | OptionClassIdentifier | OptionClientIdentifier | OptionTFTPServerName | OptionBootfileName | OptionRapidCommit
  | OptionClasslessStaticRoute | OptionTFTPServerAddress | OptionOther nat

datatype message_type =
    MessageTypeDiscover | MessageTypeOffer | MessageTypeRequest | MessageTypeAck | MessageTypeNak | MessageTypeInform
  | MessageTypeOther nat

type_synonym dhcp_options = "option_code \<rightharpoonup> 8 word list"
type_synonym xid = "8 word list"

datatype opcode = OpcodeBootRequest | OpcodeBootReply
datatype hw_type = HWTypeEthernet | HWTypeOther nat

record dhcpv4 =
  dm_OpCode :: opcode
  dm_HWType :: hw_type
  dm_HopCount :: nat
  dm_NumSeconds :: nat
  dm_Flags :: nat
  dm_ClientHWAddr :: "8 word list"
  dm_TransactionID :: xid
  dm_ClientIPAddr :: ip
  dm_YourIPAddr :: ip
  dm_ServerIPAddr :: ip
  dm_GatewayIPAddr :: ip
  dm_ServerHostName :: "8 word list"
  dm_BootFileName :: "8 word list"
  dm_Options :: dhcp_options

record dhcp_route =
  rt_Dest :: ip_net
  rt_Router :: ip

text \<open>The functions of the package \<^verbatim>\<open>dhcpv4\<close>. \<open>lb_Duration\<close> stands for \<^verbatim>\<open>IPAddressLeaseTime\<close>, \<^verbatim>\<open>IPAddressRenewalTime\<close> and
  \<^verbatim>\<open>IPAddressRebindingTime\<close>, which take a default.\<close>

record dhcp_lib =
  lb_Update :: "option_code \<Rightarrow> 8 word list \<Rightarrow> dhcp_options \<Rightarrow> dhcp_options"
  lb_MessageType :: "dhcp_options \<Rightarrow> message_type"
  lb_ServerIdentifier :: "dhcp_options \<Rightarrow> ip"
  lb_Duration :: "option_code \<Rightarrow> dhcp_options \<Rightarrow> int \<Rightarrow> int"
  lb_Duration_ToBytes :: "int \<Rightarrow> 8 word list"
  lb_OptMessageType :: "message_type \<Rightarrow> 8 word list"
  lb_OptParameterRequestList :: "option_code list \<Rightarrow> 8 word list"
  lb_OptMaxMessageSize :: "16 word \<Rightarrow> 8 word list"
  lb_OptIP :: "ip \<Rightarrow> 8 word list"
  lb_GetOneOption :: "option_code \<Rightarrow> dhcp_options \<Rightarrow> 8 word list"
  lb_GetIP :: "option_code \<Rightarrow> dhcp_options \<Rightarrow> ip"
  lb_GetIPs :: "option_code \<Rightarrow> dhcp_options \<Rightarrow> ip list"
  lb_Get :: "option_code \<Rightarrow> dhcp_options \<Rightarrow> 8 word list option"
  lb_Routes_FromBytes :: "8 word list \<Rightarrow> dhcp_route list"

definition second :: int where "second = 1000000000"

definition millisecond :: int where "millisecond = 1000000"

text \<open>What the package documents of its functions: updating sets an option; a duration is that of its
  own option, a whole number of seconds of 32 bits, or the default; and it is read back from the bytes
  it is written to.\<close>

definition lib_ok :: "dhcp_lib \<Rightarrow> bool" where
  "lib_ok lib \<longleftrightarrow>
     (\<forall>c b opts. lb_Update lib c b opts = opts(c \<mapsto> b)) \<and>
     (\<forall>c opts d. opts c = None \<longrightarrow> lb_Duration lib c opts d = d) \<and>
     (\<forall>c opts opts'. opts c = opts' c \<longrightarrow> lb_Duration lib c opts = lb_Duration lib c opts') \<and>
     (\<forall>c opts. (\<forall>d. lb_Duration lib c opts d = d) \<or> (\<exists>s. 0 \<le> s \<and> s < 2 ^ 32 \<and> (\<forall>d. lb_Duration lib c opts d = s * second))) \<and>
     (\<forall>c opts s d. 0 \<le> s \<and> s < 2 ^ 32 \<longrightarrow> lb_Duration lib c (opts(c \<mapsto> lb_Duration_ToBytes lib (s * second))) d = s * second)"

record dhcp_lease =
  ls_AssignedIP :: ip
  ls_ExpiresAt :: int
  ls_Options :: dhcp_options

section \<open>The client\<close>

datatype dhcp_state = StateDiscovering | StateRequesting | StateBound | StateRenewing | StateRebinding

fun dhcp_state_String :: "dhcp_state \<Rightarrow> string" where
  "dhcp_state_String StateDiscovering = ''DISCOVERING''"
| "dhcp_state_String StateRequesting = ''REQUESTING''"
| "dhcp_state_String StateBound = ''BOUND''"
| "dhcp_state_String StateRenewing = ''RENEWING''"
| "dhcp_state_String StateRebinding = ''REBINDING''"

definition internalOptions :: "option_code list" where
  "internalOptions = [OptionSubnetMask, OptionIPAddressLeaseTime]"

record dhcp_iface =
  if_HardwareAddr :: "8 word list"
  if_MTU :: int

record sent_message =
  sm_broadcast :: bool
  sm_message :: dhcpv4
  sm_deadline :: int

record dhcp_client =
  cl_RequestedOptions :: "option_code list"
  cl_ClientIdentifier :: "8 word list"
  cl_VendorClassIdentifier :: "8 word list"
  cl_ExtraRequestOptions :: dhcp_options
  cl_iface :: dhcp_iface
  cl_state :: dhcp_state
  cl_broadcastOpen :: bool
  cl_unicastConn :: "(ip \<times> ip) option"
  cl_offer :: "dhcpv4 option"
  cl_lease :: "dhcpv4 option"
  cl_leaseDeadline :: int
  cl_leaseBoundDeadline :: int
  cl_leaseRenewDeadline :: int
  cl_callbacks :: "dhcp_lease option list"
  cl_sent :: "sent_message list"

text \<open>An error of a transport's \<^verbatim>\<open>Receive\<close>. The transports wrap an unreadable packet in a pointer to an
  \<^verbatim>\<open>InvalidMessageError\<close>; the client looks for the struct itself.\<close>

datatype receive_error = ErrDeadlineExceeded | InvalidMessageErrorPointer | InvalidMessageErrorValue | ReceiveError

datatype received = Received "receive_error + dhcpv4" (rc_canceled: bool)

record dhcp_env =
  de_now :: int
  de_xid :: "xid option"
  de_wait :: "int option"
  de_send :: bool
  de_setDeadline :: bool
  de_received :: "received list"
  de_canceled :: bool
  de_callback :: bool
  de_broadcastOpen :: bool
  de_broadcastClose :: bool
  de_unicastOpen :: bool
  de_unicastClose :: bool

text \<open>How a run of a state ends; \<open>RunBlocked\<close> is waiting for more packets than the environment has.\<close>

datatype run_result = RunOk | RunErr string | RunPanic string | RunBlocked

section \<open>Transports\<close>

definition broadcast_Open :: "dhcp_env \<Rightarrow> dhcp_client \<Rightarrow> dhcp_client \<times> run_result" where
  "broadcast_Open env c =
     (if cl_broadcastOpen c then (c, RunErr ''broadcast transport already open'')
      else if \<not> de_broadcastOpen env then (c, RunErr ''failed to create raw listener'')
      else (c\<lparr>cl_broadcastOpen := True\<rparr>, RunOk))"

definition broadcast_Close :: "dhcp_env \<Rightarrow> dhcp_client \<Rightarrow> dhcp_client \<times> run_result" where
  "broadcast_Close env c =
     (if \<not> cl_broadcastOpen c then (c, RunOk)
      else if \<not> de_broadcastClose env then (c, RunErr ''close failed'')
      else (c\<lparr>cl_broadcastOpen := False\<rparr>, RunOk))"

definition unicast_Open :: "dhcp_env \<Rightarrow> ip \<Rightarrow> ip \<Rightarrow> dhcp_client \<Rightarrow> dhcp_client \<times> run_result" where
  "unicast_Open env serverIP bindIP c =
     (if cl_unicastConn c \<noteq> None then (c, RunErr ''unicast transport already open'')
      else if \<not> de_unicastOpen env then (c, RunErr ''failed to open socket'')
      else (c\<lparr>cl_unicastConn := Some (serverIP, bindIP)\<rparr>, RunOk))"

definition unicast_Close :: "dhcp_env \<Rightarrow> dhcp_client \<Rightarrow> dhcp_client \<times> run_result" where
  "unicast_Close env c =
     (if cl_unicastConn c = None then (c, RunOk)
      else (c\<lparr>cl_unicastConn := None\<rparr>, if de_unicastClose env then RunOk else RunErr ''close failed''))"

text \<open>\<^verbatim>\<open>if err := f(); err != nil { return err }\<close>\<close>

definition run_then :: "'c \<times> run_result \<Rightarrow> ('c \<Rightarrow> 'c \<times> run_result) \<Rightarrow> 'c \<times> run_result" where
  "run_then r f = (case r of (c, RunOk) \<Rightarrow> f c | _ \<Rightarrow> r)"

definition switchToUnicast :: "dhcp_env \<Rightarrow> ip \<Rightarrow> ip \<Rightarrow> dhcp_client \<Rightarrow> dhcp_client \<times> run_result" where
  "switchToUnicast env serverIP bindIP c = run_then (broadcast_Close env c) (unicast_Open env serverIP bindIP)"

definition switchToBroadcast :: "dhcp_env \<Rightarrow> dhcp_client \<Rightarrow> dhcp_client \<times> run_result" where
  "switchToBroadcast env c = run_then (unicast_Close env c) (broadcast_Open env)"

section \<open>Leases\<close>

definition acceptableLease :: "dhcp_lib \<Rightarrow> dhcpv4 \<Rightarrow> dhcpv4 option" where
  "acceptableLease lib offer =
     (let opts = dm_Options offer in
      if lb_ServerIdentifier lib opts = [] \<or> To4 (lb_ServerIdentifier lib opts) = [] then None
      else if lb_Duration lib OptionIPAddressLeaseTime opts 0 < 1 * second then None
      else if To4 (dm_YourIPAddr offer) = [] \<or> (\<not> IsGlobalUnicast (dm_YourIPAddr offer) \<and> \<not> IsLinkLocalUnicast (dm_YourIPAddr offer)) then None
      else
        (let opts1 = opts(OptionRequestedIPAddress := None, OptionParameterRequestList := None, OptionClientIdentifier := None,
                          OptionMaximumDHCPMessageSize := None);
             opts2 = (if lb_Duration lib OptionRebindingTimeValue opts1 0 > lb_Duration lib OptionIPAddressLeaseTime opts1 0
                      then lb_Update lib OptionRebindingTimeValue (lb_Duration_ToBytes lib (lb_Duration lib OptionIPAddressLeaseTime opts1 0)) opts1
                      else opts1);
             opts3 = (if lb_Duration lib OptionRenewTimeValue opts2 0 > lb_Duration lib OptionRebindingTimeValue opts2 0
                      then lb_Update lib OptionRenewTimeValue (lb_Duration_ToBytes lib (lb_Duration lib OptionRebindingTimeValue opts2 0)) opts2
                      else opts2);
             opts4 = (if length (dm_ServerHostName offer) > 0 then opts3(OptionTFTPServerName \<mapsto> dm_ServerHostName offer) else opts3);
             opts5 = (if length (dm_BootFileName offer) > 0 then opts4(OptionBootfileName \<mapsto> dm_BootFileName offer) else opts4);
             opts6 = (if length (lb_GetOneOption lib OptionTFTPServerAddress opts5) = 0 \<and> To4 (dm_ServerIPAddr offer) \<noteq> [] \<and>
                         (IsGlobalUnicast (dm_ServerIPAddr offer) \<or> IsLinkLocalUnicast (dm_ServerIPAddr offer))
                      then opts5(OptionTFTPServerAddress \<mapsto> To4 (dm_ServerIPAddr offer)) else opts5) in
         Some (offer\<lparr>dm_Options := opts6\<rparr>)))"

definition earliestDeadline :: "int \<Rightarrow> int \<Rightarrow> int" where
  "earliestDeadline dl1 dl2 = (if dl1 < dl2 then dl1 else dl2)"

definition leaseFromAck :: "dhcpv4 option \<Rightarrow> int \<Rightarrow> dhcp_lease option" where
  "leaseFromAck ack expiresAt =
     (case ack of None \<Rightarrow> None | Some a \<Rightarrow> Some \<lparr>ls_AssignedIP = dm_YourIPAddr a, ls_ExpiresAt = expiresAt, ls_Options = dm_Options a\<rparr>)"

text \<open>\<^verbatim>\<open>float64\<close> has 53 significant bits and rounds to the nearest, ties to even. The product with a constant
  \<open>num / 2 ^ e\<close>, and its conversion back to an integer, which truncates.\<close>

definition round53 :: "nat \<Rightarrow> nat" where
  "round53 n =
     (let k = floorlog 2 n - 53; q = n div 2 ^ k; r = n mod 2 ^ k in
      (if 2 * r > 2 ^ k \<or> (2 * r = 2 ^ k \<and> odd q) then q + 1 else q) * 2 ^ k)"

definition float_scale :: "nat \<Rightarrow> nat \<Rightarrow> int \<Rightarrow> int" where
  "float_scale num e d = int (round53 (round53 (nat d) * num) div 2 ^ e)"

text \<open>The constants 0.5 and 0.85.\<close>

definition half :: "int \<Rightarrow> int" where "half d = float_scale 1 1 d"

definition most :: "int \<Rightarrow> int" where "most d = float_scale 7656119366529843 53 d"

definition lease_callback :: "dhcp_env \<Rightarrow> dhcp_lease option \<Rightarrow> dhcp_client \<Rightarrow> dhcp_client \<times> run_result" where
  "lease_callback env l c =
     (c\<lparr>cl_callbacks := l # cl_callbacks c\<rparr>, if de_callback env then RunOk else RunErr ''lease callback failed'')"

definition transitionToBound :: "dhcp_lib \<Rightarrow> dhcp_env \<Rightarrow> dhcpv4 \<Rightarrow> int \<Rightarrow> dhcp_client \<Rightarrow> dhcp_client \<times> run_result" where
  "transitionToBound lib env ack sentTime c =
     (let leaseTime = lb_Duration lib OptionIPAddressLeaseTime (dm_Options ack) 0;
          c1 = c\<lparr>cl_leaseDeadline := sentTime + leaseTime,
                 cl_leaseBoundDeadline := sentTime + lb_Duration lib OptionRenewTimeValue (dm_Options ack) (half leaseTime),
                 cl_leaseRenewDeadline := sentTime + lb_Duration lib OptionRebindingTimeValue (dm_Options ack) (most leaseTime)\<rparr> in
      run_then (lease_callback env (leaseFromAck (Some ack) (cl_leaseDeadline c1)) c1) (\<lambda>c2.
      run_then (if cl_state c2 \<noteq> StateRenewing
                then switchToUnicast env (lb_ServerIdentifier lib (dm_Options ack)) (dm_YourIPAddr ack) c2 else (c2, RunOk)) (\<lambda>c3.
      (c3\<lparr>cl_state := StateBound, cl_lease := Some ack\<rparr>, RunOk))))"

definition requestingToDiscovering :: "dhcp_client \<Rightarrow> dhcp_client" where
  "requestingToDiscovering c = c\<lparr>cl_offer := None, cl_state := StateDiscovering\<rparr>"

definition leaseToDiscovering :: "dhcp_env \<Rightarrow> dhcp_client \<Rightarrow> dhcp_client \<times> run_result" where
  "leaseToDiscovering env c =
     run_then (if cl_state c = StateRenewing then switchToBroadcast env c else (c, RunOk)) (\<lambda>c1.
       lease_callback env None (c1\<lparr>cl_state := StateDiscovering, cl_lease := None\<rparr>))"

definition dhcp_cleanup :: "dhcp_env \<Rightarrow> dhcp_client \<Rightarrow> dhcp_client" where
  "dhcp_cleanup env c =
     (let c1 = fst (unicast_Close env c);
          c2 = (if cl_lease c1 \<noteq> None then fst (lease_callback env None c1) else c1) in
      fst (broadcast_Close env c2))"

section \<open>Requests\<close>

definition maxMsgSize :: "dhcp_client \<Rightarrow> 16 word" where
  "maxMsgSize c = (if if_MTU (cl_iface c) < 65535 then word_of_int (if_MTU (cl_iface c)) else 65535)"

definition newMsg :: "dhcp_lib \<Rightarrow> dhcp_env \<Rightarrow> message_type \<Rightarrow> dhcp_client \<Rightarrow> dhcpv4 option" where
  "newMsg lib env t c =
     (case de_xid env of
        None \<Rightarrow> None
      | Some xid \<Rightarrow>
          (let opts1 = lb_Update lib OptionDHCPMessageType (lb_OptMessageType lib t) Map.empty;
               opts2 = (if length (cl_ClientIdentifier c) > 0 then lb_Update lib OptionClientIdentifier (cl_ClientIdentifier c) opts1 else opts1);
               opts3 =
                 (if t = MessageTypeDiscover \<or> t = MessageTypeRequest \<or> t = MessageTypeInform then
                    (let o1 = lb_Update lib OptionParameterRequestList (lb_OptParameterRequestList lib (cl_RequestedOptions c @ internalOptions)) opts2;
                         o2 = lb_Update lib OptionMaximumDHCPMessageSize (lb_OptMaxMessageSize lib (maxMsgSize c)) o1;
                         o3 = (if cl_VendorClassIdentifier c \<noteq> [] then lb_Update lib OptionClassIdentifier (cl_VendorClassIdentifier c) o2 else o2) in
                     o3 ++ cl_ExtraRequestOptions c)
                  else opts2) in
           Some \<lparr>dm_OpCode = OpcodeBootRequest, dm_HWType = HWTypeEthernet, dm_HopCount = 0, dm_NumSeconds = 0, dm_Flags = 0,
                 dm_ClientHWAddr = if_HardwareAddr (cl_iface c), dm_TransactionID = xid, dm_ClientIPAddr = IPv4zero, dm_YourIPAddr = IPv4zero,
                 dm_ServerIPAddr = IPv4zero, dm_GatewayIPAddr = IPv4zero, dm_ServerHostName = [], dm_BootFileName = [], dm_Options = opts3\<rparr>))"

text \<open>What handling a message says: the state machine advanced, the message is ignored, or an error.\<close>

datatype handled = HandledOk | ErrInvalidMsg | HandledErr run_result

definition handled_of :: "dhcp_client \<times> run_result \<Rightarrow> dhcp_client \<times> handled" where
  "handled_of r = (case r of (c, RunOk) \<Rightarrow> (c, HandledOk) | (c, e) \<Rightarrow> (c, HandledErr e))"

text \<open>The left of \<open>ts_setExtraOptions\<close> is a panic; a nil callback is \<open>None\<close>.\<close>

record transactionStateSpec =
  ts_broadcast :: bool
  ts_stateDeadline :: "int option"
  ts_requestType :: message_type
  ts_setExtraOptions :: "dhcpv4 \<Rightarrow> (string, dhcpv4) result"
  ts_handleMessage :: "dhcpv4 \<Rightarrow> int \<Rightarrow> dhcp_client \<Rightarrow> dhcp_client \<times> handled"
  ts_stateDeadlineExceeded :: "(dhcp_client \<Rightarrow> dhcp_client \<times> run_result) option"

fun receive_loop :: "dhcp_env \<Rightarrow> transactionStateSpec \<Rightarrow> xid \<Rightarrow> int \<Rightarrow> received list \<Rightarrow> dhcp_client \<Rightarrow> dhcp_client \<times> run_result" where
  "receive_loop env s xid sentTime [] c = (c, RunBlocked)"
| "receive_loop env s xid sentTime (Received r canceled # rs) c =
     (if canceled then (dhcp_cleanup env c, RunErr ''context canceled'')
      else case r of
             Inl ErrDeadlineExceeded \<Rightarrow> (c, RunOk)
           | Inl InvalidMessageErrorValue \<Rightarrow> receive_loop env s xid sentTime rs c
           | Inl _ \<Rightarrow> (c, RunErr ''failed to receive packet'')
           | Inr offer \<Rightarrow>
               (if dm_TransactionID offer \<noteq> xid then receive_loop env s xid sentTime rs c
                else case ts_handleMessage s offer sentTime c of
                       (c1, HandledOk) \<Rightarrow> (c1, RunOk)
                     | (c1, ErrInvalidMsg) \<Rightarrow> receive_loop env s xid sentTime rs c1
                     | (c1, HandledErr e) \<Rightarrow> (c1, e)))"

definition deadline_exceeded :: "transactionStateSpec \<Rightarrow> dhcp_client \<Rightarrow> dhcp_client \<times> run_result" where
  "deadline_exceeded s c =
     (case ts_stateDeadlineExceeded s of None \<Rightarrow> (c, RunPanic ''invalid memory address or nil pointer dereference'') | Some f \<Rightarrow> f c)"

definition transport_open :: "bool \<Rightarrow> dhcp_client \<Rightarrow> bool" where
  "transport_open broadcast c \<longleftrightarrow> (if broadcast then cl_broadcastOpen c else cl_unicastConn c \<noteq> None)"

definition runTransactionState :: "dhcp_lib \<Rightarrow> dhcp_env \<Rightarrow> transactionStateSpec \<Rightarrow> dhcp_client \<Rightarrow> dhcp_client \<times> run_result" where
  "runTransactionState lib env s c =
     (let sentTime = de_now env in
      case newMsg lib env (ts_requestType s) c of
        None \<Rightarrow> (c, RunErr ''failed to get new DHCP message'')
      | Some msg0 \<Rightarrow>
          (case ts_setExtraOptions s msg0 of
             Inl p \<Rightarrow> (c, RunPanic p)
           | Inr msg \<Rightarrow>
               (case de_wait env of
                  None \<Rightarrow> deadline_exceeded s c
                | Some wait \<Rightarrow>
                    (let receiveDeadline =
                           (case ts_stateDeadline s of None \<Rightarrow> sentTime + wait | Some d \<Rightarrow> earliestDeadline d (sentTime + wait)) in
                     if (case ts_stateDeadline s of None \<Rightarrow> False | Some d \<Rightarrow> d - 10 * millisecond < sentTime) then deadline_exceeded s c
                     else if \<not> transport_open (ts_broadcast s) c then (c, RunErr ''transport closed'')
                     else if \<not> de_send env then (c, RunErr ''failed to send message'')
                     else
                       (let c1 = c\<lparr>cl_sent := \<lparr>sm_broadcast = ts_broadcast s, sm_message = msg, sm_deadline = receiveDeadline\<rparr> # cl_sent c\<rparr> in
                        if \<not> de_setDeadline env then (c1, RunErr ''failed to set deadline'')
                        else receive_loop env s (dm_TransactionID msg) sentTime (de_received env) c1)))))"

section \<open>The states\<close>

definition update_option :: "dhcp_lib \<Rightarrow> option_code \<Rightarrow> 8 word list \<Rightarrow> dhcpv4 \<Rightarrow> dhcpv4" where
  "update_option lib code b m = m\<lparr>dm_Options := lb_Update lib code b (dm_Options m)\<rparr>"

definition handle_discovering :: "dhcp_lib \<Rightarrow> dhcp_env \<Rightarrow> dhcpv4 \<Rightarrow> int \<Rightarrow> dhcp_client \<Rightarrow> dhcp_client \<times> handled" where
  "handle_discovering lib env offer sentTime c =
     (case lb_MessageType lib (dm_Options offer) of
        MessageTypeOffer \<Rightarrow>
          (case acceptableLease lib offer of
             Some offer1 \<Rightarrow> (c\<lparr>cl_offer := Some offer1, cl_state := StateRequesting\<rparr>, HandledOk)
           | None \<Rightarrow> (c, ErrInvalidMsg))
      | MessageTypeAck \<Rightarrow>
          (case acceptableLease lib offer of
             Some offer1 \<Rightarrow> handled_of (transitionToBound lib env offer1 sentTime c)
           | None \<Rightarrow> (c, ErrInvalidMsg))
      | _ \<Rightarrow> (c, ErrInvalidMsg))"

definition handle_ack :: "(dhcp_client \<Rightarrow> dhcp_client \<times> run_result) \<Rightarrow> dhcp_lib \<Rightarrow> dhcp_env \<Rightarrow> dhcpv4 \<Rightarrow> int \<Rightarrow> dhcp_client \<Rightarrow> dhcp_client \<times> handled" where
  "handle_ack on_nak lib env msg sentTime c =
     (case lb_MessageType lib (dm_Options msg) of
        MessageTypeAck \<Rightarrow>
          (case acceptableLease lib msg of
             Some msg1 \<Rightarrow> handled_of (transitionToBound lib env msg1 sentTime c)
           | None \<Rightarrow> (c, ErrInvalidMsg))
      | MessageTypeNak \<Rightarrow> handled_of (on_nak c)
      | _ \<Rightarrow> (c, ErrInvalidMsg))"

definition spec_discovering :: "dhcp_lib \<Rightarrow> dhcp_env \<Rightarrow> transactionStateSpec" where
  "spec_discovering lib env =
     \<lparr>ts_broadcast = True, ts_stateDeadline = None, ts_requestType = MessageTypeDiscover,
      ts_setExtraOptions = (\<lambda>msg. Inr (update_option lib OptionRapidCommit [] msg)),
      ts_handleMessage = handle_discovering lib env, ts_stateDeadlineExceeded = None\<rparr>"

definition spec_requesting :: "dhcp_lib \<Rightarrow> dhcp_env \<Rightarrow> dhcp_client \<Rightarrow> transactionStateSpec" where
  "spec_requesting lib env c =
     \<lparr>ts_broadcast = True, ts_stateDeadline = None, ts_requestType = MessageTypeRequest,
      ts_setExtraOptions = (\<lambda>msg.
        case cl_offer c of
          None \<Rightarrow> Inl ''invalid memory address or nil pointer dereference''
        | Some offer \<Rightarrow>
            (let msg1 = update_option lib OptionServerIdentifier (lb_OptIP lib (lb_ServerIdentifier lib (dm_Options offer))) msg;
                 msg2 = msg1\<lparr>dm_TransactionID := dm_TransactionID offer\<rparr> in
             Inr (update_option lib OptionRequestedIPAddress (lb_OptIP lib (dm_YourIPAddr offer)) msg2))),
      ts_handleMessage = handle_ack (\<lambda>c. (requestingToDiscovering c, RunOk)) lib env,
      ts_stateDeadlineExceeded = Some (\<lambda>c. (requestingToDiscovering c, RunOk))\<rparr>"

definition set_client_ip :: "dhcp_client \<Rightarrow> dhcpv4 \<Rightarrow> (string, dhcpv4) result" where
  "set_client_ip c msg =
     (case cl_lease c of
        None \<Rightarrow> Inl ''invalid memory address or nil pointer dereference''
      | Some lease \<Rightarrow> Inr (msg\<lparr>dm_ClientIPAddr := dm_YourIPAddr lease\<rparr>))"

definition spec_renewing :: "dhcp_lib \<Rightarrow> dhcp_env \<Rightarrow> dhcp_client \<Rightarrow> transactionStateSpec" where
  "spec_renewing lib env c =
     \<lparr>ts_broadcast = False, ts_stateDeadline = Some (cl_leaseRenewDeadline c), ts_requestType = MessageTypeRequest,
      ts_setExtraOptions = set_client_ip c,
      ts_handleMessage = handle_ack (leaseToDiscovering env) lib env,
      ts_stateDeadlineExceeded = Some (\<lambda>c. switchToBroadcast env (c\<lparr>cl_state := StateRebinding\<rparr>))\<rparr>"

definition spec_rebinding :: "dhcp_lib \<Rightarrow> dhcp_env \<Rightarrow> dhcp_client \<Rightarrow> transactionStateSpec" where
  "spec_rebinding lib env c =
     \<lparr>ts_broadcast = True, ts_stateDeadline = Some (cl_leaseDeadline c), ts_requestType = MessageTypeRequest,
      ts_setExtraOptions = set_client_ip c,
      ts_handleMessage = handle_ack (leaseToDiscovering env) lib env,
      ts_stateDeadlineExceeded = Some (leaseToDiscovering env)\<rparr>"

definition runState :: "dhcp_lib \<Rightarrow> dhcp_env \<Rightarrow> dhcp_client \<Rightarrow> dhcp_client \<times> run_result" where
  "runState lib env c =
     (case cl_state c of
        StateDiscovering \<Rightarrow> runTransactionState lib env (spec_discovering lib env) c
      | StateRequesting \<Rightarrow> runTransactionState lib env (spec_requesting lib env c) c
      | StateBound \<Rightarrow>
          (if de_canceled env then (dhcp_cleanup env c, RunErr ''context canceled'') else (c\<lparr>cl_state := StateRenewing\<rparr>, RunOk))
      | StateRenewing \<Rightarrow> runTransactionState lib env (spec_renewing lib env c) c
      | StateRebinding \<Rightarrow> runTransactionState lib env (spec_rebinding lib env c) c)"

text \<open>The loop of \<^verbatim>\<open>Run\<close>, for as many turns as there are environments.\<close>

fun dhcp_Run :: "dhcp_lib \<Rightarrow> dhcp_env list \<Rightarrow> dhcp_client \<Rightarrow> dhcp_client \<times> run_result" where
  "dhcp_Run lib [] c = (c, RunOk)"
| "dhcp_Run lib (env # envs) c = run_then (runState lib env c) (dhcp_Run lib envs)"

definition NewClient :: "dhcp_env \<Rightarrow> dhcp_iface \<Rightarrow> (string, dhcp_client) result" where
  "NewClient env iface =
     (if \<not> de_broadcastOpen env then Inl ''failed to create DHCP broadcast transport''
      else if \<not> list_ex (\<lambda>b. b \<noteq> 0) (if_HardwareAddr iface) then Inl ''iface HardwareAddr is invalid''
      else Inr \<lparr>cl_RequestedOptions = [], cl_ClientIdentifier = [], cl_VendorClassIdentifier = [], cl_ExtraRequestOptions = Map.empty,
                cl_iface = iface, cl_state = StateDiscovering, cl_broadcastOpen = True, cl_unicastConn = None, cl_offer = None,
                cl_lease = None, cl_leaseDeadline = 0, cl_leaseBoundDeadline = 0, cl_leaseRenewDeadline = 0,
                cl_callbacks = [], cl_sent = []\<rparr>)"

section \<open>Validity of the fields\<close>

text \<open>The comments of \<^verbatim>\<open>Client\<close> say in which states its fields are valid. A lease that is held was accepted, and the
  lease callback was last told about it; otherwise it was last told that there is none, if it was
  called at all.\<close>

definition accepted :: "dhcp_lib \<Rightarrow> dhcpv4 \<Rightarrow> bool" where
  "accepted lib ack \<longleftrightarrow> (\<exists>m. acceptableLease lib m = Some ack)"

definition deadlines_of :: "dhcp_lib \<Rightarrow> dhcpv4 \<Rightarrow> int \<Rightarrow> dhcp_client \<Rightarrow> bool" where
  "deadlines_of lib ack sentTime c \<longleftrightarrow>
     (let leaseTime = lb_Duration lib OptionIPAddressLeaseTime (dm_Options ack) 0 in
      cl_leaseDeadline c = sentTime + leaseTime \<and>
      cl_leaseBoundDeadline c = sentTime + lb_Duration lib OptionRenewTimeValue (dm_Options ack) (half leaseTime) \<and>
      cl_leaseRenewDeadline c = sentTime + lb_Duration lib OptionRebindingTimeValue (dm_Options ack) (most leaseTime))"

definition holds_lease :: "dhcp_lib \<Rightarrow> dhcp_client \<Rightarrow> bool" where
  "holds_lease lib c \<longleftrightarrow>
     (\<exists>ack ls sentTime. cl_lease c = Some ack \<and> accepted lib ack \<and> deadlines_of lib ack sentTime c \<and>
        cl_callbacks c = leaseFromAck (Some ack) (cl_leaseDeadline c) # ls)"

definition holds_none :: "dhcp_client \<Rightarrow> bool" where
  "holds_none c \<longleftrightarrow> cl_lease c = None \<and> (cl_callbacks c = [] \<or> hd (cl_callbacks c) = None)"

definition on_broadcast :: "dhcp_client \<Rightarrow> bool" where
  "on_broadcast c \<longleftrightarrow> cl_broadcastOpen c \<and> cl_unicastConn c = None"

definition on_unicast :: "dhcp_client \<Rightarrow> bool" where
  "on_unicast c \<longleftrightarrow> \<not> cl_broadcastOpen c \<and> cl_unicastConn c \<noteq> None"

definition valid_client :: "dhcp_lib \<Rightarrow> dhcp_client \<Rightarrow> bool" where
  "valid_client lib c \<longleftrightarrow>
     (case cl_state c of
        StateDiscovering \<Rightarrow> on_broadcast c \<and> holds_none c
      | StateRequesting \<Rightarrow> on_broadcast c \<and> holds_none c \<and> cl_offer c \<noteq> None
      | StateBound \<Rightarrow> on_unicast c \<and> holds_lease lib c
      | StateRenewing \<Rightarrow> on_unicast c \<and> holds_lease lib c
      | StateRebinding \<Rightarrow> on_broadcast c \<and> holds_lease lib c)"

lemmas valid_defs = valid_client_def on_broadcast_def on_unicast_def holds_none_def holds_lease_def deadlines_of_def Let_def
lemmas transport_defs = broadcast_Open_def broadcast_Close_def unicast_Open_def unicast_Close_def switchToUnicast_def switchToBroadcast_def

definition panics :: "run_result \<Rightarrow> bool" where
  "panics r \<longleftrightarrow> (case r of RunPanic _ \<Rightarrow> True | _ \<Rightarrow> False)"

text \<open>A step that keeps a client valid: it does not panic, and if it succeeds its result is valid.\<close>

definition keeps_valid :: "dhcp_lib \<Rightarrow> dhcp_client \<times> run_result \<Rightarrow> bool" where
  "keeps_valid lib r \<longleftrightarrow> \<not> panics (snd r) \<and> (snd r = RunOk \<longrightarrow> valid_client lib (fst r))"

lemma run_then_simps [simp]:
  "run_then (c, RunOk) f = f c" "run_then (c, RunErr e) f = (c, RunErr e)" "run_then (c, RunPanic e) f = (c, RunPanic e)"
  "run_then (c, RunBlocked) f = (c, RunBlocked)"
  by (simp_all add: run_then_def)

lemma transitionToBound_valid:
  assumes "valid_client lib c" and "accepted lib ack" and "cl_state c \<noteq> StateBound"
  shows "keeps_valid lib (transitionToBound lib env ack sentTime c)"
  using assms
  by (cases "cl_state c")
    (auto simp: keeps_valid_def panics_def transitionToBound_def Let_def lease_callback_def transport_defs valid_defs split: if_splits option.splits)

lemma leaseToDiscovering_valid:
  assumes "valid_client lib c" and "cl_state c = StateRenewing \<or> cl_state c = StateRebinding"
  shows "keeps_valid lib (leaseToDiscovering env c)"
  using assms
  by (auto simp: keeps_valid_def panics_def leaseToDiscovering_def lease_callback_def transport_defs valid_defs split: if_splits option.splits)

lemma requestingToDiscovering_valid:
  "valid_client lib c \<Longrightarrow> cl_state c = StateRequesting \<Longrightarrow> valid_client lib (requestingToDiscovering c)"
  by (auto simp: requestingToDiscovering_def valid_defs)

text \<open>What a handler of messages does to a valid client.\<close>

definition good_handler :: "dhcp_lib \<Rightarrow> (dhcpv4 \<Rightarrow> int \<Rightarrow> dhcp_client \<Rightarrow> dhcp_client \<times> handled) \<Rightarrow> dhcp_client \<Rightarrow> bool" where
  "good_handler lib h c \<longleftrightarrow>
     (\<forall>m t. case h m t c of
              (c1, HandledOk) \<Rightarrow> valid_client lib c1
            | (c1, ErrInvalidMsg) \<Rightarrow> c1 = c
            | (c1, HandledErr e) \<Rightarrow> \<not> panics e \<and> e \<noteq> RunOk)"

lemma handled_of_good:
  "keeps_valid lib r \<Longrightarrow> case handled_of r of (c1, HandledOk) \<Rightarrow> valid_client lib c1 | (c1, ErrInvalidMsg) \<Rightarrow> c1 = c
     | (c1, HandledErr e) \<Rightarrow> \<not> panics e \<and> e \<noteq> RunOk"
  by (cases r; cases "snd r") (auto simp: handled_of_def keeps_valid_def)

lemma receive_loop_valid:
  assumes "valid_client lib c" and "good_handler lib (ts_handleMessage s) c"
  shows "keeps_valid lib (receive_loop env s xid t rs c)"
proof (induction rs)
  case (Cons r rs)
  obtain x canceled where r: "r = Received x canceled"
    by (cases r)
  show ?case
  proof (cases x)
    case (Inl e)
    then show ?thesis
      using Cons assms(1) by (cases e) (auto simp: r keeps_valid_def panics_def)
  next
    case (Inr m)
    obtain c1 h where h: "ts_handleMessage s m t c = (c1, h)"
      by (cases "ts_handleMessage s m t c")
    then have "case h of HandledOk \<Rightarrow> valid_client lib c1 | ErrInvalidMsg \<Rightarrow> c1 = c | HandledErr e \<Rightarrow> \<not> panics e \<and> e \<noteq> RunOk"
      using assms(2) [unfolded good_handler_def, rule_format, of m t] by (simp add: h)
    then show ?thesis
      using Cons h by (cases h) (auto simp: r Inr keeps_valid_def panics_def)
  qed
qed (simp add: keeps_valid_def panics_def)

lemma valid_sent [simp]: "valid_client lib (c\<lparr>cl_sent := m\<rparr>) = valid_client lib c"
  by (cases "cl_state c") (simp_all add: valid_defs)

lemma runTransactionState_valid:
  assumes valid: "valid_client lib c" and "\<And>c1. c1 = c \<or> (\<exists>m. c1 = c\<lparr>cl_sent := m\<rparr>) \<Longrightarrow> good_handler lib (ts_handleMessage s) c1"
    and "\<And>m. isl (ts_setExtraOptions s m) \<Longrightarrow> False"
    and "case ts_stateDeadlineExceeded s of None \<Rightarrow> ts_stateDeadline s = None \<and> de_wait env \<noteq> None | Some f \<Rightarrow> keeps_valid lib (f c)"
  shows "keeps_valid lib (runTransactionState lib env s c)"
proof (cases "newMsg lib env (ts_requestType s) c")
  case (Some msg0)
  obtain msg where msg: "ts_setExtraOptions s msg0 = Inr msg"
    using assms(3) [of msg0] by (cases "ts_setExtraOptions s msg0") auto
  have exceeded: "keeps_valid lib (deadline_exceeded s c)" if "de_wait env = None \<or> ts_stateDeadline s \<noteq> None"
    using assms(4) that by (auto simp: deadline_exceeded_def split: option.splits)
  have sent: "valid_client lib (c\<lparr>cl_sent := m\<rparr>)" for m
    using valid by simp
  show ?thesis
  proof (cases "de_wait env")
    case None
    then show ?thesis
      using exceeded by (simp add: runTransactionState_def Some msg)
  next
    case (Some wait)
    have "keeps_valid lib (receive_loop env s xid t rs (c\<lparr>cl_sent := m\<rparr>))" for xid t rs m
      using receive_loop_valid [OF sent] assms(2) by blast
    then show ?thesis
      using exceeded Some msg \<open>newMsg lib env (ts_requestType s) c = Some msg0\<close>
      by (auto simp: runTransactionState_def Let_def keeps_valid_def panics_def split: option.splits)
  qed
qed (simp add: runTransactionState_def keeps_valid_def panics_def)

lemma acceptedI: "acceptableLease lib m = Some ack \<Longrightarrow> accepted lib ack"
  by (auto simp: accepted_def)

lemma handle_discovering_good:
  assumes "valid_client lib c" and "cl_state c = StateDiscovering"
  shows "good_handler lib (handle_discovering lib env) c"
  unfolding good_handler_def
proof (intro allI)
  fix m t
  show "case handle_discovering lib env m t c of (c1, HandledOk) \<Rightarrow> valid_client lib c1 | (c1, ErrInvalidMsg) \<Rightarrow> c1 = c
      | (c1, HandledErr e) \<Rightarrow> \<not> panics e \<and> e \<noteq> RunOk"
  proof (cases "acceptableLease lib m")
    case (Some ack)
    then have "keeps_valid lib (transitionToBound lib env ack t c)"
      using assms by (intro transitionToBound_valid acceptedI) auto
    moreover have "valid_client lib (c\<lparr>cl_offer := Some ack, cl_state := StateRequesting\<rparr>)"
      using assms by (simp add: valid_defs)
    ultimately show ?thesis
      using handled_of_good [of lib "transitionToBound lib env ack t c" c] Some
      by (simp add: handle_discovering_def split: message_type.splits)
  qed (auto simp: handle_discovering_def split: message_type.splits)
qed

lemma handle_ack_good:
  assumes "valid_client lib c" and "cl_state c \<noteq> StateBound" and "keeps_valid lib (on_nak c)"
  shows "good_handler lib (handle_ack on_nak lib env) c"
  unfolding good_handler_def
proof (intro allI)
  fix m t
  show "case handle_ack on_nak lib env m t c of (c1, HandledOk) \<Rightarrow> valid_client lib c1 | (c1, ErrInvalidMsg) \<Rightarrow> c1 = c
      | (c1, HandledErr e) \<Rightarrow> \<not> panics e \<and> e \<noteq> RunOk"
  proof (cases "acceptableLease lib m")
    case (Some ack)
    then have "keeps_valid lib (transitionToBound lib env ack t c)"
      using assms by (intro transitionToBound_valid acceptedI) auto
    then show ?thesis
      using handled_of_good [of lib "transitionToBound lib env ack t c" c] handled_of_good [OF assms(3), of c] Some
      by (simp add: handle_ack_def split: message_type.splits)
  next
    case None
    then show ?thesis
      using handled_of_good [OF assms(3), of c] by (simp add: handle_ack_def split: message_type.splits)
  qed
qed

lemma runState_valid:
  assumes valid: "valid_client lib c" and "cl_state c = StateDiscovering \<longrightarrow> de_wait env \<noteq> None"
  shows "keeps_valid lib (runState lib env c)"
proof (cases "cl_state c")
  case StateDiscovering
  have "keeps_valid lib (runTransactionState lib env (spec_discovering lib env) c)"
    using assms StateDiscovering
    by (intro runTransactionState_valid) (auto simp: spec_discovering_def valid_defs intro!: handle_discovering_good)
  then show ?thesis
    by (simp add: runState_def StateDiscovering)
next
  case StateRequesting
  have "keeps_valid lib (runTransactionState lib env (spec_requesting lib env c) c)"
    using assms StateRequesting requestingToDiscovering_valid [of lib]
    by (intro runTransactionState_valid) (auto simp: spec_requesting_def valid_defs keeps_valid_def panics_def requestingToDiscovering_def Let_def intro!: handle_ack_good)
  then show ?thesis
    by (simp add: runState_def StateRequesting)
next
  case StateBound
  then show ?thesis
    using assms by (auto simp: runState_def keeps_valid_def panics_def valid_defs)
next
  case StateRenewing
  have "keeps_valid lib (switchToBroadcast env (c\<lparr>cl_state := StateRebinding\<rparr>))"
    using assms StateRenewing by (auto simp: keeps_valid_def panics_def valid_defs transport_defs)
  then have "keeps_valid lib (runTransactionState lib env (spec_renewing lib env c) c)"
    using assms StateRenewing
    by (intro runTransactionState_valid)
      (auto simp: spec_renewing_def valid_defs set_client_ip_def intro!: handle_ack_good leaseToDiscovering_valid split: option.splits)
  then show ?thesis
    by (simp add: runState_def StateRenewing)
next
  case StateRebinding
  have "keeps_valid lib (leaseToDiscovering env c)"
    using assms StateRebinding by (intro leaseToDiscovering_valid) auto
  then have "keeps_valid lib (runTransactionState lib env (spec_rebinding lib env c) c)"
    using assms StateRebinding
    by (intro runTransactionState_valid)
      (auto simp: spec_rebinding_def valid_defs set_client_ip_def intro!: handle_ack_good leaseToDiscovering_valid split: option.splits)
  then show ?thesis
    by (simp add: runState_def StateRebinding)
qed

end
