(* ===== verification/DhcpRuns.thy ===== *)
theory DhcpRuns
  imports Dhcp
begin

text \<open>
  Properties of the DHCP client: in every state that it reaches its fields are valid as documented, the
  deadlines of a lease are in order, and an expired lease is given up.
\<close>

section \<open>Floating point\<close>

lemma round53_bounds:
  shows "round53 n * 2 ^ 53 \<le> n * (2 ^ 53 + 1)" "n * (2 ^ 53 - 1) \<le> round53 n * 2 ^ 53"
proof -
  define k where "k = floorlog 2 n - 53"
  define q where "q = n div 2 ^ k"
  define r where "r = n mod 2 ^ k"
  define up where "up = (if 2 * r > 2 ^ k \<or> (2 * r = 2 ^ k \<and> odd q) then 1 else 0 :: nat)"
  have n: "n = q * 2 ^ k + r" "r < 2 ^ k"
    unfolding q_def r_def by (simp_all only: div_mult_mod_eq mod_less_divisor zero_less_power zero_less_numeral)
  have round: "round53 n = (q + up) * 2 ^ k"
    by (simp add: round53_def Let_def k_def q_def r_def up_def)
  have small: "2 ^ k * 2 ^ 52 \<le> n" if "k > 0"
  proof -
    have "floorlog 2 n = k + 53"
      using that by (simp add: k_def)
    moreover from this have "n > 0"
      by (intro Nat.gr0I) (simp add: floorlog_def)
    ultimately have "2 ^ (k + 52) \<le> n"
      using floorlog_bounds [of n 2] by (simp add: add.commute)
    then show ?thesis
      by (simp add: power_add)
  qed
  have near: "2 * ((q + up) * 2 ^ k) \<le> 2 * n + 2 ^ k" "2 * n \<le> 2 * ((q + up) * 2 ^ k) + 2 ^ k"
    using n by (auto simp: up_def algebra_simps)
  have exact: "(q + up) * 2 ^ k = n" if "k = 0"
    using that n by (simp add: up_def)
  have "round53 n * 2 ^ 53 \<le> n * (2 ^ 53 + 1) \<and> n * (2 ^ 53 - 1) \<le> round53 n * 2 ^ 53"
  proof (cases "k = 0")
    case True
    then show ?thesis
      using exact round by simp
  next
    case False
    then have "2 ^ k * 2 ^ 52 \<le> n"
      using small by simp
    then show ?thesis
      using near unfolding round by (simp add: algebra_simps)
  qed
  then show "round53 n * 2 ^ 53 \<le> n * (2 ^ 53 + 1)" "n * (2 ^ 53 - 1) \<le> round53 n * 2 ^ 53"
    by blast+
qed

text \<open>Whole seconds of 32 bits are exact.\<close>

lemma round53_seconds:
  assumes "s < 2 ^ 32"
  shows "round53 (s * 1000000000) = s * 1000000000"
proof -
  let ?n = "s * 1000000000"
  define k where "k = floorlog 2 ?n - 53"
  have "?n < 2 ^ 62"
    using assms by simp
  then have "floorlog 2 ?n \<le> 62"
    by (simp add: floorlog_leI)
  then have "k \<le> 9"
    by (simp add: k_def)
  then have "(2::nat) ^ k dvd 2 ^ 9"
    by (rule le_imp_power_dvd)
  moreover have "(2::nat) ^ 9 dvd ?n"
    by (rule dvdI [of _ _ "s * 1953125"]) simp
  ultimately have dvd: "2 ^ k dvd ?n"
    by (rule dvd_trans)
  then have "?n mod 2 ^ k = 0"
    by simp
  then have "round53 ?n = ?n div 2 ^ k * 2 ^ k"
    by (simp add: round53_def Let_def k_def [symmetric])
  then show ?thesis
    using dvd by simp
qed

lemma lease_fractions:
  assumes "0 \<le> s" and "s < 2 ^ 32"
  shows "half (s * second) = s * second div 2" "half (s * second) \<le> most (s * second)" "most (s * second) \<le> s * second" "0 \<le> half (s * second)"
proof -
  define t where "t = nat s"
  have s: "s = int t" "t < 2 ^ 32"
    using assms by (simp_all add: t_def nat_less_iff)
  define n where "n = t * 1000000000"
  have n: "nat (s * second) = n" "int n = s * second"
    by (simp_all add: s(1) second_def n_def nat_mult_distrib)
  have exact: "round53 n = n"
    using round53_seconds [OF s(2)] by (simp add: n_def)
  show half: "half (s * second) = s * second div 2"
    by (simp add: half_def float_scale_def n(1) exact zdiv_int n(2))
  let ?p = "round53 (n * 7656119366529843)"
  have most: "most (s * second) = int (?p div 2 ^ 53)"
    by (simp add: most_def float_scale_def n(1) exact)
  note b = round53_bounds [of "n * 7656119366529843"]
  have "?p * 2 ^ 53 \<le> n * 2 ^ 53 * 2 ^ 53"
    using b(1) by simp
  then have "?p div 2 ^ 53 \<le> n"
    by simp
  then show "most (s * second) \<le> s * second"
    using most n(2) by linarith
  have "n * 2 ^ 52 * 2 ^ 53 \<le> ?p * 2 ^ 53"
    using b(2) by simp
  then have "n * 2 ^ 52 \<le> ?p"
    by simp
  then have "n * 2 ^ 52 div (2 * 2 ^ 52) \<le> ?p div (2 * 2 ^ 52)"
    by (rule div_le_mono)
  moreover have "n * 2 ^ 52 div (2 * 2 ^ 52) = n div 2"
    by (rule div_mult_mult2) simp
  ultimately have "n div 2 \<le> ?p div 2 ^ 53"
    by simp
  then show "half (s * second) \<le> most (s * second)"
    using half most n(2) by (metis zdiv_int of_nat_le_iff of_nat_numeral)
  show "0 \<le> half (s * second)"
    unfolding half using n(2) by (metis of_nat_0_le_iff pos_imp_zdiv_nonneg_iff zero_less_numeral)
qed

section \<open>Accepted leases\<close>

text \<open>A duration option is given if its value does not depend on the default.\<close>

definition duration_given :: "dhcp_lib \<Rightarrow> option_code \<Rightarrow> dhcp_options \<Rightarrow> bool" where
  "duration_given lib code opts \<longleftrightarrow> lb_Duration lib code opts 0 = lb_Duration lib code opts 1"

lemma lib_okD:
  assumes "lib_ok lib"
  shows "lb_Update lib c b opts = opts(c \<mapsto> b)"
    and "opts c = opts' c \<Longrightarrow> lb_Duration lib c opts d = lb_Duration lib c opts' d"
    and "0 \<le> s \<Longrightarrow> s < 2 ^ 32 \<Longrightarrow> lb_Duration lib c (opts(c \<mapsto> lb_Duration_ToBytes lib (s * second))) d = s * second"
proof -
  note l = assms [unfolded lib_ok_def]
  show "lb_Update lib c b opts = opts(c \<mapsto> b)"
    by (rule conjunct1 [OF l, rule_format])
  show "opts c = opts' c \<Longrightarrow> lb_Duration lib c opts d = lb_Duration lib c opts' d"
    using conjunct1 [OF conjunct2 [OF conjunct2 [OF l]], rule_format, of opts c opts'] by simp
  show "0 \<le> s \<Longrightarrow> s < 2 ^ 32 \<Longrightarrow> lb_Duration lib c (opts(c \<mapsto> lb_Duration_ToBytes lib (s * second))) d = s * second"
    using conjunct2 [OF conjunct2 [OF conjunct2 [OF conjunct2 [OF l]]], rule_format, of s c opts d] by simp
qed

lemma duration_cases:
  assumes "lib_ok lib"
  obtains "\<not> duration_given lib c opts" "\<And>d. lb_Duration lib c opts d = d"
  | s where "duration_given lib c opts" "0 \<le> s" "s < 2 ^ 32" "\<And>d. lb_Duration lib c opts d = s * second"
proof -
  from assms consider "\<forall>d. lb_Duration lib c opts d = d"
    | s where "0 \<le> s" "s < 2 ^ 32" "\<forall>d. lb_Duration lib c opts d = s * second"
    using conjunct1 [OF conjunct2 [OF conjunct2 [OF conjunct2 [OF assms [unfolded lib_ok_def]]]], rule_format, of c opts] by blast
  then show ?thesis
    by cases (use that in \<open>auto simp: duration_given_def\<close>)
qed

lemma duration_seconds:
  assumes "lib_ok lib"
  obtains s where "0 \<le> s" "s < 2 ^ 32" "lb_Duration lib c opts 0 = s * second"
  using duration_cases [OF assms, of c opts] by (metis mult_zero_left order_refl zero_less_numeral zero_less_power)

lemma acceptableLease_spec:
  assumes lib: "lib_ok lib" and ack: "acceptableLease lib m = Some ack"
  defines "lt \<equiv> lb_Duration lib OptionIPAddressLeaseTime (dm_Options ack)"
    and "t2 \<equiv> lb_Duration lib OptionRebindingTimeValue (dm_Options ack)"
    and "t1 \<equiv> lb_Duration lib OptionRenewTimeValue (dm_Options ack)"
  shows "second \<le> lt 0" "t2 0 \<le> lt 0" "t1 0 \<le> t2 0"
    and "dm_YourIPAddr ack = dm_YourIPAddr m" "To4 (dm_YourIPAddr ack) \<noteq> []"
    and "IsGlobalUnicast (dm_YourIPAddr ack) \<or> IsLinkLocalUnicast (dm_YourIPAddr ack)"
    and "duration_given lib OptionRebindingTimeValue (dm_Options ack) = duration_given lib OptionRebindingTimeValue (dm_Options m)"
    and "duration_given lib OptionRenewTimeValue (dm_Options ack) = duration_given lib OptionRenewTimeValue (dm_Options m)"
proof -
  define opts where "opts = dm_Options m"
  define opts1 where "opts1 = opts(OptionRequestedIPAddress := None, OptionParameterRequestList := None, OptionClientIdentifier := None,
    OptionMaximumDHCPMessageSize := None)"
  define opts2 where "opts2 = (if lb_Duration lib OptionRebindingTimeValue opts1 0 > lb_Duration lib OptionIPAddressLeaseTime opts1 0
    then lb_Update lib OptionRebindingTimeValue (lb_Duration_ToBytes lib (lb_Duration lib OptionIPAddressLeaseTime opts1 0)) opts1 else opts1)"
  define opts3 where "opts3 = (if lb_Duration lib OptionRenewTimeValue opts2 0 > lb_Duration lib OptionRebindingTimeValue opts2 0
    then lb_Update lib OptionRenewTimeValue (lb_Duration_ToBytes lib (lb_Duration lib OptionRebindingTimeValue opts2 0)) opts2 else opts2)"
  have ok: "second \<le> lb_Duration lib OptionIPAddressLeaseTime opts 0" "To4 (dm_YourIPAddr m) \<noteq> []"
      "IsGlobalUnicast (dm_YourIPAddr m) \<or> IsLinkLocalUnicast (dm_YourIPAddr m)"
    and final: "dm_YourIPAddr ack = dm_YourIPAddr m"
      "\<And>c. c \<notin> {OptionTFTPServerName, OptionBootfileName, OptionTFTPServerAddress} \<Longrightarrow> dm_Options ack c = opts3 c"
    using ack unfolding acceptableLease_def Let_def opts_def [symmetric] opts1_def [symmetric] opts2_def [symmetric] opts3_def [symmetric]
    by (auto simp: not_less split: if_splits)
  note upd = lib_okD(1) [OF lib] and own = lib_okD(2) [OF lib] and rt = lib_okD(3) [OF lib]
  have lt: "lt d = lb_Duration lib OptionIPAddressLeaseTime opts d" "lb_Duration lib OptionIPAddressLeaseTime opts1 d = lb_Duration lib OptionIPAddressLeaseTime opts d"
      "lb_Duration lib OptionRebindingTimeValue opts1 d = lb_Duration lib OptionRebindingTimeValue opts d"
      "lb_Duration lib OptionRenewTimeValue opts2 d = lb_Duration lib OptionRenewTimeValue opts d"
      "t2 d = lb_Duration lib OptionRebindingTimeValue opts2 d" "t1 d = lb_Duration lib OptionRenewTimeValue opts3 d" for d
    unfolding lt_def t2_def t1_def by (rule own, simp add: final(2) opts3_def opts2_def opts1_def upd)+
  have t2: "lb_Duration lib OptionRebindingTimeValue opts2 d =
      (if lb_Duration lib OptionRebindingTimeValue opts 0 > lb_Duration lib OptionIPAddressLeaseTime opts 0
       then lb_Duration lib OptionIPAddressLeaseTime opts 0 else lb_Duration lib OptionRebindingTimeValue opts d)" for d
    using rt duration_seconds [OF lib, of OptionIPAddressLeaseTime opts] by (metis lt(2,3) opts2_def upd)
  have t1: "lb_Duration lib OptionRenewTimeValue opts3 d =
      (if lb_Duration lib OptionRenewTimeValue opts 0 > lb_Duration lib OptionRebindingTimeValue opts2 0
       then lb_Duration lib OptionRebindingTimeValue opts2 0 else lb_Duration lib OptionRenewTimeValue opts d)" for d
    using rt duration_seconds [OF lib, of OptionRebindingTimeValue opts2] by (metis lt(4) opts3_def upd)
  show "second \<le> lt 0" "t2 0 \<le> lt 0" "t1 0 \<le> t2 0"
    unfolding lt t1 t2 using ok(1) by auto
  show "dm_YourIPAddr ack = dm_YourIPAddr m" "To4 (dm_YourIPAddr ack) \<noteq> []"
    "IsGlobalUnicast (dm_YourIPAddr ack) \<or> IsLinkLocalUnicast (dm_YourIPAddr ack)"
    using ok final(1) by simp_all
  have big: "duration_given lib c opts" if "lb_Duration lib c opts 0 > 0" for c
    using duration_cases [OF lib, of c opts] that by (metis less_irrefl)
  have nn: "0 \<le> lb_Duration lib c o' 0" for c o'
    using duration_seconds [OF lib, of c o'] by (metis mult_nonneg_nonneg second_def zero_le_numeral)
  show "duration_given lib OptionRebindingTimeValue (dm_Options ack) = duration_given lib OptionRebindingTimeValue (dm_Options m)"
  proof (cases "lb_Duration lib OptionRebindingTimeValue opts 0 > lb_Duration lib OptionIPAddressLeaseTime opts 0")
    case True
    then have "duration_given lib OptionRebindingTimeValue opts"
      using ok(1) by (intro big) (simp add: second_def)
    then show ?thesis
      using True lt(5) [of 0] lt(5) [of 1] t2 [of 0] t2 [of 1] by (simp add: duration_given_def t2_def opts_def)
  next
    case False
    then show ?thesis
      using lt(5) [of 0] lt(5) [of 1] t2 [of 0] t2 [of 1] by (simp add: duration_given_def t2_def opts_def)
  qed
  show "duration_given lib OptionRenewTimeValue (dm_Options ack) = duration_given lib OptionRenewTimeValue (dm_Options m)"
  proof (cases "lb_Duration lib OptionRenewTimeValue opts 0 > lb_Duration lib OptionRebindingTimeValue opts2 0")
    case True
    then have "duration_given lib OptionRenewTimeValue opts"
      using nn [of OptionRebindingTimeValue opts2] by (intro big) simp
    then show ?thesis
      using True lt(6) [of 0] lt(6) [of 1] t1 [of 0] t1 [of 1] by (simp add: duration_given_def t1_def opts_def)
  next
    case False
    then show ?thesis
      using lt(6) [of 0] lt(6) [of 1] t1 [of 0] t1 [of 1] by (simp add: duration_given_def t1_def opts_def)
  qed
qed

section \<open>Reachable clients\<close>

text \<open>A client is created, configured by its fields, and run for any number of states.\<close>

inductive dhcp_reachable :: "dhcp_lib \<Rightarrow> dhcp_client \<Rightarrow> bool" for lib where
  new: "NewClient env iface = Inr c \<Longrightarrow>
    dhcp_reachable lib (c\<lparr>cl_RequestedOptions := ro, cl_ClientIdentifier := ci, cl_VendorClassIdentifier := vi, cl_ExtraRequestOptions := eo\<rparr>)"
| run: "dhcp_reachable lib c \<Longrightarrow> cl_state c = StateDiscovering \<longrightarrow> de_wait env \<noteq> None \<Longrightarrow> runState lib env c = (c1, RunOk) \<Longrightarrow> dhcp_reachable lib c1"

lemma dhcp_reachable_valid: "dhcp_reachable lib c \<Longrightarrow> valid_client lib c"
proof (induction rule: dhcp_reachable.induct)
  case (new env iface c ro ci vi eo)
  then show ?case
    by (auto simp: NewClient_def valid_defs split: if_splits)
next
  case (run c env c1)
  then show ?case
    using runState_valid [of lib c env] by (simp add: keeps_valid_def)
qed

lemma lease_deadlines:
  assumes lib: "lib_ok lib" and "accepted lib ack" and dl: "deadlines_of lib ack sentTime c"
  shows "sentTime + second \<le> cl_leaseDeadline c" "sentTime \<le> cl_leaseBoundDeadline c" "cl_leaseBoundDeadline c \<le> cl_leaseDeadline c"
    "cl_leaseRenewDeadline c \<le> cl_leaseDeadline c"
    "duration_given lib OptionRenewTimeValue (dm_Options ack) \<or> \<not> duration_given lib OptionRebindingTimeValue (dm_Options ack) \<Longrightarrow>
       cl_leaseBoundDeadline c \<le> cl_leaseRenewDeadline c"
proof -
  obtain m where m: "acceptableLease lib m = Some ack"
    using assms(2) by (auto simp: accepted_def)
  note spec = acceptableLease_spec [OF lib m]
  let ?D = "\<lambda>c. lb_Duration lib c (dm_Options ack)"
  obtain s where s: "0 \<le> s" "s < 2 ^ 32" "?D OptionIPAddressLeaseTime 0 = s * second"
    by (rule duration_seconds [OF lib])
  note fr = lease_fractions [OF s(1,2)]
  note d = dl [unfolded deadlines_of_def Let_def s(3)]
  have nn: "0 \<le> s * second"
    using s(1) by (simp add: second_def)
  show "sentTime + second \<le> cl_leaseDeadline c"
    using spec(1) d s(3) by simp
  have t2: "?D OptionRebindingTimeValue (most (s * second)) \<le> s * second"
    using spec(2) s(3) fr(3) duration_cases [OF lib, of OptionRebindingTimeValue "dm_Options ack"] by metis
  then show "cl_leaseRenewDeadline c \<le> cl_leaseDeadline c"
    using d by simp
  have "0 \<le> ?D OptionRenewTimeValue (half (s * second)) \<and> ?D OptionRenewTimeValue (half (s * second)) \<le> s * second"
  proof (cases rule: duration_cases [OF lib, of OptionRenewTimeValue "dm_Options ack"])
    case 1
    then show ?thesis
      using fr nn by simp
  next
    case (2 t)
    then show ?thesis
      using spec(2,3) s(3) by (simp add: second_def)
  qed
  then show "sentTime \<le> cl_leaseBoundDeadline c" "cl_leaseBoundDeadline c \<le> cl_leaseDeadline c"
    using d by simp_all
  assume given: "duration_given lib OptionRenewTimeValue (dm_Options ack) \<or> \<not> duration_given lib OptionRebindingTimeValue (dm_Options ack)"
  have "?D OptionRenewTimeValue (half (s * second)) \<le> ?D OptionRebindingTimeValue (most (s * second))"
  proof (cases rule: duration_cases [OF lib, of OptionRenewTimeValue "dm_Options ack"])
    case 1
    then show ?thesis
      using given fr(2) duration_cases [OF lib, of OptionRebindingTimeValue "dm_Options ack"] by metis
  next
    case (2 t)
    show ?thesis
    proof (cases rule: duration_cases [OF lib, of OptionRebindingTimeValue "dm_Options ack"])
      case 1
      then show ?thesis
        using 2 spec(3) fr by simp
    qed (use 2 spec(3) in simp)
  qed
  then show "cl_leaseBoundDeadline c \<le> cl_leaseRenewDeadline c"
    using d by simp
qed

section \<open>The end of a lease\<close>

text \<open>An environment in which nothing fails and the client is not stopped.\<close>

definition env_ok :: "dhcp_env \<Rightarrow> bool" where
  "env_ok env \<longleftrightarrow> de_xid env \<noteq> None \<and> \<not> de_canceled env \<and> de_callback env \<and> de_broadcastOpen env \<and> de_broadcastClose env \<and>
     de_unicastOpen env \<and> de_unicastClose env"

lemma past_deadline:
  assumes "env_ok env" and "ts_stateDeadline s = Some d" and "d \<le> de_now env" and "ts_setExtraOptions s = set_client_ip c" and "cl_lease c \<noteq> None"
  shows "runTransactionState lib env s c = deadline_exceeded s c"
  using assms by (auto simp: runTransactionState_def newMsg_def env_ok_def set_client_ip_def millisecond_def Let_def split: option.splits)

lemma rebinding_ends:
  assumes "valid_client lib c" and "cl_state c = StateRebinding" and "env_ok env" and "cl_leaseDeadline c \<le> de_now env"
  shows "\<exists>c1. runState lib env c = (c1, RunOk) \<and> cl_state c1 = StateDiscovering \<and> cl_callbacks c1 = None # cl_callbacks c"
proof -
  have "cl_lease c \<noteq> None"
    using assms(1,2) by (auto simp: valid_defs)
  then have "runState lib env c = leaseToDiscovering env c"
    using past_deadline [OF assms(3), of "spec_rebinding lib env c" "cl_leaseDeadline c" c lib] assms(2,4)
    by (simp add: runState_def spec_rebinding_def deadline_exceeded_def)
  then show ?thesis
    using assms(2,3) by (simp add: leaseToDiscovering_def lease_callback_def env_ok_def)
qed

lemma renewing_ends:
  assumes "valid_client lib c" and "cl_state c = StateRenewing" and "env_ok env" and "cl_leaseRenewDeadline c \<le> de_now env"
  shows "\<exists>c1. runState lib env c = (c1, RunOk) \<and> cl_state c1 = StateRebinding \<and> cl_callbacks c1 = cl_callbacks c \<and>
    cl_leaseDeadline c1 = cl_leaseDeadline c"
proof -
  have "cl_lease c \<noteq> None" "on_unicast c"
    using assms(1,2) by (auto simp: valid_defs)
  then have "runState lib env c = switchToBroadcast env (c\<lparr>cl_state := StateRebinding\<rparr>)"
    using past_deadline [OF assms(3), of "spec_renewing lib env c" "cl_leaseRenewDeadline c" c lib] assms(2,4)
    by (simp add: runState_def spec_renewing_def deadline_exceeded_def)
  then show ?thesis
    using assms(3) \<open>on_unicast c\<close> by (simp add: transport_defs env_ok_def on_unicast_def)
qed

section \<open>An example\<close>

text \<open>Functions as the package has them, for the options that the example uses, and a client that is bound by
  an acknowledgement with a lease time of a minute.\<close>

definition be32 :: "8 word list \<Rightarrow> nat option" where
  "be32 bs = (case bs of [a, b, c, d] \<Rightarrow> Some (((unat a * 256 + unat b) * 256 + unat c) * 256 + unat d) | _ \<Rightarrow> None)"

definition be32_bytes :: "nat \<Rightarrow> 8 word list" where
  "be32_bytes n = [word_of_nat (n div 256 ^ 3), word_of_nat (n div 256 ^ 2), word_of_nat (n div 256), word_of_nat n]"

definition example_lib :: dhcp_lib where
  "example_lib =
     \<lparr>lb_Update = (\<lambda>c b opts. opts(c \<mapsto> b)),
      lb_MessageType = (\<lambda>opts. if opts OptionDHCPMessageType = Some [5] then MessageTypeAck else MessageTypeOther 0),
      lb_ServerIdentifier = (\<lambda>opts. case opts OptionServerIdentifier of None \<Rightarrow> [] | Some b \<Rightarrow> b),
      lb_Duration = (\<lambda>c opts d. case Option.bind (opts c) be32 of None \<Rightarrow> d | Some n \<Rightarrow> int n * second),
      lb_Duration_ToBytes = (\<lambda>d. be32_bytes (nat (d div second))),
      lb_OptMessageType = (\<lambda>t. [case t of MessageTypeDiscover \<Rightarrow> 1 | _ \<Rightarrow> 3]),
      lb_OptParameterRequestList = (\<lambda>codes. map (\<lambda>_. 0) codes), lb_OptMaxMessageSize = (\<lambda>n. [ucast (n div 256), ucast n]), lb_OptIP = To4,
      lb_GetOneOption = (\<lambda>c opts. case opts c of None \<Rightarrow> [] | Some b \<Rightarrow> b),
      lb_GetIP = (\<lambda>c opts. case opts c of None \<Rightarrow> [] | Some b \<Rightarrow> b),
      lb_GetIPs = (\<lambda>c opts. case opts c of None \<Rightarrow> [] | Some b \<Rightarrow> [b]), lb_Get = (\<lambda>c opts. opts c), lb_Routes_FromBytes = (\<lambda>_. [])\<rparr>"

lemma be32_bound: "be32 bs = Some n \<Longrightarrow> n < 2 ^ 32"
proof -
  have u: "unat w \<le> 255" for w :: "8 word"
  proof -
    have "unat w < 2 ^ LENGTH(8)"
      by (rule unsigned_less)
    then show ?thesis
      by simp
  qed
  assume "be32 bs = Some n"
  then obtain a b c d :: "8 word" where "n = ((unat a * 256 + unat b) * 256 + unat c) * 256 + unat d"
    by (auto simp: be32_def split: list.splits)
  then show "n < 2 ^ 32"
    using u [of a] u [of b] u [of c] u [of d] by simp
qed

lemma be32_round_trip: "n < 2 ^ 32 \<Longrightarrow> be32 (be32_bytes n) = Some n"
proof -
  assume n: "n < 2 ^ 32"
  define a where "a = n div 256"
  define b where "b = a div 256"
  define c where "c = b div 256"
  have "n div 65536 = b" "n div 16777216 = c"
    by (simp_all add: a_def b_def c_def flip: div_mult2_eq)
  moreover have "c mod 256 = c"
    using n by (simp add: a_def b_def c_def flip: div_mult2_eq)
  moreover have "c * 256 + b mod 256 = b" "b * 256 + a mod 256 = a" "a * 256 + n mod 256 = n"
    unfolding c_def b_def a_def by (rule div_mult_mod_eq)+
  ultimately have "((n div 16777216 mod 256 * 256 + n div 65536 mod 256) * 256 + n div 256 mod 256) * 256 + n mod 256 = n"
    by (simp only: a_def [symmetric])
  moreover have "n div 16777216 mod 256 = n div 16777216"
    using \<open>n div 16777216 = c\<close> \<open>c mod 256 = c\<close> by simp
  ultimately show ?thesis
    by (simp add: be32_def be32_bytes_def unat_of_nat)
qed

lemma example_lib_ok: "lib_ok example_lib"
proof -
  have "(\<forall>d. lb_Duration example_lib c opts d = d) \<or> (\<exists>s. 0 \<le> s \<and> s < 2 ^ 32 \<and> (\<forall>d. lb_Duration example_lib c opts d = s * second))" for c opts
  proof (cases "Option.bind (opts c) be32")
    case (Some n)
    then have "n < 2 ^ 32"
      by (cases "opts c") (auto dest: be32_bound)
    then show ?thesis
      using Some by (intro disjI2 exI [of _ "int n"]) (simp add: example_lib_def)
  qed (simp add: example_lib_def)
  moreover have "lb_Duration example_lib c (opts(c \<mapsto> lb_Duration_ToBytes example_lib (s * second))) d = s * second"
    if "0 \<le> s" "s < 2 ^ 32" for c opts s d
    using that be32_round_trip [of "nat s"] by (simp add: example_lib_def second_def nat_less_iff)
  ultimately show ?thesis
    unfolding lib_ok_def by (simp add: example_lib_def)
qed

definition example_env :: dhcp_env where
  "example_env =
     \<lparr>de_now = 0, de_xid = Some [1, 2, 3, 4], de_wait = Some second, de_send = True, de_setDeadline = True,
      de_received = [Received (Inr \<lparr>dm_OpCode = OpcodeBootReply, dm_HWType = HWTypeEthernet, dm_HopCount = 0, dm_NumSeconds = 0, dm_Flags = 0,
        dm_ClientHWAddr = [2, 0, 0, 0, 0, 1], dm_TransactionID = [1, 2, 3, 4], dm_ClientIPAddr = [], dm_YourIPAddr = [10, 0, 0, 5], dm_ServerIPAddr = [],
        dm_GatewayIPAddr = [], dm_ServerHostName = [], dm_BootFileName = [],
        dm_Options = [OptionDHCPMessageType \<mapsto> [5], OptionServerIdentifier \<mapsto> [10, 0, 0, 1], OptionIPAddressLeaseTime \<mapsto> [0, 0, 0, 60]]\<rparr>) False],
      de_canceled = False, de_callback = True, de_broadcastOpen = True, de_broadcastClose = True, de_unicastOpen = True, de_unicastClose = True\<rparr>"

definition example_iface :: dhcp_iface where
  "example_iface = \<lparr>if_HardwareAddr = [2, 0, 0, 0, 0, 1], if_MTU = 1500\<rparr>"

definition example_new :: dhcp_client where
  "example_new = (case NewClient example_env example_iface of Inl _ \<Rightarrow> undefined | Inr c \<Rightarrow> c)"

definition example_bound :: dhcp_client where
  "example_bound = fst (runState example_lib example_env example_new)"

lemma example_new_reachable: "dhcp_reachable lib example_new"
proof -
  have "NewClient example_env example_iface = Inr example_new"
    by (simp add: example_new_def NewClient_def example_env_def example_iface_def)
  from dhcp_reachable.new [OF this, where lib = lib and ro = "cl_RequestedOptions example_new" and ci = "cl_ClientIdentifier example_new" and
      vi = "cl_VendorClassIdentifier example_new" and eo = "cl_ExtraRequestOptions example_new"] show ?thesis
    by simp
qed

lemma replicate_4: "replicate 4 x = [x, x, x, x]"
  by (simp add: numeral_eq_Suc)

lemma example_bound_run: "snd (runState example_lib example_env example_new) = RunOk" "cl_state example_bound = StateBound" "cl_lease example_bound \<noteq> None"
  "cl_leaseDeadline example_bound = 60 * second"
  by (simp_all add: example_bound_def runState_def runTransactionState_def spec_discovering_def handle_discovering_def example_new_def NewClient_def
      example_env_def example_iface_def newMsg_def example_lib_def update_option_def Let_def transport_open_def acceptableLease_def be32_def second_def
      To4_def IsGlobalUnicast_def IsUnspecified_def IsLoopback_def IsMulticast_def IsLinkLocalUnicast_def ip_Equal_def IPv4bcast_def IPv4zero_def
      IPv4_def v4InV6Prefix_def IPv6unspecified_def handled_of_def transitionToBound_def lease_callback_def transport_defs
      replicate_4)

lemma example_bound_reachable: "dhcp_reachable example_lib example_bound"
proof (rule dhcp_reachable.run [OF example_new_reachable])
  show "cl_state example_new = StateDiscovering \<longrightarrow> de_wait example_env \<noteq> None"
    by (simp add: example_env_def)
  show "runState example_lib example_env example_new = (example_bound, RunOk)"
    using example_bound_run(1) by (simp add: example_bound_def prod_eq_iff)
qed

section \<open>Properties\<close>

text \<open>C4: Whatever the server, the network and the callback do, a DHCP client that has been configured and
  run for any number of states has valid fields as its comments say: the broadcast transport is open
  exactly when discovering, requesting or rebinding and the unicast transport exactly when bound or
  renewing; an offer is there when requesting; a lease is held exactly when bound, renewing or
  rebinding, it was accepted, its deadlines are those of the acknowledgement, and the last call of the
  lease callback announced it; otherwise the last call, if any, said that there is no lease. Running
  the next state does not panic, provided that the backoff for discovering never gives up.\<close>

theorem dhcp_client_valid:
  assumes "dhcp_reachable lib c"
  shows "valid_client lib c \<and> (cl_state c = StateDiscovering \<longrightarrow> de_wait env \<noteq> None \<longrightarrow> \<not> panics (snd (runState lib env c))) \<and>
    (cl_state c \<noteq> StateDiscovering \<longrightarrow> \<not> panics (snd (runState lib env c)))"
  using dhcp_reachable_valid [OF assms] runState_valid [of lib c env] by (auto simp: keeps_valid_def)

theorem dhcp_client_valid_witness:
  "valid_client example_lib example_bound \<and> \<not> panics (snd (runState example_lib example_env example_bound))"
  using dhcp_client_valid [OF example_bound_reachable, of example_env] example_bound_run(2) by simp

text \<open>C19: In every state with a lease, the client renews and rebinds before the lease ends, and it starts
  renewing before it gives up on renewing, unless the server gave a rebinding time but no renewal time.\<close>

theorem dhcp_deadlines_ordered:
  assumes "lib_ok lib" and "dhcp_reachable lib c" and "cl_lease c = Some ack" and "cl_state c \<notin> {StateDiscovering, StateRequesting}"
  shows "cl_leaseBoundDeadline c \<le> cl_leaseDeadline c \<and> cl_leaseRenewDeadline c \<le> cl_leaseDeadline c \<and>
    (duration_given lib OptionRenewTimeValue (dm_Options ack) \<or> \<not> duration_given lib OptionRebindingTimeValue (dm_Options ack) \<longrightarrow>
       cl_leaseBoundDeadline c \<le> cl_leaseRenewDeadline c)"
proof -
  obtain sentTime where "accepted lib ack" "deadlines_of lib ack sentTime c"
    using dhcp_reachable_valid [OF assms(2)] assms(3,4) by (cases "cl_state c") (auto simp: valid_client_def holds_lease_def)
  then show ?thesis
    using lease_deadlines [OF assms(1)] by blast
qed

theorem dhcp_deadlines_ordered_witness:
  "cl_leaseBoundDeadline example_bound \<le> 60 * second \<and> cl_leaseRenewDeadline example_bound \<le> 60 * second"
proof -
  obtain ack where "cl_lease example_bound = Some ack"
    using example_bound_run(3) by auto
  from dhcp_deadlines_ordered [OF example_lib_ok example_bound_reachable this] show ?thesis
    using example_bound_run(2,4) by simp
qed

text \<open>C13: An expired lease is given up: if a client holds a lease and the next three runs of its states
  find that the lease has expired, and nothing fails, then within these runs it is back to discovering
  and has told the lease callback that there is no lease any more.\<close>

theorem dhcp_expired_lease_released:
  assumes lib: "lib_ok lib" and reach: "dhcp_reachable lib c" and held: "cl_state c \<notin> {StateDiscovering, StateRequesting}"
    and envs: "length envs = 3" "\<forall>env \<in> set envs. env_ok env \<and> cl_leaseDeadline c \<le> de_now env"
  shows "\<exists>n c1. n \<le> 3 \<and> dhcp_Run lib (take n envs) c = (c1, RunOk) \<and> cl_state c1 = StateDiscovering \<and> cl_callbacks c1 = None # cl_callbacks c"
proof -
  obtain e1 e2 e3 where e: "envs = [e1, e2, e3]"
    using envs(1) by (auto simp: numeral_3_eq_3 length_Suc_conv)
  note valid = dhcp_reachable_valid [OF reach]
  obtain ack sentTime where "accepted lib ack" "deadlines_of lib ack sentTime c"
    using valid held by (cases "cl_state c") (auto simp: valid_client_def holds_lease_def)
  then have renew: "cl_leaseRenewDeadline c \<le> cl_leaseDeadline c"
    using lease_deadlines [OF lib] by blast
  have two: "\<exists>c2. dhcp_Run lib [x, y] c1 = (c2, RunOk) \<and> cl_state c2 = StateDiscovering \<and> cl_callbacks c2 = None # cl_callbacks c1"
    if c1: "valid_client lib c1" "cl_state c1 = StateRenewing" "cl_leaseDeadline c1 = cl_leaseDeadline c" "cl_leaseRenewDeadline c1 = cl_leaseRenewDeadline c"
      and xy: "{x, y} \<subseteq> set envs" for x y c1
  proof -
    obtain c2 where c2: "runState lib x c1 = (c2, RunOk)" "cl_state c2 = StateRebinding" "cl_callbacks c2 = cl_callbacks c1"
        "cl_leaseDeadline c2 = cl_leaseDeadline c"
      using renewing_ends [OF c1(1,2), of x] envs(2) xy renew c1(3,4) by force
    have "valid_client lib c2"
      using runState_valid [OF c1(1), of x] c1(2) c2(1) by (simp add: keeps_valid_def)
    then show ?thesis
      using rebinding_ends [of lib c2 y] c2 envs(2) xy by force
  qed
  show ?thesis
  proof (cases "cl_state c")
    case StateBound
    let ?c = "c\<lparr>cl_state := StateRenewing\<rparr>"
    have run: "runState lib e1 c = (?c, RunOk)"
      using StateBound envs(2) e by (simp add: runState_def env_ok_def)
    then have "valid_client lib ?c"
      using runState_valid [OF valid, of e1] StateBound by (simp add: keeps_valid_def)
    then show ?thesis
      using two [of ?c e2 e3] run e by (intro exI [of _ 3]) simp
  next
    case StateRenewing
    then show ?thesis
      using two [OF valid, of e1 e2] e by (intro exI [of _ 2]) simp
  next
    case StateRebinding
    then show ?thesis
      using rebinding_ends [OF valid, of e1] e envs(2) by (intro exI [of _ 1]) auto
  qed (use held in simp_all)
qed

theorem dhcp_expired_lease_released_witness:
  "\<exists>n c1. n \<le> 3 \<and> dhcp_Run example_lib (take n (replicate 3 (example_env\<lparr>de_now := 60 * second\<rparr>))) example_bound = (c1, RunOk) \<and>
     cl_state c1 = StateDiscovering \<and> cl_callbacks c1 = None # cl_callbacks example_bound"
proof -
  have "\<forall>env \<in> set (replicate 3 (example_env\<lparr>de_now := 60 * second\<rparr>)). env_ok env \<and> cl_leaseDeadline example_bound \<le> de_now env"
    by (simp add: env_ok_def example_env_def example_bound_run(4))
  from dhcp_expired_lease_released [OF example_lib_ok example_bound_reachable _ _ this] show ?thesis
    using example_bound_run(2) by simp
qed

text \<open>If the first packet that a client in DISCOVERING receives is reported by a pointer to \<^verbatim>\<open>InvalidMessageError\<close>, as the
  transports report a packet that they cannot read, the client ends with an error instead of ignoring the packet, since it looks for the
  error by value.\<close>

theorem dhcp_unreadable_packet_ends_run:
  assumes "dhcp_reachable lib c" and "cl_state c = StateDiscovering" and "env_ok env" and "de_wait env \<noteq> None" and "de_send env" and "de_setDeadline env"
    and "de_received env = Received (Inl InvalidMessageErrorPointer) False # rs"
  shows "snd (runState lib env c) = RunErr ''failed to receive packet''"
proof -
  have "cl_broadcastOpen c"
    using dhcp_reachable_valid [OF assms(1)] assms(2) by (simp add: valid_defs)
  then show ?thesis
    using assms(2-) by (auto simp: runState_def runTransactionState_def spec_discovering_def newMsg_def env_ok_def transport_open_def update_option_def Let_def)
qed

theorem dhcp_unreadable_packet_ends_run_witness:
  "snd (runState example_lib (example_env\<lparr>de_received := [Received (Inl InvalidMessageErrorPointer) False]\<rparr>) example_new) =
     RunErr ''failed to receive packet''"
  using dhcp_unreadable_packet_ends_run [OF example_new_reachable, where env = "example_env\<lparr>de_received := [Received (Inl InvalidMessageErrorPointer) False]\<rparr>"
      and lib = example_lib and rs = "[]"]
  by (simp add: example_new_def NewClient_def example_env_def example_iface_def env_ok_def)

text \<open>If a server gives a renewal time but no rebinding time, the renewal time is clamped to zero: the
  client starts to renew the lease as soon as it has it.\<close>

lemma dhcp_renewal_time_lost:
  assumes "lib_ok lib" and "acceptableLease lib m = Some ack"
    and "duration_given lib OptionRenewTimeValue (dm_Options m)" and "\<not> duration_given lib OptionRebindingTimeValue (dm_Options m)"
  shows "cl_leaseBoundDeadline (fst (transitionToBound lib env ack sentTime c)) = sentTime"
proof -
  note spec = acceptableLease_spec [OF assms(1,2)]
  have "lb_Duration lib OptionRebindingTimeValue (dm_Options ack) 0 = 0"
    using duration_cases [OF assms(1), of OptionRebindingTimeValue "dm_Options ack"] spec(7) assms(4) by metis
  moreover obtain s where s: "0 \<le> s" "\<And>d. lb_Duration lib OptionRenewTimeValue (dm_Options ack) d = s * second"
    using duration_cases [OF assms(1), of OptionRenewTimeValue "dm_Options ack"] spec(8) assms(3) by metis
  ultimately have "s = 0"
    using spec(3) by (simp add: second_def)
  then show ?thesis
    using s(2) by (auto simp: transitionToBound_def Let_def lease_callback_def transport_defs)
qed

end
