(* ===== verification/DhcpLease.thy ===== *)
theory DhcpLease
  imports Dhcp "HOL-Library.Sublist"
begin

text \<open>
  What a lease says about the network, \<^verbatim>\<open>metropolis/node/core/network/dhcp4c/lease.go\<close>: the subnet, the
  routes and the DNS servers. A nil lease is \<open>None\<close>. The functions of the package \<^verbatim>\<open>dhcpv4\<close> that decode
  options are an argument, as in \<open>Dhcp\<close>.
\<close>

section \<open>Options of a lease\<close>

definition lease_SubnetMask :: "dhcp_lib \<Rightarrow> dhcp_lease option \<Rightarrow> ip_mask" where
  "lease_SubnetMask lib l =
     (case l of
        None \<Rightarrow> []
      | Some lease \<Rightarrow>
          (let msk = lb_GetIP lib OptionSubnetMask (ls_Options lease) in
           if snd (mask_Size msk) \<noteq> 32 then DefaultMask (ls_AssignedIP lease) else msk))"

definition lease_IPNet :: "dhcp_lib \<Rightarrow> dhcp_lease option \<Rightarrow> ip_net option" where
  "lease_IPNet lib l = (case l of None \<Rightarrow> None | Some lease \<Rightarrow> Some \<lparr>in_IP = ls_AssignedIP lease, in_Mask = lease_SubnetMask lib l\<rparr>)"

text \<open>The tests of the loop of \<^verbatim>\<open>sanitizeRoutes\<close>, given the routes kept so far.\<close>

definition router_reachable :: "ip_net \<Rightarrow> dhcp_route list \<Rightarrow> ip \<Rightarrow> bool" where
  "router_reachable assignedNet saneRoutes router \<longleftrightarrow>
     list_ex (\<lambda>r. net_Contains (rt_Dest r) router) saneRoutes \<or> net_Contains assignedNet router"

definition sane_route :: "ip_net \<Rightarrow> dhcp_route list \<Rightarrow> dhcp_route \<Rightarrow> bool" where
  "sane_route assignedNet saneRoutes route =
     (let (ones, bits) = mask_Size (in_Mask (rt_Dest route)); assignedOnes = fst (mask_Size (in_Mask assignedNet)) in
      if rt_Router route \<noteq> [] \<and> \<not> IsUnspecified (rt_Router route) \<and>
         (\<not> IsGlobalUnicast (rt_Router route) \<and> \<not> IsLinkLocalUnicast (rt_Router route) \<or> \<not> router_reachable assignedNet saneRoutes (rt_Router route))
      then False
      else if bits = 0 \<and> length (in_Mask (rt_Dest route)) > 0 then False
      else if IsLoopback (in_IP (rt_Dest route)) \<and> ones \<ge> 8 then False
      else if ip_Equal (in_IP assignedNet) (in_IP (rt_Dest route)) \<and> assignedOnes = ones then False
      else \<not> list_ex (\<lambda>r. ip_Equal (in_IP (rt_Dest r)) (in_IP (rt_Dest route)) \<and> ones = fst (mask_Size (in_Mask (rt_Dest r)))) saneRoutes)"

fun sanitize_loop :: "ip_net \<Rightarrow> dhcp_route list \<Rightarrow> dhcp_route list \<Rightarrow> dhcp_route list" where
  "sanitize_loop assignedNet [] saneRoutes = saneRoutes"
| "sanitize_loop assignedNet (route # routes) saneRoutes =
     sanitize_loop assignedNet routes (if sane_route assignedNet saneRoutes route then saneRoutes @ [route] else saneRoutes)"

definition sanitizeRoutes :: "dhcp_route list \<Rightarrow> ip_net \<Rightarrow> dhcp_route list" where
  "sanitizeRoutes routes assignedNet = sanitize_loop assignedNet routes []"

text \<open>The legacy routes, pairs of a destination and a router; a last address without a partner is cut off.\<close>

fun legacy_routes :: "ip list \<Rightarrow> dhcp_route list" where
  "legacy_routes (dest # via # ips) =
     (if IsUnspecified dest then legacy_routes ips
      else \<lparr>rt_Dest = \<lparr>in_IP = ip_Mask dest (DefaultMask dest), in_Mask = DefaultMask dest\<rparr>, rt_Router = via\<rparr> # legacy_routes ips)"
| "legacy_routes _ = []"

fun default_routes :: "ip list \<Rightarrow> dhcp_route list" where
  "default_routes [] = []"
| "default_routes (r # rs) =
     (if IsGlobalUnicast r \<or> IsLinkLocalUnicast r
      then [\<lparr>rt_Dest = \<lparr>in_IP = IPv4zero, in_Mask = [0, 0, 0, 0]\<rparr>, rt_Router = r\<rparr>] else default_routes rs)"

definition lease_Routes :: "dhcp_lib \<Rightarrow> dhcp_lease option \<Rightarrow> dhcp_route list" where
  "lease_Routes lib l =
     (case l of
        None \<Rightarrow> []
      | Some lease \<Rightarrow>
          (let assignedNet = \<lparr>in_IP = ip_Mask (ls_AssignedIP lease) (lease_SubnetMask lib l), in_Mask = lease_SubnetMask lib l\<rparr> in
           case lb_Get lib OptionClasslessStaticRoute (ls_Options lease) of
             Some raw \<Rightarrow> sanitizeRoutes (lb_Routes_FromBytes lib raw) assignedNet
           | None \<Rightarrow>
               sanitizeRoutes (legacy_routes (lb_GetIPs lib OptionStaticRoutingTable (ls_Options lease)) @
                               default_routes (lb_GetIPs lib OptionRouter (ls_Options lease))) assignedNet))"

section \<open>DNS servers\<close>

fun DNSServers_Equal :: "ip list \<Rightarrow> ip list \<Rightarrow> bool" where
  "DNSServers_Equal [] [] = True"
| "DNSServers_Equal (a # as) (b # bs) = (ip_Equal a b \<and> DNSServers_Equal as bs)"
| "DNSServers_Equal _ _ = False"

definition ip4toInt :: "ip \<Rightarrow> 32 word" where
  "ip4toInt a =
     (if To4 a = [] then 0
      else word_of_nat (((unat (To4 a ! 0) * 256 + unat (To4 a ! 1)) * 256 + unat (To4 a ! 2)) * 256 + unat (To4 a ! 3)))"

fun dns_loop :: "ip list \<Rightarrow> 32 word list \<Rightarrow> ip list \<Rightarrow> ip list" where
  "dns_loop [] seen servers = servers"
| "dns_loop (s # ss) seen servers =
     (if IsGlobalUnicast s \<or> IsLinkLocalUnicast s
      then (if ip4toInt s \<in> set seen then dns_loop ss seen servers else dns_loop ss (ip4toInt s # seen) (servers @ [s]))
      else dns_loop ss seen servers)"

definition lease_DNSServers :: "dhcp_lib \<Rightarrow> dhcp_lease option \<Rightarrow> ip list" where
  "lease_DNSServers lib l =
     (case l of None \<Rightarrow> [] | Some lease \<Rightarrow> dns_loop (lb_GetIPs lib OptionDomainNameServer (ls_Options lease)) [] [])"

section \<open>Sane routes\<close>

text \<open>A list of routes is sane if every route is sane after the ones before it.\<close>

fun all_sane :: "ip_net \<Rightarrow> dhcp_route list \<Rightarrow> dhcp_route list \<Rightarrow> bool" where
  "all_sane net before [] = True"
| "all_sane net before (r # rs) = (sane_route net before r \<and> all_sane net (before @ [r]) rs)"

lemma all_sane_snoc: "all_sane net before (rs @ [r]) \<longleftrightarrow> all_sane net before rs \<and> sane_route net (before @ rs) r"
  by (induction rs arbitrary: before) auto

lemma all_sane_nth: "all_sane net before rs \<Longrightarrow> i < length rs \<Longrightarrow> sane_route net (before @ take i rs) (rs ! i)"
proof (induction rs arbitrary: before i)
  case (Cons r rs)
  then show ?case
    using Cons.IH [of "before @ [r]" "i - 1"] by (cases i) auto
qed simp

lemma sanitize_loop_sane: "all_sane net [] sane \<Longrightarrow> all_sane net [] (sanitize_loop net rs sane)"
  by (induction net rs sane rule: sanitize_loop.induct) (auto simp: all_sane_snoc)

lemma sanitize_loop_extends: "\<exists>ks. sanitize_loop net rs sane = sane @ ks \<and> subseq ks rs"
proof (induction net rs sane rule: sanitize_loop.induct)
  case (2 net r rs sane)
  then show ?case
    by (cases "sane_route net sane r") (auto intro: subseq_Cons')
qed simp

lemma sanitize_loop_id: "all_sane net sane rs \<Longrightarrow> sanitize_loop net rs sane = sane @ rs"
  by (induction rs arbitrary: sane) auto

lemma sanitize_loop_append: "sanitize_loop net (rs @ rs') sane = sanitize_loop net rs' (sanitize_loop net rs sane)"
  by (induction net rs sane rule: sanitize_loop.induct) auto

text \<open>When a route may follow the ones kept before it: its router, if it has one, is a unicast address inside the assigned network
  or a destination kept before; its mask is ones followed by zeros; it does not lead to a loopback address with 8 or more
  ones; and its destination is neither the assigned network nor one kept before.\<close>

definition same_dest :: "ip_net \<Rightarrow> ip_net \<Rightarrow> bool" where
  "same_dest a b \<longleftrightarrow> ip_Equal (in_IP a) (in_IP b) \<and> fst (mask_Size (in_Mask a)) = fst (mask_Size (in_Mask b))"

definition route_accepted :: "ip_net \<Rightarrow> dhcp_route list \<Rightarrow> dhcp_route \<Rightarrow> bool" where
  "route_accepted net kept r \<longleftrightarrow>
     (rt_Router r \<noteq> [] \<and> \<not> IsUnspecified (rt_Router r) \<longrightarrow>
        (IsGlobalUnicast (rt_Router r) \<or> IsLinkLocalUnicast (rt_Router r)) \<and>
        (net_Contains net (rt_Router r) \<or> (\<exists>k \<in> set kept. net_Contains (rt_Dest k) (rt_Router r)))) \<and>
     (in_Mask (rt_Dest r) \<noteq> [] \<longrightarrow> simpleMaskLength (in_Mask (rt_Dest r)) 0 \<noteq> None) \<and>
     \<not> (IsLoopback (in_IP (rt_Dest r)) \<and> fst (mask_Size (in_Mask (rt_Dest r))) \<ge> 8) \<and>
     \<not> same_dest net (rt_Dest r) \<and>
     (\<forall>k \<in> set kept. \<not> same_dest (rt_Dest k) (rt_Dest r))"

lemma mask_Size_bits: "snd (mask_Size m) = 0 \<and> m \<noteq> [] \<longleftrightarrow> m \<noteq> [] \<and> simpleMaskLength m 0 = None"
  by (auto simp: mask_Size_def Let_def split: option.splits if_splits)

lemma sane_route_iff: "sane_route net kept r \<longleftrightarrow> route_accepted net kept r"
proof -
  obtain ones bits where size: "mask_Size (in_Mask (rt_Dest r)) = (ones, bits)"
    by fastforce
  then have "bits = 0 \<and> in_Mask (rt_Dest r) \<noteq> [] \<longleftrightarrow> in_Mask (rt_Dest r) \<noteq> [] \<and> simpleMaskLength (in_Mask (rt_Dest r)) 0 = None"
    using mask_Size_bits [of "in_Mask (rt_Dest r)"] by simp
  then show ?thesis
    by (auto simp: sane_route_def route_accepted_def router_reachable_def same_dest_def size list_ex_iff)
qed

text \<open>C14: The routes that are taken from a lease are a subsequence of those that the server sent. A route that the server sent is taken
  exactly if, after the routes taken before it, its router, if it has one, is a unicast address that is reachable through the
  assigned network or one of these routes, its mask is ones followed by zeros, it does not have a loopback address as destination and
  a mask of 8 or more ones, and its destination is neither the assigned network nor that of one of these routes. Every
  route that is taken meets this after the ones in front of it, and sanitizing again drops nothing. A route with fewer
  than 8 ones may still contain the loopback addresses.\<close>

theorem sanitizeRoutes_correct:
  fixes rs net defines "ks \<equiv> sanitizeRoutes rs net"
  shows "sanitizeRoutes [] net = [] \<and>
    (\<forall>i < length rs. sanitizeRoutes (take (Suc i) rs) net =
       sanitizeRoutes (take i rs) net @ (if route_accepted net (sanitizeRoutes (take i rs) net) (rs ! i) then [rs ! i] else [])) \<and>
    subseq ks rs \<and>
    (\<forall>i < length ks. route_accepted net (take i ks) (ks ! i)) \<and>
    sanitizeRoutes ks net = ks"
proof -
  have sane: "all_sane net [] ks"
    by (simp add: ks_def sanitizeRoutes_def sanitize_loop_sane)
  have "sanitizeRoutes (take (Suc i) rs) net =
      sanitizeRoutes (take i rs) net @ (if route_accepted net (sanitizeRoutes (take i rs) net) (rs ! i) then [rs ! i] else [])" if "i < length rs" for i
    using that by (simp add: sanitizeRoutes_def take_Suc_conv_app_nth sanitize_loop_append sane_route_iff)
  moreover have "subseq ks rs"
    using sanitize_loop_extends [of net rs "[]"] by (auto simp: ks_def sanitizeRoutes_def)
  moreover have "sanitizeRoutes ks net = ks"
    using sanitize_loop_id [OF sane] by (simp add: sanitizeRoutes_def)
  moreover have "route_accepted net (take i ks) (ks ! i)" if "i < length ks" for i
    using all_sane_nth [OF sane that] by (simp add: sane_route_iff)
  ultimately show ?thesis
    by (simp add: sanitizeRoutes_def)
qed

definition example_net :: ip_net where
  "example_net = \<lparr>in_IP = [10, 0, 0, 0], in_Mask = [255, 255, 255, 0]\<rparr>"

definition example_routes :: "dhcp_route list" where
  "example_routes =
     [\<lparr>rt_Dest = \<lparr>in_IP = [192, 168, 0, 0], in_Mask = [255, 255, 0, 0]\<rparr>, rt_Router = [10, 0, 0, 1]\<rparr>,
      \<lparr>rt_Dest = \<lparr>in_IP = [172, 16, 0, 0], in_Mask = [255, 240, 0, 0]\<rparr>, rt_Router = [11, 0, 0, 1]\<rparr>,
      \<lparr>rt_Dest = \<lparr>in_IP = IPv4zero, in_Mask = [0, 0, 0, 0]\<rparr>, rt_Router = [192, 168, 1, 1]\<rparr>]"

lemma example_masks:
  "mask_Size [255, 255, 255, 0] = (24, 32)" "mask_Size [255, 255, 0, 0] = (16, 32)" "mask_Size [255, 240, 0, 0] = (12, 32)"
  "mask_Size [0, 0, 0, 0] = (0, 32)"
  by (simp_all add: mask_Size_def leading_ones_def upt_rec mask_eq_exp_minus_1)

lemma prefix_bytes:
  "v4InV6Prefix = [0, 0, 0, 0, 0, 0, 0, 0, 0, 0, 255, 255]" "IPv6unspecified = [0, 0, 0, 0, 0, 0, 0, 0, 0, 0, 0, 0, 0, 0, 0, 0]"
  by (simp_all add: v4InV6Prefix_def IPv6unspecified_def eval_nat_numeral)

lemma ip_evals:
  "length [a, b, c, d] = 4" "IsGlobalUnicast [10, 0, 0, 1]" "IsGlobalUnicast [11, 0, 0, 1]" "IsGlobalUnicast [192, 168, 1, 1]"
  by (simp_all add: IsGlobalUnicast_def IsUnspecified_def IsLoopback_def IsMulticast_def IsLinkLocalUnicast_def ip_Equal_def To4_def
      IPv4bcast_def IPv4zero_def prefix_bytes IPv4_def)

theorem sanitizeRoutes_correct_witness:
  "sanitizeRoutes example_routes example_net = [example_routes ! 0, example_routes ! 2] \<and>
     sanitizeRoutes [example_routes ! 0, example_routes ! 2] example_net = [example_routes ! 0, example_routes ! 2] \<and>
     subseq [example_routes ! 0, example_routes ! 2] example_routes"
proof -
  have kept: "sanitizeRoutes example_routes example_net = [example_routes ! 0, example_routes ! 2]"
    by (simp add: sanitizeRoutes_def example_routes_def example_net_def sane_route_def router_reachable_def example_masks ip_evals
        networkNumberAndMask_def net_Contains_def To4_def ip_Equal_def IPv4zero_def IPv4_def prefix_bytes upt_rec Let_def IsLoopback_def IsUnspecified_def)
  note all = sanitizeRoutes_correct [where rs = example_routes and net = example_net]
  from conjunct1 [OF conjunct2 [OF conjunct2 [OF all]]] conjunct2 [OF conjunct2 [OF conjunct2 [OF conjunct2 [OF all]]]] kept show ?thesis
    by (simp only:)
qed

lemma dns_loop_unique:
  "distinct (map ip4toInt servers) \<Longrightarrow> set seen = ip4toInt ` set servers \<Longrightarrow> distinct (map ip4toInt (dns_loop ss seen servers))"
  by (induction ss seen servers rule: dns_loop.induct) simp_all

lemma dns_loop_unicast:
  "s \<in> set (dns_loop ss seen servers) \<Longrightarrow> s \<in> set servers \<or> s \<in> set ss \<and> (IsGlobalUnicast s \<or> IsLinkLocalUnicast s)"
  by (induction ss seen servers rule: dns_loop.induct) (simp_all split: if_splits, blast+)

text \<open>The DNS servers of a lease are unicast addresses without duplicates.\<close>

lemma lease_DNSServers_unique: "distinct (map ip4toInt (lease_DNSServers lib l))"
  by (simp add: lease_DNSServers_def dns_loop_unique split: option.split)

lemma lease_DNSServers_unicast:
  "s \<in> set (lease_DNSServers lib (Some lease)) \<Longrightarrow>
     s \<in> set (lb_GetIPs lib OptionDomainNameServer (ls_Options lease)) \<and> (IsGlobalUnicast s \<or> IsLinkLocalUnicast s)"
  using dns_loop_unicast [of s _ "[]" "[]"] by (simp add: lease_DNSServers_def)

end
