(* ===== verification/EventMemory.thy ===== *)
theory EventMemory
  imports Prelude
begin

text \<open>
  Event values in memory, \<^verbatim>\<open>osbase/event/memory/memory.go\<close>, with the options of \<^verbatim>\<open>osbase/event/event.go\<close>:
  a value that producers set and consumers watch.

  Goroutines call the methods of one value and its watchers in any order and at any time. A state has the
  value, the watchers and the calls in progress; a call in progress is a \<open>frame\<close>, the place in the code
  where it is, and proceeds by one channel operation, or one turn of a loop, at a time. A channel of
  capacity one is a list, a closed channel a flag. The slice of watchers is its underlying array with a
  length, so that appending to \<open>m.watchers[:0]\<close> overwrites the array. What the code does not record is added
  for the statements: the values set so far, oldest first, and per watcher the values it has received and
  the number of values that were set before those it has to show.
\<close>

section \<open>Values and watchers\<close>

record 'v watcher =
  w_bufferedC :: "'v list"
  w_getSem :: bool
  w_close :: bool
  w_from :: nat
  w_got :: "'v list"

text \<open>A nil predicate is \<open>None\<close>.\<close>

record 'v get_option =
  go_Predicate :: "('v \<Rightarrow> bool) option"
  go_BacklogOnly :: bool

definition event_Filter :: "('v \<Rightarrow> bool) \<Rightarrow> 'v get_option" where
  "event_Filter p = \<lparr>go_Predicate = Some p, go_BacklogOnly = False\<rparr>"

definition BacklogOnly :: "'v get_option" where
  "BacklogOnly = \<lparr>go_Predicate = None, go_BacklogOnly = True\<rparr>"

text \<open>Where a call is. \<open>SetBegin\<close>, \<open>WatchBegin\<close> and \<open>GetBegin\<close> are the first statements. \<open>SetLoop\<close> and \<open>WatchLoop\<close> are the heads of
  the loops over the watchers, with the index and the length of \<open>newWatchers\<close>. \<open>SetUpdate\<close> is the first \<open>select\<close> of
  \<open>update\<close>, \<open>SetSend\<close> its last statement. \<open>GetPoll\<close> and \<open>GetWait\<close> are the outer and inner \<open>select\<close> of \<open>Get\<close>.\<close>

datatype 'v frame =
    SetBegin 'v
  | SetLoop 'v nat nat
  | SetUpdate 'v nat nat
  | SetSend 'v nat nat
  | WatchBegin
  | WatchLoop nat nat
  | WatchAppend
  | GetBegin nat "'v get_option list"
  | GetPoll nat "('v \<Rightarrow> bool) option"
  | GetWait nat "('v \<Rightarrow> bool) option"

datatype 'v returned = RetSet | RetWatch nat | RetClose | RetGet nat 'v | RetErr string | RetPanic string

text \<open>\<open>mv_inner\<close> is \<open>inner\<close> if \<open>innerSet\<close>.\<close>

record 'v mem_value =
  mv_mu :: "nat option"
  mv_inner :: "'v option"
  mv_array :: "nat list"
  mv_len :: nat
  mv_Sync :: bool
  mv_heap :: "'v watcher list"
  mv_frames :: "nat \<rightharpoonup> 'v frame"
  mv_returned :: "(nat \<times> 'v returned) list"
  mv_log :: "'v list"

definition new_value :: "bool \<Rightarrow> 'v mem_value" where
  "new_value sync =
     \<lparr>mv_mu = None, mv_inner = None, mv_array = [], mv_len = 0, mv_Sync = sync, mv_heap = [], mv_frames = Map.empty, mv_returned = [], mv_log = []\<rparr>"

definition mv_watcher :: "'v mem_value \<Rightarrow> nat \<Rightarrow> 'v watcher" where
  "mv_watcher s w = mv_heap s ! w"

definition upd_watcher :: "nat \<Rightarrow> ('v watcher \<Rightarrow> 'v watcher) \<Rightarrow> 'v mem_value \<Rightarrow> 'v mem_value" where
  "upd_watcher w f s = s\<lparr>mv_heap := (mv_heap s)[w := f (mv_heap s ! w)]\<rparr>"

definition at_frame :: "nat \<Rightarrow> 'v frame \<Rightarrow> 'v mem_value \<Rightarrow> 'v mem_value" where
  "at_frame t f s = s\<lparr>mv_frames := (mv_frames s)(t \<mapsto> f)\<rparr>"

definition mv_return :: "nat \<Rightarrow> 'v returned \<Rightarrow> 'v mem_value \<Rightarrow> 'v mem_value" where
  "mv_return t r s = s\<lparr>mv_frames := (mv_frames s)(t := None), mv_returned := (t, r) # mv_returned s\<rparr>"

section \<open>Set\<close>

definition set_begin :: "nat \<Rightarrow> 'v \<Rightarrow> 'v mem_value \<Rightarrow> 'v mem_value option" where
  "set_begin t v s =
     (if mv_mu s \<noteq> None then None
      else Some (at_frame t (SetLoop v 0 0) (s\<lparr>mv_mu := Some t, mv_inner := Some v, mv_log := mv_log s @ [v]\<rparr>)))"

text \<open>\<open>make([]*watcher[T], 0, len(newWatchers)*2)\<close> with the new watchers appended.\<close>

definition reallocated :: "nat \<Rightarrow> nat list \<Rightarrow> nat list" where
  "reallocated n ws = take n ws @ replicate n 0"

definition set_loop :: "nat \<Rightarrow> 'v \<Rightarrow> nat \<Rightarrow> nat \<Rightarrow> 'v mem_value \<Rightarrow> 'v mem_value" where
  "set_loop t v i n s =
     (if i < mv_len s then
        (if w_close (mv_watcher s (mv_array s ! i)) then at_frame t (SetLoop v (i + 1) n) s else at_frame t (SetUpdate v i n) s)
      else
        (let ws = (if length (mv_array s) > n * 3 then reallocated n (mv_array s) else mv_array s) in
         mv_return t RetSet (s\<lparr>mv_array := ws, mv_len := n, mv_mu := None\<rparr>)))"

text \<open>\<open>newWatchers = append(newWatchers, w)\<close>, and on to the next watcher.\<close>

definition keep_watcher :: "nat \<Rightarrow> nat \<Rightarrow> 'v mem_value \<Rightarrow> 'v mem_value" where
  "keep_watcher i n s = s\<lparr>mv_array := (mv_array s)[n := mv_array s ! i]\<rparr>"

definition set_next :: "nat \<Rightarrow> 'v \<Rightarrow> nat \<Rightarrow> nat \<Rightarrow> 'v mem_value \<Rightarrow> 'v mem_value" where
  "set_next t v i n s = at_frame t (SetLoop v (i + 1) (n + 1)) (keep_watcher i n s)"

definition set_update :: "nat \<Rightarrow> 'v \<Rightarrow> nat \<Rightarrow> nat \<Rightarrow> 'v mem_value \<Rightarrow> 'v mem_value option" where
  "set_update t v i n s =
     (if mv_Sync s then (if w_close (mv_watcher s (mv_array s ! i)) then Some (set_next t v i n s) else None)
      else Some (at_frame t (SetSend v i n) (upd_watcher (mv_array s ! i) (\<lambda>w. w\<lparr>w_bufferedC := []\<rparr>) s)))"

definition set_send :: "nat \<Rightarrow> 'v \<Rightarrow> nat \<Rightarrow> nat \<Rightarrow> 'v mem_value \<Rightarrow> 'v mem_value option" where
  "set_send t v i n s =
     (if w_bufferedC (mv_watcher s (mv_array s ! i)) \<noteq> [] then None
      else Some (set_next t v i n (upd_watcher (mv_array s ! i) (\<lambda>w. w\<lparr>w_bufferedC := [v]\<rparr>) s)))"

section \<open>Watch\<close>

definition watch_begin :: "nat \<Rightarrow> 'v mem_value \<Rightarrow> 'v mem_value option" where
  "watch_begin t s =
     (if mv_mu s \<noteq> None then None
      else Some (at_frame t (if mv_len s = length (mv_array s) then WatchLoop 0 0 else WatchAppend) (s\<lparr>mv_mu := Some t\<rparr>)))"

definition watch_loop :: "nat \<Rightarrow> nat \<Rightarrow> nat \<Rightarrow> 'v mem_value \<Rightarrow> 'v mem_value" where
  "watch_loop t i n s =
     (if i < mv_len s then
        (if w_close (mv_watcher s (mv_array s ! i)) then at_frame t (WatchLoop (i + 1) n) s
         else at_frame t (WatchLoop (i + 1) (n + 1)) (keep_watcher i n s))
      else
        (let c = length (mv_array s); ws = (if c * 2 < n * 3 \<or> c > n * 3 then reallocated n (mv_array s) else mv_array s) in
         at_frame t WatchAppend (s\<lparr>mv_array := ws, mv_len := n\<rparr>)))"

text \<open>The runtime decides how much larger an array is made when \<open>append\<close> finds it full: by one and \<open>extra\<close>.
  The watcher is created before the lock is taken, but nobody has it before \<open>Watch\<close> returns.\<close>

definition watch_append :: "nat \<Rightarrow> nat \<Rightarrow> 'v mem_value \<Rightarrow> 'v mem_value" where
  "watch_append t extra s =
     (let w = length (mv_heap s);
          ws = (if mv_len s < length (mv_array s) then (mv_array s)[mv_len s := w] else take (mv_len s) (mv_array s) @ w # replicate extra 0);
          new = \<lparr>w_bufferedC = (case mv_inner s of None \<Rightarrow> [] | Some v \<Rightarrow> [v]), w_getSem = False, w_close = False,
                 w_from = length (mv_log s) - 1, w_got = []\<rparr> in
      mv_return t (RetWatch w) (s\<lparr>mv_array := ws, mv_len := mv_len s + 1, mv_heap := mv_heap s @ [new], mv_mu := None\<rparr>))"

section \<open>Get and Close\<close>

fun get_options :: "'v get_option list \<Rightarrow> ('v \<Rightarrow> bool) option \<Rightarrow> (string, ('v \<Rightarrow> bool) option) result" where
  "get_options [] p = Inr p"
| "get_options (opt # opts) p =
     (let q = (if go_Predicate opt \<noteq> None then go_Predicate opt else p) in
      if go_BacklogOnly opt then Inl ''BacklogOnly is not implemented for memory watchers'' else get_options opts q)"

definition get_return :: "nat \<Rightarrow> nat \<Rightarrow> 'v returned \<Rightarrow> 'v mem_value \<Rightarrow> 'v mem_value" where
  "get_return t w r s = mv_return t r (upd_watcher w (\<lambda>x. x\<lparr>w_getSem := False\<rparr>) s)"

definition get_begin :: "nat \<Rightarrow> nat \<Rightarrow> 'v get_option list \<Rightarrow> 'v mem_value \<Rightarrow> 'v mem_value" where
  "get_begin t w opts s =
     (if w_getSem (mv_watcher s w) then mv_return t (RetErr ''cannot Get() concurrently on a single waiter'') s
      else
        (case get_options opts None of
           Inl e \<Rightarrow> mv_return t (RetErr e) s
         | Inr p \<Rightarrow> at_frame t (GetPoll w p) (upd_watcher w (\<lambda>x. x\<lparr>w_getSem := True\<rparr>) s)))"

text \<open>A value has been received: it is tested, and returned or dropped.\<close>

definition get_received :: "nat \<Rightarrow> nat \<Rightarrow> ('v \<Rightarrow> bool) option \<Rightarrow> 'v \<Rightarrow> 'v mem_value \<Rightarrow> 'v mem_value" where
  "get_received t w p v s =
     (let s1 = upd_watcher w (\<lambda>x. x\<lparr>w_got := w_got x @ [v]\<rparr>) s in
      if (case p of None \<Rightarrow> False | Some f \<Rightarrow> \<not> f v) then at_frame t (GetPoll w p) s1 else get_return t w (RetGet w v) s1)"

definition get_buffered :: "nat \<Rightarrow> nat \<Rightarrow> ('v \<Rightarrow> bool) option \<Rightarrow> 'v mem_value \<Rightarrow> 'v mem_value" where
  "get_buffered t w p s = get_received t w p (hd (w_bufferedC (mv_watcher s w))) (upd_watcher w (\<lambda>x. x\<lparr>w_bufferedC := tl (w_bufferedC x)\<rparr>) s)"

definition get_poll :: "nat \<Rightarrow> nat \<Rightarrow> ('v \<Rightarrow> bool) option \<Rightarrow> 'v mem_value \<Rightarrow> 'v mem_value" where
  "get_poll t w p s = (if w_bufferedC (mv_watcher s w) \<noteq> [] then get_buffered t w p s else at_frame t (GetWait w p) s)"

definition get_wait :: "nat \<Rightarrow> nat \<Rightarrow> ('v \<Rightarrow> bool) option \<Rightarrow> 'v mem_value \<Rightarrow> 'v mem_value option" where
  "get_wait t w p s = (if w_bufferedC (mv_watcher s w) \<noteq> [] then Some (get_buffered t w p s) else None)"

definition watcher_Close :: "nat \<Rightarrow> nat \<Rightarrow> 'v mem_value \<Rightarrow> 'v mem_value" where
  "watcher_Close t w s =
     (if w_close (mv_watcher s w) then mv_return t (RetPanic ''close of closed channel'') s
      else mv_return t RetClose (upd_watcher w (\<lambda>x. x\<lparr>w_close := True\<rparr>) s))"

section \<open>Goroutines\<close>

text \<open>What can happen: goroutine \<open>t\<close> makes a call; \<open>t\<close> proceeds (with the extra capacity if it appends to a full
  array); the context of a waiting \<open>Get\<close> is canceled; a \<open>Set\<close> hands its value to a waiting \<open>Get\<close> over \<open>unbufferedC\<close>.\<close>

datatype 'v mem_event =
    CallSet nat 'v
  | CallWatch nat
  | CallGet nat nat "'v get_option list"
  | CallClose nat nat
  | Proceed nat nat
  | ContextDone nat
  | HandOver nat nat

definition mv_call :: "nat \<Rightarrow> 'v frame \<Rightarrow> 'v mem_value \<Rightarrow> 'v mem_value option" where
  "mv_call t f s = (if mv_frames s t \<noteq> None then None else Some (at_frame t f s))"

fun frame_step :: "nat \<Rightarrow> nat \<Rightarrow> 'v frame \<Rightarrow> 'v mem_value \<Rightarrow> 'v mem_value option" where
  "frame_step t k (SetBegin v) s = set_begin t v s"
| "frame_step t k (SetLoop v i n) s = Some (set_loop t v i n s)"
| "frame_step t k (SetUpdate v i n) s = set_update t v i n s"
| "frame_step t k (SetSend v i n) s = set_send t v i n s"
| "frame_step t k WatchBegin s = watch_begin t s"
| "frame_step t k (WatchLoop i n) s = Some (watch_loop t i n s)"
| "frame_step t k WatchAppend s = Some (watch_append t k s)"
| "frame_step t k (GetBegin w opts) s = Some (get_begin t w opts s)"
| "frame_step t k (GetPoll w p) s = Some (get_poll t w p s)"
| "frame_step t k (GetWait w p) s = get_wait t w p s"

definition hand_over :: "nat \<Rightarrow> nat \<Rightarrow> 'v mem_value \<Rightarrow> 'v mem_value option" where
  "hand_over t g s =
     (case (mv_frames s t, mv_frames s g) of
        (Some (SetUpdate v i n), Some (GetWait w p)) \<Rightarrow>
          (if mv_Sync s \<and> mv_array s ! i = w then Some (get_received g w p v (set_next t v i n s)) else None)
      | _ \<Rightarrow> None)"

fun mem_step :: "'v mem_event \<Rightarrow> 'v mem_value \<Rightarrow> 'v mem_value option" where
  "mem_step (CallSet t v) s = mv_call t (SetBegin v) s"
| "mem_step (CallWatch t) s = mv_call t WatchBegin s"
| "mem_step (CallGet t w opts) s = (if w < length (mv_heap s) then mv_call t (GetBegin w opts) s else None)"
| "mem_step (CallClose t w) s = (if w < length (mv_heap s) \<and> mv_frames s t = None then Some (watcher_Close t w s) else None)"
| "mem_step (Proceed t k) s = (case mv_frames s t of None \<Rightarrow> None | Some f \<Rightarrow> frame_step t k f s)"
| "mem_step (ContextDone t) s =
     (case mv_frames s t of Some (GetWait w p) \<Rightarrow> Some (get_return t w (RetErr ''context canceled'') s) | _ \<Rightarrow> None)"
| "mem_step (HandOver t g) s = hand_over t g s"

inductive mem_reachable :: "bool \<Rightarrow> 'v mem_value \<Rightarrow> bool" for sync where
  new: "mem_reachable sync (new_value sync)"
| step: "mem_reachable sync s \<Longrightarrow> mem_step e s = Some s' \<Longrightarrow> mem_reachable sync s'"

end
