(* ===== verification/EventRuns.thy ===== *)
theory EventRuns
  imports EventMemory "HOL-Library.Sublist"
begin

text \<open>
  Properties of event values in memory, for every interleaving of calls: the lock and the list of watchers
  are well-formed, a watcher is shown the newest value, or all values with \<open>Sync\<close>, and \<open>Set\<close> does not block without
  \<open>Sync\<close>. Steps are classified by whether they concern the lock (\<open>mem_step_cases\<close>), and each part of the invariant is
  shown to be preserved by every kind of step.
\<close>

section \<open>The lock and the list of watchers\<close>

lemma at_frame_sel [simp]:
  "mv_mu (at_frame t f s) = mv_mu s"
  "mv_inner (at_frame t f s) = mv_inner s"
  "mv_array (at_frame t f s) = mv_array s"
  "mv_len (at_frame t f s) = mv_len s"
  "mv_Sync (at_frame t f s) = mv_Sync s"
  "mv_heap (at_frame t f s) = mv_heap s"
  "mv_frames (at_frame t f s) = (mv_frames s)(t \<mapsto> f)"
  "mv_returned (at_frame t f s) = mv_returned s"
  "mv_log (at_frame t f s) = mv_log s"
  by (simp_all add: at_frame_def)

lemma mv_return_sel [simp]:
  "mv_mu (mv_return t r s) = mv_mu s"
  "mv_inner (mv_return t r s) = mv_inner s"
  "mv_array (mv_return t r s) = mv_array s"
  "mv_len (mv_return t r s) = mv_len s"
  "mv_Sync (mv_return t r s) = mv_Sync s"
  "mv_heap (mv_return t r s) = mv_heap s"
  "mv_frames (mv_return t r s) = (mv_frames s)(t := None)"
  "mv_returned (mv_return t r s) = (t, r) # mv_returned s"
  "mv_log (mv_return t r s) = mv_log s"
  by (simp_all add: mv_return_def)

lemma upd_watcher_sel [simp]:
  "mv_mu (upd_watcher w g s) = mv_mu s"
  "mv_inner (upd_watcher w g s) = mv_inner s"
  "mv_array (upd_watcher w g s) = mv_array s"
  "mv_len (upd_watcher w g s) = mv_len s"
  "mv_Sync (upd_watcher w g s) = mv_Sync s"
  "mv_heap (upd_watcher w g s) = (mv_heap s)[w := g (mv_heap s ! w)]"
  "mv_frames (upd_watcher w g s) = mv_frames s"
  "mv_returned (upd_watcher w g s) = mv_returned s"
  "mv_log (upd_watcher w g s) = mv_log s"
  by (simp_all add: upd_watcher_def)

lemma keep_watcher_sel [simp]:
  "mv_mu (keep_watcher i n s) = mv_mu s"
  "mv_inner (keep_watcher i n s) = mv_inner s"
  "mv_array (keep_watcher i n s) = (mv_array s)[n := mv_array s ! i]"
  "mv_len (keep_watcher i n s) = mv_len s"
  "mv_Sync (keep_watcher i n s) = mv_Sync s"
  "mv_heap (keep_watcher i n s) = mv_heap s"
  "mv_frames (keep_watcher i n s) = mv_frames s"
  "mv_returned (keep_watcher i n s) = mv_returned s"
  "mv_log (keep_watcher i n s) = mv_log s"
  by (simp_all add: keep_watcher_def)

lemmas step_defs = set_begin_def set_loop_def set_next_def set_update_def set_send_def watch_begin_def watch_loop_def watch_append_def
  get_begin_def get_poll_def get_wait_def get_buffered_def get_received_def get_return_def watcher_Close_def mv_call_def hand_over_def mv_watcher_def

fun locks :: "'v frame \<Rightarrow> bool" where
  "locks (SetLoop v i n) = True"
| "locks (SetUpdate v i n) = True"
| "locks (SetSend v i n) = True"
| "locks (WatchLoop i n) = True"
| "locks WatchAppend = True"
| "locks _ = False"

definition holder :: "'v mem_value \<Rightarrow> 'v frame option" where
  "holder s = (case mv_mu s of None \<Rightarrow> None | Some t \<Rightarrow> mv_frames s t)"

text \<open>Exactly the calls that are between locking and unlocking hold the lock.\<close>

definition lock_ok :: "'v mem_value \<Rightarrow> bool" where
  "lock_ok s \<longleftrightarrow> (\<forall>t. (case mv_frames s t of None \<Rightarrow> False | Some f \<Rightarrow> locks f) \<longleftrightarrow> mv_mu s = Some t)"

lemma lock_okD: "lock_ok s \<Longrightarrow> mv_frames s t = Some f \<Longrightarrow> locks f \<longleftrightarrow> mv_mu s = Some t"
  unfolding lock_ok_def by (drule spec [of _ t]) simp

lemma lock_okI:
  assumes "lock_ok s" and "mv_frames s' = (mv_frames s)(t := mv_frames s' t)"
    and "(case mv_frames s' t of None \<Rightarrow> False | Some f \<Rightarrow> locks f) \<longleftrightarrow> mv_mu s' = Some t"
    and "mv_mu s' = mv_mu s \<or> mv_mu s \<in> {None, Some t} \<and> mv_mu s' \<in> {None, Some t}"
  shows "lock_ok s'"
proof -
  have "(case mv_frames s' u of None \<Rightarrow> False | Some f \<Rightarrow> locks f) \<longleftrightarrow> mv_mu s' = Some u" for u
  proof (cases "u = t")
    case False
    then have u: "mv_frames s' u = mv_frames s u"
      using fun_cong [OF assms(2), of u] by (simp only: fun_upd_other not_False_eq_True)
    have "(case mv_frames s u of None \<Rightarrow> False | Some f \<Rightarrow> locks f) \<longleftrightarrow> mv_mu s = Some u"
      using assms(1) unfolding lock_ok_def by (rule spec)
    then show ?thesis
      unfolding u using assms(4) False by auto
  qed (simp add: assms(3))
  then show ?thesis by (simp add: lock_ok_def)
qed

lemma lock_ok_frame_step:
  assumes "lock_ok s" and "mv_frames s t = Some f" and "frame_step t k f s = Some s'"
  shows "lock_ok s'"
proof (rule lock_okI [OF assms(1)])
  note f = assms(3) lock_okD [OF assms(1,2)]
  show "mv_frames s' = (mv_frames s)(t := mv_frames s' t)"
    using f by (cases f) (auto simp: step_defs Let_def split: if_splits sum.splits)
  show "(case mv_frames s' t of None \<Rightarrow> False | Some f \<Rightarrow> locks f) \<longleftrightarrow> mv_mu s' = Some t"
    using f by (cases f) (auto simp: step_defs Let_def split: if_splits sum.splits)
  show "mv_mu s' = mv_mu s \<or> mv_mu s \<in> {None, Some t} \<and> mv_mu s' \<in> {None, Some t}"
    using f by (cases f) (auto simp: step_defs Let_def split: if_splits sum.splits)
qed

lemma hand_overE:
  assumes "hand_over t g s = Some s'"
  obtains v i n w p where "mv_frames s t = Some (SetUpdate v i n)" "mv_frames s g = Some (GetWait w p)" "mv_Sync s" "mv_array s ! i = w" "t \<noteq> g"
    "s' = get_received g w p v (set_next t v i n s)"
proof -
  obtain v i n where t: "mv_frames s t = Some (SetUpdate v i n)"
    using assms by (auto simp: hand_over_def split: option.splits frame.splits)
  moreover obtain w p where g: "mv_frames s g = Some (GetWait w p)"
    using assms t by (auto simp: hand_over_def split: option.splits frame.splits)
  moreover have "t \<noteq> g"
    using t g by auto
  ultimately show thesis
    using assms that [of v i n w p] by (simp add: hand_over_def split: if_splits)
qed

lemma lock_ok_step:
  assumes "lock_ok s" and "mem_step e s = Some s'"
  shows "lock_ok s'"
proof (cases e)
  case (Proceed t k)
  then show ?thesis
    using assms lock_ok_frame_step by (auto split: option.splits)
next
  case (HandOver t g)
  then obtain v i n w p where h: "mv_frames s t = Some (SetUpdate v i n)" "mv_frames s g = Some (GetWait w p)"
      "t \<noteq> g" "s' = get_received g w p v (set_next t v i n s)"
    using assms(2) by (auto elim: hand_overE)
  have "lock_ok (set_next t v i n s)"
    by (rule lock_okI [OF assms(1), of _ t]) (use lock_okD [OF assms(1) h(1)] in \<open>simp_all add: set_next_def\<close>)
  then show ?thesis
    unfolding h(4) by (rule lock_okI [of _ _ g]) (use lock_okD [OF assms(1) h(1)] h(3) in \<open>simp_all add: set_next_def get_received_def get_return_def Let_def\<close>)
next
  case (ContextDone t)
  then obtain w p where "mv_frames s t = Some (GetWait w p)" "s' = get_return t w (RetErr ''context canceled'') s"
    using assms(2) by (auto split: option.splits frame.splits)
  then show ?thesis
    using lock_okD [OF assms(1), of t "GetWait w p"] by (intro lock_okI [OF assms(1), of _ t]) (auto simp: get_return_def)
next
  case (CallClose t w)
  then show ?thesis
    using assms(2) assms(1) [unfolded lock_ok_def, rule_format, of t]
    by (intro lock_okI [OF assms(1), of _ t]) (auto simp: watcher_Close_def split: if_splits)
next
  case (CallSet t v)
  then show ?thesis
    using assms(2) assms(1) [unfolded lock_ok_def, rule_format, of t] by (intro lock_okI [OF assms(1), of _ t]) (auto simp: mv_call_def split: if_splits)
next
  case (CallWatch t)
  then show ?thesis
    using assms(2) assms(1) [unfolded lock_ok_def, rule_format, of t] by (intro lock_okI [OF assms(1), of _ t]) (auto simp: mv_call_def split: if_splits)
next
  case (CallGet t w opts)
  then show ?thesis
    using assms(2) assms(1) [unfolded lock_ok_def, rule_format, of t] by (intro lock_okI [OF assms(1), of _ t]) (auto simp: mv_call_def split: if_splits)
qed

text \<open>The index and the length of \<open>newWatchers\<close> of a loop in progress; without one, all watchers are kept.\<close>

fun cursor_of :: "'v frame option \<Rightarrow> nat \<Rightarrow> nat \<times> nat" where
  "cursor_of (Some (SetLoop v i n)) l = (i, n)"
| "cursor_of (Some (SetUpdate v i n)) l = (i, n)"
| "cursor_of (Some (SetSend v i n)) l = (i, n)"
| "cursor_of (Some (WatchLoop i n)) l = (i, n)"
| "cursor_of _ l = (l, l)"

fun in_turn :: "'v frame option \<Rightarrow> bool" where
  "in_turn (Some (SetUpdate v i n)) = True"
| "in_turn (Some (SetSend v i n)) = True"
| "in_turn _ = False"

text \<open>The watchers on the list: those already kept and those yet to be looked at.\<close>

definition members :: "nat \<times> nat \<Rightarrow> nat \<Rightarrow> nat list \<Rightarrow> nat list" where
  "members c l xs = take (snd c) xs @ drop (fst c) (take l xs)"

definition pos_ok :: "bool \<Rightarrow> nat \<times> nat \<Rightarrow> nat \<Rightarrow> nat list \<Rightarrow> bool" where
  "pos_ok turn c l xs \<longleftrightarrow> l \<le> length xs \<and> snd c \<le> fst c \<and> fst c \<le> l \<and> (turn \<longrightarrow> fst c < l)"

definition members_ok :: "nat list \<Rightarrow> 'v watcher list \<Rightarrow> bool" where
  "members_ok ws heap \<longleftrightarrow>
     distinct ws \<and> set ws \<subseteq> {..<length heap} \<and> (\<forall>w < length heap. \<not> w_close (heap ! w) \<longrightarrow> w \<in> set ws)"

definition listed :: "'v mem_value \<Rightarrow> nat list" where
  "listed s = members (cursor_of (holder s) (mv_len s)) (mv_len s) (mv_array s)"

definition list_ok :: "'v mem_value \<Rightarrow> bool" where
  "list_ok s \<longleftrightarrow>
     pos_ok (in_turn (holder s)) (cursor_of (holder s) (mv_len s)) (mv_len s) (mv_array s) \<and> members_ok (listed s) (mv_heap s)"

section \<open>Kinds of steps\<close>

text \<open>A step that does not concern the lock and the list of watchers, and one that leaves the values that watchers have
  received or will find in their buffers.\<close>

definition quiet :: "'v mem_value \<Rightarrow> 'v mem_value \<Rightarrow> bool" where
  "quiet s s' \<longleftrightarrow>
     mv_mu s' = mv_mu s \<and> holder s' = holder s \<and> mv_array s' = mv_array s \<and> mv_len s' = mv_len s \<and> mv_log s' = mv_log s \<and> mv_inner s' = mv_inner s \<and>
     mv_Sync s' = mv_Sync s \<and> length (mv_heap s') = length (mv_heap s) \<and>
     (\<forall>w < length (mv_heap s). (w_close (mv_heap s ! w) \<longrightarrow> w_close (mv_heap s' ! w)) \<and> w_from (mv_heap s' ! w) = w_from (mv_heap s ! w))"

definition view :: "'v mem_value \<Rightarrow> nat \<Rightarrow> 'v list" where
  "view s w = w_got (mv_heap s ! w) @ w_bufferedC (mv_heap s ! w)"

definition same_view :: "'v mem_value \<Rightarrow> 'v mem_value \<Rightarrow> bool" where
  "same_view s s' \<longleftrightarrow>
     (\<forall>w < length (mv_heap s). view s' w = view s w \<and> length (w_bufferedC (mv_heap s' ! w)) \<le> length (w_bufferedC (mv_heap s ! w)))"

lemma nth_list_update_less: "j < length xs \<Longrightarrow> xs[i := x] ! j = (if i = j then x else xs ! j)"
  by (cases "i = j") simp_all

lemma quiet_trans: "quiet s s1 \<Longrightarrow> quiet s1 s2 \<Longrightarrow> quiet s s2"
  by (simp add: quiet_def)

lemma holder_same: "mv_mu s' = mv_mu s \<Longrightarrow> mv_frames s' = mv_frames s \<Longrightarrow> holder s' = holder s"
  by (simp add: holder_def split: option.split)

lemma quiet_at_frame: "mv_mu s \<noteq> Some t \<Longrightarrow> quiet s (at_frame t f s)"
  by (auto simp: quiet_def holder_def split: option.splits)

lemma quiet_return: "mv_mu s \<noteq> Some t \<Longrightarrow> quiet s (mv_return t r s)"
  by (auto simp: quiet_def holder_def split: option.splits)

lemma quiet_upd_watcher:
  assumes "\<And>x. w_close x \<Longrightarrow> w_close (g x)" "\<And>x. w_from (g x) = w_from x"
  shows "quiet s (upd_watcher w g s)"
  using assms by (auto simp: quiet_def nth_list_update_less intro: holder_same)

lemma same_view_simps [simp]: "same_view s (at_frame t f s1) = same_view s s1" "same_view s (mv_return t r s1) = same_view s s1" "same_view s s"
  by (simp_all add: same_view_def view_def)

lemma same_view_upd_watcher:
  assumes "same_view s s1" "length (mv_heap s1) = length (mv_heap s)"
    and "w < length (mv_heap s) \<Longrightarrow> w_got (g (mv_heap s1 ! w)) @ w_bufferedC (g (mv_heap s1 ! w)) = view s1 w"
    and "length (w_bufferedC (g (mv_heap s1 ! w))) \<le> length (w_bufferedC (mv_heap s1 ! w))"
  shows "same_view s (upd_watcher w g s1)"
  using assms by (auto simp: same_view_def view_def nth_list_update_less intro: order_trans)

lemma quiet_upd_frame:
  assumes "mv_mu s \<noteq> Some t" "\<And>x. w_close x \<Longrightarrow> w_close (g x)" "\<And>x. w_from (g x) = w_from x"
  shows "quiet s (at_frame t f (upd_watcher w g s))" "quiet s (mv_return t r (upd_watcher w g s))"
  using quiet_trans [OF quiet_upd_watcher [of g s w]] quiet_at_frame [of "upd_watcher w g s" t f] quiet_return [of "upd_watcher w g s" t r] assms
  by simp_all

lemma quiet_get_received: "mv_mu s \<noteq> Some t \<Longrightarrow> quiet s (get_received t w p v s)"
  unfolding get_received_def get_return_def Let_def
  by (simp add: quiet_upd_frame split: option.split) (auto intro: quiet_trans [OF quiet_upd_watcher quiet_upd_frame(2)])

lemma quiet_get_buffered: "mv_mu s \<noteq> Some t \<Longrightarrow> quiet s (get_buffered t w p s)"
  unfolding get_buffered_def by (rule quiet_trans [OF quiet_upd_watcher quiet_get_received]) auto

lemma same_view_get_buffered: "w_bufferedC (mv_watcher s w) \<noteq> [] \<Longrightarrow> same_view s (get_buffered t w p s)"
  unfolding get_buffered_def get_received_def get_return_def Let_def
  by (auto simp: same_view_def view_def mv_watcher_def nth_list_update_less split: option.split)

lemma quiet_frame_step:
  assumes "mv_mu s \<noteq> Some t" and "frame_step t k f s = Some s'" and "\<not> locks f" and "\<And>v. f \<noteq> SetBegin v" and "f \<noteq> WatchBegin"
  shows "quiet s s' \<and> same_view s s'"
proof (cases f)
  case (GetBegin w opts)
  then show ?thesis
    using assms(1,2)
    by (auto simp: get_begin_def split: if_splits sum.splits
        intro!: quiet_return quiet_upd_frame same_view_upd_watcher simp: view_def)
next
  case (GetPoll w p)
  then show ?thesis
    using assms(1,2) by (auto simp: get_poll_def split: if_splits intro: quiet_get_buffered same_view_get_buffered quiet_at_frame)
next
  case (GetWait w p)
  then show ?thesis
    using assms(1,2) by (auto simp: get_wait_def split: if_splits intro: quiet_get_buffered same_view_get_buffered)
qed (use assms in auto)

lemma mem_step_cases:
  assumes "lock_ok s" and "mem_step e s = Some s'"
  obtains (quiet) "quiet s s'" "same_view s s'"
  | (set_begin) t v where "mv_frames s t = Some (SetBegin v)" "set_begin t v s = Some s'"
  | (watch_begin) t where "mv_frames s t = Some WatchBegin" "watch_begin t s = Some s'"
  | (holding) t f k where "mv_frames s t = Some f" "mv_mu s = Some t" "locks f" "frame_step t k f s = Some s'"
  | (hand_over) t v i n g w p where "mv_frames s t = Some (SetUpdate v i n)" "mv_mu s = Some t" "mv_frames s g = Some (GetWait w p)" "mv_Sync s"
      "mv_array s ! i = w" "t \<noteq> g" "s' = get_received g w p v (set_next t v i n s)"
proof (cases e)
  case (Proceed t k)
  then obtain f where f: "mv_frames s t = Some f" "frame_step t k f s = Some s'"
    using assms(2) by (auto split: option.splits)
  then have "locks f \<longleftrightarrow> mv_mu s = Some t"
    using lock_okD [OF assms(1)] by blast
  then show thesis
    using f quiet quiet_frame_step [of s t k f s'] holding [of t f k] set_begin [of t] watch_begin [of t] by (cases f) auto
next
  case (HandOver t g)
  then show thesis
    using assms(2) lock_okD [OF assms(1), of t] by (auto elim!: hand_overE intro: hand_over)
next
  case (ContextDone t)
  then obtain w p where c: "mv_frames s t = Some (GetWait w p)" "s' = get_return t w (RetErr ''context canceled'') s"
    using assms(2) by (auto split: option.splits frame.splits)
  then have "mv_mu s \<noteq> Some t"
    using lock_okD [OF assms(1) c(1)] by simp
  then have "quiet s s'" "same_view s s'"
    unfolding c(2) get_return_def by (auto intro!: quiet_upd_frame same_view_upd_watcher simp: view_def)
  then show thesis by (rule quiet)
next
  case (CallClose t w)
  then have "mv_mu s \<noteq> Some t"
    using assms(2) assms(1) [unfolded lock_ok_def, rule_format, of t] by (auto split: if_splits)
  then have "quiet s s'" "same_view s s'"
    using CallClose assms(2)
    by (auto simp: watcher_Close_def view_def split: if_splits intro!: quiet_return quiet_upd_frame same_view_upd_watcher)
  then show thesis by (rule quiet)
next
  case (CallSet t v)
  then have "quiet s s'" "same_view s s'"
    using assms(2) assms(1) [unfolded lock_ok_def, rule_format, of t] by (auto simp: mv_call_def split: if_splits intro!: quiet_at_frame)
  then show thesis by (rule quiet)
next
  case (CallWatch t)
  then have "quiet s s'" "same_view s s'"
    using assms(2) assms(1) [unfolded lock_ok_def, rule_format, of t] by (auto simp: mv_call_def split: if_splits intro!: quiet_at_frame)
  then show thesis by (rule quiet)
next
  case (CallGet t w opts)
  then have "quiet s s'" "same_view s s'"
    using assms(2) assms(1) [unfolded lock_ok_def, rule_format, of t] by (auto simp: mv_call_def split: if_splits intro!: quiet_at_frame)
  then show thesis by (rule quiet)
qed

section \<open>The list of watchers\<close>

lemma members_ok_mono:
  assumes "members_ok ws heap" "length heap' = length heap" "\<forall>w < length heap. w_close (heap ! w) \<longrightarrow> w_close (heap' ! w)"
  shows "members_ok ws heap'"
  using assms by (auto simp: members_ok_def)

lemma list_ok_quiet: "list_ok s \<Longrightarrow> quiet s s' \<Longrightarrow> list_ok s'"
  by (auto simp: list_ok_def quiet_def listed_def elim: members_ok_mono)

lemma holder_mu [simp]: "mv_mu s = None \<Longrightarrow> holder s = None" "mv_mu s = Some t \<Longrightarrow> holder s = mv_frames s t"
  by (simp_all add: holder_def)

lemma members_all [simp]: "members (l, l) l xs = take l xs" "members (0, 0) l xs = take l xs"
  by (simp_all add: members_def)

lemma pos_ok_all [simp]: "pos_ok False (l, l) l xs \<longleftrightarrow> l \<le> length xs" "pos_ok False (0, 0) l xs \<longleftrightarrow> l \<le> length xs"
  by (simp_all add: pos_ok_def)

lemma members_next:
  assumes "n \<le> i" "i < l" "l \<le> length xs"
  shows "members (Suc i, Suc n) l (xs[n := xs ! i]) = members (i, n) l xs"
proof -
  have "drop i (take l xs) = xs ! i # drop (Suc i) (take l xs)"
    using assms by (simp add: Cons_nth_drop_Suc [symmetric])
  moreover have "take (Suc n) (xs[n := xs ! i]) = take n xs @ [xs ! i]"
    using assms by (simp add: take_Suc_conv_app_nth)
  moreover have "drop (Suc i) (take l (xs[n := xs ! i])) = drop (Suc i) (take l xs)"
    using assms by (simp add: take_update_swap drop_update_cancel)
  ultimately show ?thesis by (simp add: members_def)
qed

lemma members_skip:
  assumes "i < l" "l \<le> length xs" "members_ok (members (i, n) l xs) heap" "w_close (heap ! (xs ! i))"
  shows "members_ok (members (Suc i, n) l xs) heap"
proof -
  have "drop i (take l xs) = xs ! i # drop (Suc i) (take l xs)"
    using assms by (simp add: Cons_nth_drop_Suc [symmetric])
  then show ?thesis
    using assms(3,4) by (auto simp: members_ok_def members_def)
qed

text \<open>A loop is done: the array is kept or copied.\<close>

lemma members_done:
  assumes "pos_ok turn (i, n) l xs" "\<not> i < l"
  shows "n \<le> length xs" "members (i, n) l xs = take n xs" "n \<le> length (reallocated n xs)" "take n (reallocated n xs) = take n xs"
  using assms by (auto simp: pos_ok_def members_def reallocated_def)

lemma list_ok_set_next:
  assumes "list_ok s" and "mv_mu s = Some t" and "mv_frames s t = Some f" "f \<in> {SetUpdate v i n, SetSend v i n}"
  shows "list_ok (set_next t v i n s)"
proof -
  have pos: "pos_ok True (i, n) (mv_len s) (mv_array s)"
    using assms by (auto simp: list_ok_def)
  then have "members (Suc i, Suc n) (mv_len s) ((mv_array s)[n := mv_array s ! i]) = listed s"
    using assms(2-4) members_next [of n i "mv_len s" "mv_array s"] by (auto simp: pos_ok_def listed_def)
  then show ?thesis
    using assms(1,2) pos by (simp add: list_ok_def listed_def set_next_def pos_ok_def)
qed

lemma list_ok_frame_step:
  assumes "list_ok s" and "mv_frames s t = Some f" and "mv_mu s = Some t" and "locks f" and "frame_step t k f s = Some s'"
  shows "list_ok s'"
proof (cases f)
  case (SetLoop v i n)
  with assms have pos: "pos_ok False (i, n) (mv_len s) (mv_array s)" and mem: "members_ok (members (i, n) (mv_len s) (mv_array s)) (mv_heap s)"
    and s': "s' = set_loop t v i n s"
    by (simp_all add: list_ok_def listed_def)
  show ?thesis
  proof (cases "i < mv_len s")
    case True
    then show ?thesis
      using pos mem assms(3) members_skip [OF True _ mem] by (auto simp: s' set_loop_def mv_watcher_def list_ok_def listed_def pos_ok_def)
  next
    case False
    then show ?thesis
      using mem members_done [OF pos False] by (simp add: s' set_loop_def list_ok_def listed_def Let_def)
  qed
next
  case (SetUpdate v i n)
  show ?thesis
  proof (cases "mv_Sync s")
    case True
    then show ?thesis
      using assms SetUpdate list_ok_set_next [OF assms(1,3,2), of v i n] by (simp add: set_update_def split: if_splits)
  next
    case False
    let ?s = "upd_watcher (mv_array s ! i) (\<lambda>w. w\<lparr>w_bufferedC := []\<rparr>) s"
    have "list_ok ?s"
      using assms(1) by (rule list_ok_quiet) (simp add: quiet_upd_watcher)
    then show ?thesis
      using assms False SetUpdate by (auto simp: set_update_def list_ok_def listed_def)
  qed
next
  case (SetSend v i n)
  let ?s = "upd_watcher (mv_array s ! i) (\<lambda>w. w\<lparr>w_bufferedC := [v]\<rparr>) s"
  have "list_ok ?s"
    using assms(1) by (rule list_ok_quiet) (simp add: quiet_upd_watcher)
  then show ?thesis
    using assms SetSend list_ok_set_next [of ?s t f v i n] by (simp add: set_send_def split: if_splits)
next
  case (WatchLoop i n)
  with assms have pos: "pos_ok False (i, n) (mv_len s) (mv_array s)" and mem: "members_ok (members (i, n) (mv_len s) (mv_array s)) (mv_heap s)"
    and s': "s' = watch_loop t i n s"
    by (simp_all add: list_ok_def listed_def)
  show ?thesis
  proof (cases "i < mv_len s")
    case True
    have "members (Suc i, Suc n) (mv_len s) ((mv_array s)[n := mv_array s ! i]) = members (i, n) (mv_len s) (mv_array s)"
      using pos True by (intro members_next) (auto simp: pos_ok_def)
    then show ?thesis
      using pos mem True assms(3) members_skip [OF True _ mem] by (auto simp: s' watch_loop_def mv_watcher_def list_ok_def listed_def pos_ok_def)
  next
    case False
    then show ?thesis
      using mem members_done [OF pos False] assms(3) by (simp add: s' watch_loop_def list_ok_def listed_def Let_def)
  qed
next
  case WatchAppend
  let ?w = "length (mv_heap s)"
  have len: "mv_len s \<le> length (mv_array s)" and mem: "members_ok (take (mv_len s) (mv_array s)) (mv_heap s)"
    using assms WatchAppend by (simp_all add: list_ok_def listed_def)
  have "members_ok (take (mv_len s) (mv_array s) @ [?w]) (mv_heap s @ [x])" for x
    using mem by (auto simp: members_ok_def nth_append less_Suc_eq)
  then show ?thesis
    using assms WatchAppend len by (auto simp: watch_append_def list_ok_def listed_def Let_def take_Suc_conv_app_nth)
qed (use assms in auto)

lemma list_ok_step:
  assumes "lock_ok s" and "list_ok s" and "mem_step e s = Some s'"
  shows "list_ok s'"
  using assms(1,3)
proof (cases rule: mem_step_cases)
  case quiet
  then show ?thesis
    using assms(2) list_ok_quiet by blast
next
  case (set_begin t v)
  then show ?thesis
    using assms(2) by (auto simp: set_begin_def list_ok_def listed_def split: if_splits)
next
  case (watch_begin t)
  then show ?thesis
    using assms(2) by (auto simp: watch_begin_def list_ok_def listed_def split: if_splits)
next
  case (holding t f k)
  then show ?thesis
    using assms(2) list_ok_frame_step by blast
next
  case (hand_over t v i n g w p)
  have "list_ok (set_next t v i n s)"
    using list_ok_set_next [OF assms(2) hand_over(2,1)] by simp
  moreover have "quiet (set_next t v i n s) s'"
    unfolding hand_over(7) using hand_over(2,6) by (intro quiet_get_received) (simp add: set_next_def)
  ultimately show ?thesis by (rule list_ok_quiet)
qed

section \<open>What watchers are shown\<close>

text \<open>The watchers to which a \<open>Set\<close> in progress has yet to give its value, and that value.\<close>

fun todo_of :: "'v frame option \<Rightarrow> nat \<Rightarrow> nat list \<Rightarrow> nat set" where
  "todo_of (Some (SetLoop v i n)) l xs = set (drop i (take l xs))"
| "todo_of (Some (SetUpdate v i n)) l xs = set (drop i (take l xs))"
| "todo_of (Some (SetSend v i n)) l xs = set (drop i (take l xs))"
| "todo_of _ l xs = {}"

fun setting :: "'v frame option \<Rightarrow> 'v option" where
  "setting (Some (SetLoop v i n)) = Some v"
| "setting (Some (SetUpdate v i n)) = Some v"
| "setting (Some (SetSend v i n)) = Some v"
| "setting _ = None"

definition todo :: "'v mem_value \<Rightarrow> nat set" where
  "todo s = todo_of (holder s) (mv_len s) (mv_array s)"

text \<open>What a watcher has been shown of the values \<open>log\<close>, or of all but the last if its turn is yet to come. A value with
  \<open>Sync\<close> shows an open watcher every value. Otherwise a watcher is shown some values in order, and the newest if it is open.\<close>

definition shown :: "bool \<Rightarrow> bool \<Rightarrow> 'v list \<Rightarrow> 'v watcher \<Rightarrow> bool" where
  "shown sync pending log x \<longleftrightarrow>
     (let values = (if pending then butlast log else log); seen = w_got x @ w_bufferedC x in
      length (w_bufferedC x) \<le> 1 \<and> w_from x \<le> length values \<and>
      (if sync then \<not> w_close x \<longrightarrow> seen = drop (w_from x) values
       else subseq seen (drop (w_from x) values) \<and>
         (\<not> w_close x \<and> \<not> pending \<and> w_from x < length log \<longrightarrow> seen \<noteq> [] \<and> last seen = last log)))"

lemma shown_mono:
  assumes "shown sync pending log x" "w_got x' @ w_bufferedC x' = w_got x @ w_bufferedC x" "w_from x' = w_from x" "w_close x \<longrightarrow> w_close x'"
    "length (w_bufferedC x') \<le> length (w_bufferedC x)"
  shows "shown sync pending log x'"
  using assms by (auto simp: shown_def Let_def)

lemma shown_begin:
  assumes "shown sync False log x" "pending \<or> w_close x"
  shows "shown sync pending (log @ [v]) x"
proof (cases pending)
  case True
  then show ?thesis
    using assms(1) by (simp add: shown_def Let_def split: if_splits)
next
  case False
  then have "w_close x"
    using assms(2) by simp
  moreover have "w_from x \<le> length log"
    using assms(1) by (simp add: shown_def Let_def split: if_splits)
  ultimately show ?thesis
    using False assms(1) by (simp add: shown_def Let_def list_emb_prefix split: if_splits)
qed

lemma shown_skip:
  assumes "shown sync True log x" "w_close x" "log \<noteq> []"
  shows "shown sync False log x"
proof -
  have "shown sync False (butlast log) x"
    using assms(1,2) by (simp add: shown_def Let_def split: if_splits)
  from shown_begin [OF this, of False "last log"] show ?thesis
    using assms(2,3) by simp
qed

lemma shown_drain: "shown False True log x \<Longrightarrow> shown False True log (x\<lparr>w_bufferedC := []\<rparr>)"
  using subseq_order.trans [of "w_got x" "w_got x @ w_bufferedC x"] by (simp add: shown_def Let_def list_emb_prefix)

lemma shown_send:
  assumes "shown False True log x" "w_bufferedC x = []" "log \<noteq> []" "last log = v"
  shows "shown False False log (x\<lparr>w_bufferedC := [v]\<rparr>)"
proof -
  have "log = butlast log @ [v]"
    using assms(3,4) by (metis append_butlast_last_id)
  moreover have "w_from x \<le> length (butlast log)" "subseq (w_got x) (drop (w_from x) (butlast log))"
    using assms(1,2) by (simp_all add: shown_def Let_def)
  moreover from this have "subseq (w_got x @ [v]) (drop (w_from x) (butlast log @ [v]))"
    by (simp add: list_emb_append_mono)
  ultimately show ?thesis
    using assms(4) by (simp add: shown_def Let_def)
qed

lemma shown_hand_over:
  assumes "shown True True log x" "w_bufferedC x = []" "log \<noteq> []" "last log = v"
  shows "shown True False log (x\<lparr>w_got := w_got x @ [v]\<rparr>)"
proof -
  have "log = butlast log @ [v]"
    using assms(3,4) by (metis append_butlast_last_id)
  moreover have "w_from x \<le> length (butlast log)" "w_close x \<or> w_got x = drop (w_from x) (butlast log)"
    using assms(1,2) by (simp_all add: shown_def Let_def) blast
  moreover from this have "w_close x \<or> w_got x @ [v] = drop (w_from x) (butlast log @ [v])"
    by simp
  ultimately show ?thesis
    using assms(2) by (auto simp: shown_def Let_def)
qed

definition history_ok :: "'v mem_value \<Rightarrow> bool" where
  "history_ok s \<longleftrightarrow> (\<forall>w < length (mv_heap s). shown (mv_Sync s) (w \<in> todo s) (mv_log s) (mv_heap s ! w))"

definition value_ok :: "'v mem_value \<Rightarrow> bool" where
  "value_ok s \<longleftrightarrow>
     mv_inner s = (if mv_log s = [] then None else Some (last (mv_log s))) \<and>
     (\<forall>v. setting (holder s) = Some v \<longrightarrow> mv_log s \<noteq> [] \<and> last (mv_log s) = v)"

text \<open>The place of a value in the buffer of a watcher is free when it is sent there, and is not used with \<open>Sync\<close>.\<close>

definition send_ok :: "'v mem_value \<Rightarrow> bool" where
  "send_ok s \<longleftrightarrow> (\<forall>v i n. holder s = Some (SetSend v i n) \<longrightarrow> \<not> mv_Sync s \<and> w_bufferedC (mv_heap s ! (mv_array s ! i)) = [])"

fun get_ok :: "'v mem_value \<Rightarrow> 'v frame \<Rightarrow> bool" where
  "get_ok s (GetBegin w opts) \<longleftrightarrow> w < length (mv_heap s)"
| "get_ok s (GetPoll w p) \<longleftrightarrow> w < length (mv_heap s)"
| "get_ok s (GetWait w p) \<longleftrightarrow> w < length (mv_heap s) \<and> (mv_Sync s \<longrightarrow> w_bufferedC (mv_heap s ! w) = [])"
| "get_ok s _ \<longleftrightarrow> True"

definition wait_ok :: "'v mem_value \<Rightarrow> bool" where
  "wait_ok s \<longleftrightarrow> (\<forall>t f. mv_frames s t = Some f \<longrightarrow> get_ok s f)"

lemma wait_okI:
  assumes "wait_ok s" and "mv_frames s' = (mv_frames s)(t := mv_frames s' t)" and "\<And>f. mv_frames s' t = Some f \<Longrightarrow> get_ok s' f"
    and "mv_Sync s' = mv_Sync s" and "length (mv_heap s) \<le> length (mv_heap s')"
    and "\<And>w. mv_Sync s \<Longrightarrow> w < length (mv_heap s) \<Longrightarrow> w_bufferedC (mv_heap s ! w) = [] \<Longrightarrow> w_bufferedC (mv_heap s' ! w) = []"
  shows "wait_ok s'"
proof -
  have mono: "get_ok s f \<Longrightarrow> get_ok s' f" for f
    using assms(4-6) by (cases f) auto
  have "get_ok s' f" if "mv_frames s' u = Some f" for u f
  proof (cases "u = t")
    case False
    then have "mv_frames s u = Some f"
      using that fun_cong [OF assms(2), of u] by (simp only: fun_upd_other not_False_eq_True)
    then show ?thesis
      using assms(1) mono by (auto simp: wait_ok_def)
  qed (use that assms(3) in simp)
  then show ?thesis by (simp add: wait_ok_def)
qed

lemma wait_ok_frame_step:
  assumes "wait_ok s" and "send_ok s" and "lock_ok s" and "mv_frames s t = Some f" and "frame_step t k f s = Some s'"
  shows "wait_ok s'"
proof (rule wait_okI [OF assms(1)])
  have ok: "get_ok s f"
    using assms(1,4) by (simp add: wait_ok_def)
  note f = assms(5)
  show "mv_frames s' = (mv_frames s)(t := mv_frames s' t)"
    using f by (cases f) (auto simp: step_defs Let_def split: if_splits sum.splits)
  show "get_ok s' g" if "mv_frames s' t = Some g" for g
    using that f ok by (cases f) (auto simp: step_defs Let_def split: if_splits sum.splits)
  show "mv_Sync s' = mv_Sync s"
    using f by (cases f) (auto simp: step_defs Let_def split: if_splits sum.splits)
  show "length (mv_heap s) \<le> length (mv_heap s')"
    using f by (cases f) (auto simp: step_defs Let_def split: if_splits sum.splits)
  show "w_bufferedC (mv_heap s' ! w) = []" if w: "mv_Sync s" "w < length (mv_heap s)" "w_bufferedC (mv_heap s ! w) = []" for w
  proof (cases f)
    case (SetSend v i n)
    then have "mv_mu s = Some t"
      using lock_okD [OF assms(3,4)] by simp
    then show ?thesis
      using assms(2,4) SetSend w(1) by (simp add: send_ok_def)
  qed (use f w in \<open>auto simp: step_defs Let_def nth_list_update_less nth_append split: if_splits sum.splits\<close>)
qed

lemma wait_okD: "wait_ok s \<Longrightarrow> mv_frames s t = Some f \<Longrightarrow> get_ok s f"
  by (simp add: wait_ok_def)

lemma wait_ok_set_next: "wait_ok s \<Longrightarrow> wait_ok (set_next t v i n s)"
  by (rule wait_okI [of s _ t]) (auto simp: set_next_def)

lemma wait_ok_get_received: "wait_ok s \<Longrightarrow> w < length (mv_heap s) \<Longrightarrow> wait_ok (get_received t w p v s)"
  by (rule wait_okI [of s _ t])
    (auto simp: get_received_def get_return_def Let_def nth_list_update_less split: if_splits)

lemma wait_ok_step:
  assumes "wait_ok s" and "send_ok s" and "lock_ok s" and "mem_step e s = Some s'"
  shows "wait_ok s'"
proof (cases e)
  case (Proceed t k)
  then show ?thesis
    using assms wait_ok_frame_step by (auto split: option.splits)
next
  case (HandOver t g)
  then obtain v i n w p where h: "mv_frames s g = Some (GetWait w p)" "s' = get_received g w p v (set_next t v i n s)"
    using assms(4) by (auto elim!: hand_overE)
  then have "w < length (mv_heap s)"
    using wait_okD [OF assms(1) h(1)] by simp
  then show ?thesis
    unfolding h(2) using assms(1) by (intro wait_ok_get_received wait_ok_set_next) (simp_all add: set_next_def)
next
  case (ContextDone t)
  then obtain w p where "s' = get_return t w (RetErr ''context canceled'') s"
    using assms(4) by (auto split: option.splits frame.splits)
  then show ?thesis
    by (intro wait_okI [OF assms(1), of _ t]) (simp_all add: get_return_def nth_list_update_less)
next
  case (CallClose t w)
  then show ?thesis
    using assms(4) by (intro wait_okI [OF assms(1), of _ t]) (auto simp: watcher_Close_def nth_list_update_less split: if_splits)
next
  case (CallSet t v)
  then show ?thesis
    using assms(4) by (intro wait_okI [OF assms(1), of _ t]) (auto simp: mv_call_def split: if_splits)
next
  case (CallWatch t)
  then show ?thesis
    using assms(4) by (intro wait_okI [OF assms(1), of _ t]) (auto simp: mv_call_def split: if_splits)
next
  case (CallGet t w opts)
  then show ?thesis
    using assms(4) by (intro wait_okI [OF assms(1), of _ t]) (auto simp: mv_call_def split: if_splits)
qed

lemma turn_listed:
  assumes "list_ok s" and "mv_mu s = Some t" and "mv_frames s t = Some f" and "f \<in> {SetLoop v i n, SetUpdate v i n, SetSend v i n}" and "i < mv_len s"
  shows "mv_array s ! i \<in> todo s" "mv_array s ! i < length (mv_heap s)" "set (drop (Suc i) (take (mv_len s) (mv_array s))) = todo s - {mv_array s ! i}"
proof -
  have d: "drop i (take (mv_len s) (mv_array s)) = mv_array s ! i # drop (Suc i) (take (mv_len s) (mv_array s))"
    using assms by (auto simp: list_ok_def pos_ok_def Cons_nth_drop_Suc [symmetric])
  have m: "members_ok (take n (mv_array s) @ drop i (take (mv_len s) (mv_array s))) (mv_heap s)"
    using assms by (auto simp: list_ok_def listed_def members_def)
  have "todo s = set (drop i (take (mv_len s) (mv_array s)))"
    using assms(2-4) by (auto simp: todo_def)
  then show "mv_array s ! i \<in> todo s" "mv_array s ! i < length (mv_heap s)" "set (drop (Suc i) (take (mv_len s) (mv_array s))) = todo s - {mv_array s ! i}"
    using d m by (auto simp: members_ok_def)
qed

lemma send_ok_step:
  assumes "send_ok s" and "list_ok s" and "lock_ok s" and "mem_step e s = Some s'"
  shows "send_ok s'"
  using assms(3,4)
proof (cases rule: mem_step_cases)
  case quiet
  have "mv_array s ! i < length (mv_heap s)" if h: "holder s = Some (SetSend v i n)" for v i n
  proof -
    obtain t where "mv_mu s = Some t" "mv_frames s t = Some (SetSend v i n)"
      using h by (auto simp: holder_def split: option.splits)
    then show ?thesis
      using turn_listed(2) [OF assms(2), of t "SetSend v i n" v i n] assms(2) by (auto simp: list_ok_def pos_ok_def)
  qed
  then show ?thesis
    using quiet assms(1) by (fastforce simp: send_ok_def quiet_def same_view_def)
next
  case (holding t f k)
  show ?thesis
  proof (cases f)
    case (SetUpdate v i n)
    then show ?thesis
      using holding assms(2) turn_listed(2) [OF assms(2) holding(2,1), of v i n]
      by (auto simp: send_ok_def set_update_def set_next_def list_ok_def pos_ok_def nth_list_update_less split: if_splits)
  qed (use holding in \<open>auto simp: send_ok_def step_defs Let_def split: if_splits\<close>)
next
  case (hand_over t v i n g w p)
  then show ?thesis
    using quiet_get_received [of "set_next t v i n s" g w p v] by (auto simp: send_ok_def set_next_def quiet_def)
qed (auto simp: send_ok_def set_begin_def watch_begin_def split: if_splits)

lemma value_ok_step:
  assumes "value_ok s" and "lock_ok s" and "mem_step e s = Some s'"
  shows "value_ok s'"
  using assms(2,3)
proof (cases rule: mem_step_cases)
  case quiet
  then show ?thesis
    using assms(1) by (simp add: value_ok_def quiet_def)
next
  case (holding t f k)
  then show ?thesis
    using assms(1) by (cases f) (auto simp: value_ok_def step_defs Let_def split: if_splits)
next
  case (hand_over t v i n g w p)
  then have "value_ok (set_next t v i n s)"
    using assms(1) by (auto simp: value_ok_def set_next_def)
  then show ?thesis
    using quiet_get_received [of "set_next t v i n s" g w p v] hand_over by (auto simp: value_ok_def set_next_def quiet_def)
qed (use assms(1) in \<open>auto simp: value_ok_def set_begin_def watch_begin_def split: if_splits\<close>)

lemma history_turn:
  assumes "history_ok s" "todo s' = todo s - {u}" "u \<in> todo s" "mv_heap s' = (mv_heap s)[u := x]" "mv_log s' = mv_log s" "mv_Sync s' = mv_Sync s"
    and "u < length (mv_heap s) \<Longrightarrow> shown (mv_Sync s) True (mv_log s) (mv_heap s ! u) \<Longrightarrow> shown (mv_Sync s) False (mv_log s) x"
  shows "history_ok s'"
  using assms by (auto simp: history_ok_def nth_list_update_less)

lemma history_ok_set_next:
  assumes "history_ok s" "list_ok s" "mv_mu s = Some t" "mv_frames s t = Some f" "f \<in> {SetUpdate v i n, SetSend v i n}"
    and "shown (mv_Sync s) True (mv_log s) (mv_heap s ! (mv_array s ! i)) \<Longrightarrow> shown (mv_Sync s) False (mv_log s) x"
  shows "history_ok (set_next t v i n (upd_watcher (mv_array s ! i) (\<lambda>_. x) s))"
proof (rule history_turn [OF assms(1)])
  have pos: "pos_ok True (i, n) (mv_len s) (mv_array s)"
    using assms(2-5) by (auto simp: list_ok_def)
  note turn = turn_listed [OF assms(2-4), of v i n]
  show "mv_array s ! i \<in> todo s"
    using turn(1) pos assms(5) by (auto simp: pos_ok_def)
  show "todo (set_next t v i n (upd_watcher (mv_array s ! i) (\<lambda>_. x) s)) = todo s - {mv_array s ! i}"
    using turn(3) pos assms(3-5) by (auto simp: todo_def set_next_def pos_ok_def take_update_swap drop_update_cancel)
qed (use assms(6) in \<open>simp_all add: set_next_def\<close>)

lemma history_ok_quiet: "history_ok s \<Longrightarrow> quiet s s' \<Longrightarrow> same_view s s' \<Longrightarrow> history_ok s'"
  unfolding history_ok_def quiet_def same_view_def view_def todo_def by (auto intro: shown_mono)

lemma history_ok_same:
  "history_ok s \<Longrightarrow> todo s' = todo s \<Longrightarrow> mv_heap s' = mv_heap s \<Longrightarrow> mv_log s' = mv_log s \<Longrightarrow> mv_Sync s' = mv_Sync s \<Longrightarrow> history_ok s'"
  by (simp add: history_ok_def)

lemma history_ok_frame_step:
  assumes hist: "history_ok s" and ok: "list_ok s" "send_ok s" "value_ok s" and f: "mv_frames s t = Some f" "mv_mu s = Some t" "locks f" "frame_step t k f s = Some s'"
  shows "history_ok s'"
proof (cases f)
  case (SetLoop v i n)
  then have s': "s' = set_loop t v i n s" and log: "mv_log s \<noteq> []"
    using f ok(3) by (simp_all add: value_ok_def)
  note turn = turn_listed [OF ok(1) f(2,1), of v i n]
  consider "i < mv_len s" "w_close (mv_heap s ! (mv_array s ! i))" | "i < mv_len s" "\<not> w_close (mv_heap s ! (mv_array s ! i))" | "\<not> i < mv_len s"
    by blast
  then show ?thesis
  proof cases
    case 1
    show ?thesis
    proof (rule history_turn [OF hist, of _ "mv_array s ! i" "mv_heap s ! (mv_array s ! i)"])
      show "todo s' = todo s - {mv_array s ! i}"
        using 1 turn(3) SetLoop f(2) by (simp add: s' set_loop_def mv_watcher_def todo_def)
    qed (use 1 turn SetLoop log in \<open>simp_all add: s' set_loop_def mv_watcher_def shown_skip\<close>)
  next
    case 2
    show ?thesis
      by (rule history_ok_same [OF hist]) (use 2 SetLoop f in \<open>simp_all add: s' set_loop_def mv_watcher_def todo_def\<close>)
  next
    case 3
    show ?thesis
      by (rule history_ok_same [OF hist]) (use 3 SetLoop f in \<open>simp_all add: s' set_loop_def mv_watcher_def todo_def Let_def\<close>)
  qed
next
  case (SetUpdate v i n)
  let ?w = "mv_array s ! i"
  have log: "mv_log s \<noteq> []"
    using f SetUpdate ok(3) by (simp add: value_ok_def)
  show ?thesis
  proof (cases "mv_Sync s")
    case True
    then have c: "w_close (mv_heap s ! ?w)" "s' = set_next t v i n s"
      using f SetUpdate by (simp_all add: set_update_def mv_watcher_def split: if_splits)
    have "history_ok (set_next t v i n (upd_watcher ?w (\<lambda>_. mv_heap s ! ?w) s))"
      using history_ok_set_next [OF hist ok(1) f(2,1)] SetUpdate c(1) log shown_skip by blast
    then show ?thesis
      by (simp add: c(2) upd_watcher_def)
  next
    case False
    then have s': "s' = at_frame t (SetSend v i n) (upd_watcher ?w (\<lambda>w. w\<lparr>w_bufferedC := []\<rparr>) s)"
      using f SetUpdate by (simp add: set_update_def)
    have "todo s' = todo s" "?w \<in> todo s"
      using f SetUpdate ok(1) turn_listed(1) [OF ok(1) f(2,1), of v i n] by (auto simp: s' todo_def list_ok_def pos_ok_def)
    moreover have "?w < length (mv_heap s) \<Longrightarrow> shown False True (mv_log s) ((mv_heap s ! ?w)\<lparr>w_bufferedC := []\<rparr>)"
      using hist False \<open>?w \<in> todo s\<close> by (metis history_ok_def shown_drain)
    ultimately show ?thesis
      using hist False by (auto simp: s' history_ok_def nth_list_update_less)
  qed
next
  case (SetSend v i n)
  let ?w = "mv_array s ! i"
  have log: "mv_log s \<noteq> []" "last (mv_log s) = v"
    using f SetSend ok(3) by (simp_all add: value_ok_def)
  have b: "\<not> mv_Sync s" "w_bufferedC (mv_heap s ! ?w) = []"
    using f SetSend ok(2) by (simp_all add: send_ok_def)
  have "history_ok (set_next t v i n (upd_watcher ?w (\<lambda>_. (mv_heap s ! ?w)\<lparr>w_bufferedC := [v]\<rparr>) s))"
    by (rule history_ok_set_next [OF hist ok(1) f(2,1)]) (use SetSend b(1) shown_send [OF _ b(2) log] in simp_all)
  then show ?thesis
    using f SetSend b by (simp add: set_send_def mv_watcher_def upd_watcher_def)
next
  case (WatchLoop i n)
  show ?thesis
    by (rule history_ok_same [OF hist]) (use WatchLoop f in \<open>auto simp: watch_loop_def todo_def Let_def split: if_splits\<close>)
next
  case WatchAppend
  have "todo s = {}" "todo s' = {}"
    using f WatchAppend by (auto simp: todo_def watch_append_def Let_def)
  moreover have "shown (mv_Sync s) False (mv_log s) \<lparr>w_bufferedC = (case mv_inner s of None \<Rightarrow> [] | Some v \<Rightarrow> [v]), w_getSem = False, w_close = False,
      w_from = length (mv_log s) - 1, w_got = []\<rparr>"
    using ok(3) by (cases "mv_log s" rule: rev_cases) (auto simp: shown_def value_ok_def)
  ultimately show ?thesis
    using hist f WatchAppend by (auto simp: history_ok_def watch_append_def Let_def nth_append less_Suc_eq)
qed (use f in auto)

lemma history_ok_step:
  assumes "history_ok s" and ok: "lock_ok s" "list_ok s" "send_ok s" "value_ok s" "wait_ok s" and "mem_step e s = Some s'"
  shows "history_ok s'"
  using ok(1) assms(7)
proof (cases rule: mem_step_cases)
  case quiet
  then show ?thesis
    using assms(1) history_ok_quiet by blast
next
  case (set_begin t v)
  then have mu: "mv_mu s = None" and s': "s' = at_frame t (SetLoop v 0 0) (s\<lparr>mv_mu := Some t, mv_inner := Some v, mv_log := mv_log s @ [v]\<rparr>)"
    by (auto simp: set_begin_def split: if_splits)
  have "w \<in> todo s' \<or> w_close (mv_heap s ! w)" if "w < length (mv_heap s)" for w
    using that mu ok(2) by (auto simp: s' list_ok_def listed_def members_ok_def todo_def)
  then show ?thesis
    using assms(1) mu by (auto simp: history_ok_def s' todo_def [of s] intro: shown_begin)
next
  case (watch_begin t)
  then show ?thesis
    by (intro history_ok_same [OF assms(1)]) (auto simp: watch_begin_def todo_def split: if_splits)
next
  case (holding t f k)
  then show ?thesis
    using history_ok_frame_step assms(1) ok by blast
next
  case (hand_over t v i n g w p)
  let ?x = "(mv_heap s ! w)\<lparr>w_got := w_got (mv_heap s ! w) @ [v]\<rparr>"
  have "w_bufferedC (mv_heap s ! w) = []"
    using wait_okD [OF ok(5) hand_over(3)] hand_over(4) by simp
  moreover have "mv_log s \<noteq> []" "last (mv_log s) = v"
    using hand_over(1,2) ok(4) by (simp_all add: value_ok_def)
  ultimately have "shown (mv_Sync s) True (mv_log s) (mv_heap s ! w) \<Longrightarrow> shown (mv_Sync s) False (mv_log s) ?x"
    using shown_hand_over hand_over(4) by simp
  then have "history_ok (set_next t v i n (upd_watcher w (\<lambda>_. ?x) s))"
    using history_ok_set_next [OF assms(1) ok(2) hand_over(2,1), of v i n ?x] hand_over(5) by simp
  moreover have "quiet (set_next t v i n (upd_watcher w (\<lambda>_. ?x) s)) s'" "same_view (set_next t v i n (upd_watcher w (\<lambda>_. ?x) s)) s'"
    using hand_over(2,6)
    by (auto simp: hand_over(7) get_received_def get_return_def Let_def set_next_def quiet_def same_view_def view_def nth_list_update_less split: if_splits)
  ultimately show ?thesis
    by (rule history_ok_quiet)
qed

section \<open>Reachable states\<close>

definition mem_ok :: "'v mem_value \<Rightarrow> bool" where
  "mem_ok s \<longleftrightarrow> lock_ok s \<and> list_ok s \<and> send_ok s \<and> value_ok s \<and> wait_ok s \<and> history_ok s"

lemma mem_ok_new: "mem_ok (new_value sync)"
  by (simp add: mem_ok_def new_value_def lock_ok_def list_ok_def listed_def members_ok_def send_ok_def value_ok_def wait_ok_def history_ok_def holder_def)

lemma mem_ok_step: "mem_ok s \<Longrightarrow> mem_step e s = Some s' \<Longrightarrow> mem_ok s'"
  unfolding mem_ok_def using lock_ok_step list_ok_step send_ok_step value_ok_step wait_ok_step history_ok_step by metis

lemma mem_Sync_step:
  assumes "lock_ok s" "mem_step e s = Some s'"
  shows "mv_Sync s' = mv_Sync s"
  using assms
proof (cases rule: mem_step_cases)
  case (holding t f k)
  then show ?thesis
    by (cases f) (auto simp: step_defs Let_def split: if_splits)
next
  case (hand_over t v i n g w p)
  then show ?thesis
    by (auto simp: step_defs Let_def split: if_splits)
qed (auto simp: quiet_def set_begin_def watch_begin_def split: if_splits)

lemma mem_reachable_ok: "mem_reachable sync s \<Longrightarrow> mem_ok s \<and> mv_Sync s = sync"
proof (induction rule: mem_reachable.induct)
  case new
  then show ?case
    using mem_ok_new [of sync] by (simp add: new_value_def)
next
  case (step s e s')
  then show ?case
    using mem_ok_step mem_Sync_step unfolding mem_ok_def by metis
qed

lemma reachable_shown:
  assumes "mem_reachable sync s" "w < length (mv_heap s)"
  shows "shown sync (w \<in> todo s) (mv_log s) (mv_heap s ! w)"
proof -
  have "history_ok s" "mv_Sync s = sync"
    using mem_reachable_ok [OF assms(1)] by (simp_all add: mem_ok_def)
  then show ?thesis
    using assms(2) unfolding history_ok_def by blast
qed

lemma todo_free: "mv_mu s = None \<Longrightarrow> todo s = {}"
  by (simp add: todo_def)

fun mem_run :: "'v mem_event list \<Rightarrow> 'v mem_value \<Rightarrow> 'v mem_value option" where
  "mem_run [] s = Some s"
| "mem_run (e # es) s = (case mem_step e s of None \<Rightarrow> None | Some s' \<Rightarrow> mem_run es s')"

lemma mem_run_reachable: "mem_run es s = Some s' \<Longrightarrow> mem_reachable sync s \<Longrightarrow> mem_reachable sync s'"
  by (induction es arbitrary: s) (auto split: option.splits intro: mem_reachable.step)

text \<open>The number of steps after which the holder of the lock releases it.\<close>

fun work_of :: "'v frame option \<Rightarrow> nat \<Rightarrow> nat" where
  "work_of (Some (SetLoop v i n)) l = 3 * (l - i) + 1"
| "work_of (Some (SetUpdate v i n)) l = 3 * (l - i)"
| "work_of (Some (SetSend v i n)) l = 3 * (l - i) - 1"
| "work_of (Some (WatchLoop i n)) l = (l - i) + 2"
| "work_of (Some WatchAppend) l = 1"
| "work_of _ l = 0"

lemma holder_proceeds:
  assumes "mem_ok s" and "\<not> mv_Sync s" and "mv_mu s = Some t"
  shows "\<exists>s'. mem_step (Proceed t k) s = Some s' \<and>
    (mv_mu s' = None \<and> mv_frames s' t = None \<or> mv_mu s' = Some t \<and> work_of (holder s') (mv_len s') < work_of (holder s) (mv_len s))"
proof -
  obtain f where f: "mv_frames s t = Some f" "locks f"
    using assms(1,3) unfolding mem_ok_def lock_ok_def by (metis option.case_eq_if option.collapse)
  have turn: "in_turn (Some f) \<longrightarrow> fst (cursor_of (Some f) (mv_len s)) < mv_len s"
    using assms(1,3) f by (simp add: mem_ok_def list_ok_def pos_ok_def)
  have send: "f = SetSend v i n \<Longrightarrow> w_bufferedC (mv_heap s ! (mv_array s ! i)) = []" for v i n
    using assms(1,3) f by (simp add: mem_ok_def send_ok_def)
  show ?thesis
    using f assms(2,3) turn send by (cases f) (auto simp: step_defs Let_def)
qed

lemma holder_releases:
  assumes "mem_ok s" and "\<not> mv_Sync s" and "mv_mu s = Some t"
  shows "\<exists>n s'. n \<le> work_of (holder s) (mv_len s) + 1 \<and> mem_run (replicate n (Proceed t k)) s = Some s' \<and> mv_mu s' = None \<and> mv_frames s' t = None"
  using assms
proof (induction "work_of (holder s) (mv_len s)" arbitrary: s rule: less_induct)
  case less
  obtain s' where s': "mem_step (Proceed t k) s = Some s'" and
      c: "mv_mu s' = None \<and> mv_frames s' t = None \<or> mv_mu s' = Some t \<and> work_of (holder s') (mv_len s') < work_of (holder s) (mv_len s)"
    using holder_proceeds [OF less.prems] by blast
  from c show ?case
  proof
    assume "mv_mu s' = None \<and> mv_frames s' t = None"
    then show ?thesis
      using s' by (intro exI [of _ 1] exI [of _ s']) (simp del: mem_step.simps)
  next
    assume w: "mv_mu s' = Some t \<and> work_of (holder s') (mv_len s') < work_of (holder s) (mv_len s)"
    have "mem_ok s'" "\<not> mv_Sync s'"
      using mem_ok_step [OF less.prems(1) s'] mem_Sync_step [OF _ s'] less.prems(1,2) by (simp_all add: mem_ok_def)
    with less.hyps w obtain n s2 where n: "n \<le> work_of (holder s') (mv_len s') + 1" "mem_run (replicate n (Proceed t k)) s' = Some s2"
        "mv_mu s2 = None" "mv_frames s2 t = None"
      by blast
    moreover have "n \<le> work_of (holder s) (mv_len s)"
      using n(1) w by linarith
    ultimately show ?thesis
      using s' by (intro exI [of _ "Suc n"] exI [of _ s2]) (simp del: mem_step.simps)
  qed
qed

lemma work_bound: "mem_ok s \<Longrightarrow> work_of (holder s) l \<le> 3 * l + 2"
  by (cases "(holder s, l)" rule: work_of.cases) auto

section \<open>Examples\<close>

text \<open>A watcher is created, and a value is set twice without \<open>Get\<close>; and a value with \<open>Sync\<close> is set while the watcher waits.\<close>

definition example_events :: "nat mem_event list" where
  "example_events =
     [CallWatch 0, Proceed 0 0, Proceed 0 0, Proceed 0 0, CallSet 1 7, Proceed 1 0, Proceed 1 0, Proceed 1 0, Proceed 1 0, Proceed 1 0, CallSet 1 8]"

definition example_settled :: "nat mem_value" where
  "example_settled = the (mem_run (example_events @ replicate 5 (Proceed 1 0)) (new_value False))"

definition example_setting :: "nat mem_value" where
  "example_setting = the (mem_run (example_events @ replicate 2 (Proceed 1 0)) (new_value False))"

definition example_sync :: "nat mem_value" where
  "example_sync =
     the (mem_run [CallWatch 0, Proceed 0 0, Proceed 0 0, Proceed 0 0, CallGet 2 0 [], Proceed 2 0, Proceed 2 0, CallSet 1 7, Proceed 1 0, Proceed 1 0,
                   HandOver 1 2, Proceed 1 0] (new_value True))"

lemmas example_simps = new_value_def mv_call_def at_frame_def mv_return_def upd_watcher_def keep_watcher_def mv_watcher_def watch_begin_def
  watch_loop_def watch_append_def reallocated_def set_begin_def set_loop_def set_update_def set_send_def set_next_def get_begin_def get_poll_def
  get_received_def get_return_def hand_over_def numeral_nat

lemma mem_run_the: "mem_run es (new_value sync) \<noteq> None \<Longrightarrow> mem_reachable sync (the (mem_run es (new_value sync)))"
  using mem_run_reachable [OF _ mem_reachable.new] by fastforce

lemma example_settled:
  "mem_reachable False example_settled" "mv_mu example_settled = None" "length (mv_heap example_settled) = 1" "mv_log example_settled = [7, 8]"
  "\<not> w_close (mv_heap example_settled ! 0)" "w_from (mv_heap example_settled ! 0) = 0" "w_got (mv_heap example_settled ! 0) = []"
proof -
  show "mem_reachable False example_settled"
    unfolding example_settled_def by (rule mem_run_the) (simp add: example_simps example_events_def)
qed (simp_all add: example_settled_def example_simps example_events_def)

lemma example_setting: "mem_reachable False example_setting" "mv_mu example_setting = Some 1" "mv_len example_setting = 1"
proof -
  show "mem_reachable False example_setting"
    unfolding example_setting_def by (rule mem_run_the) (simp add: example_simps example_events_def)
qed (simp_all add: example_setting_def example_simps example_events_def)

lemma example_sync:
  "mem_reachable True example_sync" "mv_mu example_sync = None" "length (mv_heap example_sync) = 1" "mv_log example_sync = [7]"
  "\<not> w_close (mv_heap example_sync ! 0)" "w_from (mv_heap example_sync ! 0) = 0" "w_bufferedC (mv_heap example_sync ! 0) = []"
proof -
  show "mem_reachable True example_sync"
    unfolding example_sync_def by (rule mem_run_the) (simp add: example_simps)
qed (simp_all add: example_sync_def example_simps)

section \<open>Properties\<close>

text \<open>C21: The state of a value is well-formed whatever its callers do and however their goroutines interleave: the lock is
  held by exactly the calls between \<open>Lock\<close> and \<open>Unlock\<close>, the loops over the watchers stay within the array although they
  overwrite it, every open watcher is on the list exactly once, and closed ones leave it only.\<close>

theorem mem_value_well_formed:
  assumes "mem_reachable sync s"
  shows "mv_len s \<le> length (mv_array s) \<and> distinct (listed s) \<and> set (listed s) \<subseteq> {..<length (mv_heap s)} \<and>
    (\<forall>w < length (mv_heap s). \<not> w_close (mv_heap s ! w) \<longrightarrow> w \<in> set (listed s)) \<and>
    (mv_mu s = None \<longrightarrow> listed s = take (mv_len s) (mv_array s)) \<and>
    (\<forall>t f. mv_frames s t = Some f \<longrightarrow> (locks f \<longleftrightarrow> mv_mu s = Some t) \<and>
       (in_turn (Some f) \<longrightarrow> fst (cursor_of (Some f) (mv_len s)) < mv_len s) \<and> get_ok s f)"
proof -
  have ok: "mem_ok s"
    using mem_reachable_ok [OF assms] by simp
  have "in_turn (Some f) \<longrightarrow> fst (cursor_of (Some f) (mv_len s)) < mv_len s" if f: "mv_frames s t = Some f" for t f
    using ok lock_okD [of s t f, OF _ f] f by (cases f) (auto simp: mem_ok_def list_ok_def pos_ok_def)
  then show ?thesis
    using ok lock_okD [of s] wait_okD [of s] by (auto simp: mem_ok_def list_ok_def pos_ok_def members_ok_def listed_def)
qed

theorem mem_value_well_formed_witness:
  "distinct (listed example_settled) \<and> 0 \<in> set (listed example_settled)"
  using mem_value_well_formed [OF example_settled(1)] example_settled(3,5) by simp

text \<open>C5: A watcher of a value without \<open>Sync\<close> is shown some of the values set since it was created, in order and without
  repetition, and never falls behind: while no \<open>Set\<close> is in progress, a value that waits for \<open>Get\<close> is the newest one, and if
  none waits, the newest has been received. So \<open>Get\<close> returns the newest value and blocks only if it has been seen.\<close>

theorem mem_watcher_newest:
  assumes "mem_reachable False s" and "w < length (mv_heap s)" and "\<not> w_close (mv_heap s ! w)"
  defines "x \<equiv> mv_heap s ! w"
  shows "subseq (w_got x @ w_bufferedC x) (drop (w_from x) (mv_log s)) \<and>
    (mv_mu s = None \<and> w_from x < length (mv_log s) \<longrightarrow>
       w_bufferedC x = [last (mv_log s)] \<or> w_bufferedC x = [] \<and> w_got x \<noteq> [] \<and> last (w_got x) = last (mv_log s))"
proof -
  have shown: "shown False (w \<in> todo s) (mv_log s) x" and mu: "mv_mu s = None \<Longrightarrow> w \<notin> todo s"
    using reachable_shown [OF assms(1,2)] by (simp_all add: x_def todo_free)
  have "subseq (drop (w_from x) (butlast (mv_log s))) (drop (w_from x) (mv_log s))"
    by (cases "mv_log s" rule: rev_cases) (simp_all add: list_emb_prefix)
  then have "subseq (w_got x @ w_bufferedC x) (drop (w_from x) (mv_log s))"
    using shown subseq_order.trans [of "w_got x @ w_bufferedC x" "drop (w_from x) (butlast (mv_log s))" "drop (w_from x) (mv_log s)"]
    by (cases "w \<in> todo s") (simp_all add: shown_def Let_def)
  moreover have "w_bufferedC x = [last (mv_log s)] \<or> w_bufferedC x = [] \<and> w_got x \<noteq> [] \<and> last (w_got x) = last (mv_log s)"
    if m: "mv_mu s = None" "w_from x < length (mv_log s)"
    using shown mu [OF m(1)] m(2) assms(3) by (cases "w_bufferedC x") (auto simp: shown_def x_def Let_def)
  ultimately show ?thesis
    by blast
qed

theorem mem_watcher_newest_witness: "w_bufferedC (mv_heap example_settled ! 0) = [8]"
  using mem_watcher_newest [OF example_settled(1), of 0] example_settled by simp

text \<open>C16: A value with \<open>Sync\<close> shows every open watcher all values that were set since it was created, beginning with the
  newest at that time; only the value of a \<open>Set\<close> that has not returned can be missing.\<close>

theorem mem_sync_full_log:
  assumes "mem_reachable True s" and "w < length (mv_heap s)" and "\<not> w_close (mv_heap s ! w)"
  defines "x \<equiv> mv_heap s ! w"
  shows "\<exists>rest. w_got x @ w_bufferedC x @ rest = drop (w_from x) (mv_log s) \<and> length rest \<le> 1 \<and> (mv_mu s = None \<longrightarrow> rest = [])"
proof -
  have shown: "shown True (w \<in> todo s) (mv_log s) x" and mu: "mv_mu s = None \<Longrightarrow> w \<notin> todo s"
    using reachable_shown [OF assms(1,2)] by (simp_all add: x_def todo_free)
  show ?thesis
  proof (cases "w \<in> todo s \<and> mv_log s \<noteq> []")
    case True
    then obtain ys v where ys: "mv_log s = ys @ [v]"
      using rev_exhaust by blast
    then have "w_from x \<le> length ys" "w_got x @ w_bufferedC x = drop (w_from x) ys"
      using True shown assms(3) by (simp_all add: shown_def Let_def x_def)
    then show ?thesis
      using True mu ys by (intro exI [of _ "[v]"]) auto
  next
    case False
    then show ?thesis
      using shown assms(3) by (intro exI [of _ "[]"]) (auto simp: shown_def Let_def x_def split: if_splits)
  qed
qed

theorem mem_sync_full_log_witness: "w_got (mv_heap example_sync ! 0) = [7]"
  using mem_sync_full_log [OF example_sync(1), of 0] example_sync by simp

text \<open>C20: Without \<open>Sync\<close>, \<open>Set\<close> and \<open>Watch\<close> never block once they have the lock, whatever the watchers do: the call can always
  proceed, and returns after at most three steps for every watcher on the list and three more.\<close>

theorem mem_set_returns:
  assumes "mem_reachable False s" and "mv_mu s = Some t"
  shows "mem_step (Proceed t k) s \<noteq> None \<and>
    (\<exists>n s'. n \<le> 3 * mv_len s + 3 \<and> mem_run (replicate n (Proceed t k)) s = Some s' \<and> mv_mu s' = None \<and> mv_frames s' t = None)"
proof -
  have ok: "mem_ok s" "\<not> mv_Sync s"
    using mem_reachable_ok [OF assms(1)] by simp_all
  obtain n s' where "n \<le> work_of (holder s) (mv_len s) + 1" "mem_run (replicate n (Proceed t k)) s = Some s'" "mv_mu s' = None" "mv_frames s' t = None"
    using holder_releases [OF ok assms(2)] by blast
  moreover have "n \<le> 3 * mv_len s + 3"
    using calculation(1) work_bound [OF ok(1), of "mv_len s"] by linarith
  ultimately show ?thesis
    using holder_proceeds [OF ok assms(2), of k] by blast
qed

theorem mem_set_returns_witness:
  "\<exists>n s'. n \<le> 6 \<and> mem_run (replicate n (Proceed 1 0)) example_setting = Some s' \<and> mv_mu s' = None \<and> mv_frames s' 1 = None"
  using mem_set_returns [OF example_setting(1,2), of 0] example_setting(3) by simp

end
