(* ===== verification/Spec2Isabelle.thy ===== *)
theory Spec2Isabelle
  imports TinyLB Toposort Cartesian Sinbin LogBuffer Kmod Bootparam GptDisk LogTree SupervisorRuns DhcpRuns DhcpLease EventRuns
begin

text \<open>
  This development verifies parts of the Monogon monorepo: the libraries that its operating system,
  Metropolis, and the services around it are built on. The program is written in Go; paths below are
  relative to \<^verbatim>\<open>src/\<close>. The theories are shallow embeddings: a Go function is a function of the same name
  (with a prefix where the name is taken), a struct a record, an error or a panic the left side of a
  sum, a loop a recursion, shared memory an explicit heap, and concurrency a sequence of events.

  \<^bold>\<open>Parts.\<close>

  \<^item> \<^bold>\<open>Supervisor\<close> (\<^verbatim>\<open>osbase/supervisor\<close>). The services of a node are runnables in a supervision tree. Theory
    \<open>Supervisor\<close> holds the tree (\<^verbatim>\<open>supervisor_node.go\<close>), the processor with its restart pass and the
    liquidator (\<^verbatim>\<open>supervisor_processor.go\<close>) and the calls of runnables (\<^verbatim>\<open>supervisor.go\<close>). \<open>SupervisorGC\<close>
    shows that the restart pass \<open>processGC\<close> ends and restarts what a recursive specification says.
    \<open>SupervisorRuns\<close> shows that no sequence of events makes the supervisor crash or block, by an
    invariant that gives every live runnable exactly one carrier, under two conditions on the
    runnables. Without them, a return of a runnable whose node a restart has removed crashes the processor. The
    liquidator ends exactly if no node was CANCELED before the shutdown.
  \<^item> \<^bold>\<open>Log tree\<close> (\<^verbatim>\<open>osbase/logtree\<close>). Runnables log into a tree of loggers that share a journal. \<open>LogEntry\<close> holds
    severities, payloads and the protobuf form of entries, with a round trip. \<open>Journal\<close> holds the
    doubly linked lists on a heap, quotas, scans and subscribers; it refines an abstract log, and the
    two kinds of scan are equivalent. \<open>SliceStable\<close> is the sorting function of the standard library that the scans
    (mis)use. \<open>LogTree\<close> holds publishers and readers: what is logged is read.
  \<^item> \<^bold>\<open>Log buffer\<close> (\<^verbatim>\<open>osbase/logbuffer\<close>). \<open>LogBuffer\<close>: the splitter of raw output into lines, which the log
    tree uses, and the ring of the newest lines.
  \<^item> \<^bold>\<open>Partition tables\<close> (\<^verbatim>\<open>osbase/gpt\<close>, \<^verbatim>\<open>osbase/msguid\<close>) on \<^bold>\<open>block devices\<close> (\<^verbatim>\<open>osbase/blockdev\<close>). \<open>Blockdev\<close>: memory
    devices and sections as instances of one interface, the locale \<open>block_device\<close>. \<open>Gpt\<close>: free space
    and placement. \<open>GptDisk\<close>: the format on disk, with CRC-32, UTF-16 and the protective MBR; writing and
    reading is a round trip on any device of the interface, also with a damaged primary table.
  \<^item> \<^bold>\<open>Kernel modules\<close> (\<^verbatim>\<open>osbase/kmod\<close>). \<open>Radix\<close>: the tree that matches device identifiers with patterns,
    equivalent to matching every pattern. \<open>Kmod\<close>: parsing module information, building the metadata, and
    loading modules with their dependencies first.
  \<^item> \<^bold>\<open>Kernel command lines\<close> (\<^verbatim>\<open>osbase/bootparam\<close>). \<open>Bootparam\<close>: decoding inverts encoding.
  \<^item> \<^bold>\<open>DHCP client\<close> (\<^verbatim>\<open>metropolis/node/core/network/dhcp4c\<close>). \<open>NetIP\<close>: addresses and networks of the standard library.
    \<open>Dhcp\<close>: the state machine (\<^verbatim>\<open>dhcpc.go\<close>) over its transports. The package that encodes and decodes DHCP options is
    an argument, the record \<open>dhcp_lib\<close>, with what it documents as the hypothesis \<open>lib_ok\<close>; clock, packets and outcomes
    of calls are an argument of every step, the record \<open>dhcp_env\<close>. \<open>DhcpRuns\<close>: in every reachable state the
    fields are valid as their comments say, the deadlines are in order, and an expired lease is released.
    \<open>DhcpLease\<close>: the routes and DNS servers of a lease (\<^verbatim>\<open>lease.go\<close>), and that exactly the acceptable routes are kept.
  \<^item> \<^bold>\<open>Event values\<close> (\<^verbatim>\<open>osbase/event/memory\<close>). \<open>EventMemory\<close>: values in memory with watchers, as steps of goroutines at the grain of
    channel operations. \<open>EventRuns\<close>: in every interleaving of the steps the value is well-formed, setting it returns, and a
    watcher gets the newest value, or, of a value with \<open>Sync\<close>, all of them.
  \<^item> \<^bold>\<open>Load balancer\<close> (\<^verbatim>\<open>go/net/tinylb\<close>) with its \<^bold>\<open>ordered map\<close> (\<^verbatim>\<open>go/types/mapsets\<close>). \<open>OrderedMap\<close> refines a finite map,
    stated as the locale \<open>ordered_map\<close>; \<open>TinyLB\<close> has the connection pool and the server as a step
    relation.
  \<^item> \<^bold>\<open>Algorithms\<close> (\<^verbatim>\<open>go/algorithm\<close>, \<^verbatim>\<open>cloud/lib/sinbin\<close>). \<open>Toposort\<close>, \<open>Cartesian\<close> and \<open>Sinbin\<close>.

  \<^bold>\<open>Conventions.\<close> \<open>Prelude\<close> has the shared vocabulary. Where Go leaves an order open (ranging over a map,
  choosing between channels or goroutines), the order is an argument and the theorems hold for all
  orders. Code that is not part of the repository (the kernel, random and time sources, protobuf
  timestamps) is an argument as well. Integers are unbounded where the sources keep them far from
  their limits, which the theory of a part states, and words or explicit conversions otherwise.

  \<^bold>\<open>Fuel and termination.\<close> Loops that end are total functions. Loops that may not end are partial functions
  into \<open>option\<close>: the scans of the journal and the second phase of \<open>processGC\<close>, both shown to return on
  the states that occur. Fuel is used for the depth-first search of \<open>Toposort\<close>, where the number of nodes is
  shown to be enough, and for the loading of modules in \<open>Kmod\<close>, where the number of modules is enough if
  there is no cycle and no fuel is enough if there is one.

  \<^bold>\<open>Not modelled.\<close> Most of the repository drives other systems: etcd, Kubernetes, gRPC, SQL databases, cloud
  APIs, netlink and ioctls of the kernel, a TPM, or files and processes of a build. What such code does
  is decided by those systems, and a model of it would be a model of them. Of the parts above, the text
  forms of log entries with dates and the parsers of foreign log formats are left out, as they depend on
  formatting and regular expressions of the standard library.
\<close>

end
